(* ===== verification/NS_Prelude.thy ===== *)
theory NS_Prelude
  imports Main "HOL-Library.Word" "HOL-Library.Sublist"
begin

section \<open>Prelude: outcomes, callbacks, labelled machines\<close>

text \<open>
  What every component of the library shares.

  \<^item> \<open>error_code\<close>: the three classes of \<open>boost::system::error_code\<close> that the code
    distinguishes: success (\<open>!ec\<close>), codes whose value is that of
    \<open>boost::asio::error::operation_aborted\<close>, and any other failure (numbered).
  \<^item> \<open>outcome\<close>: what a call leaves behind: it returns (\<open>Done\<close>), lets an exception
    escape (\<open>Thrown\<close>, with the state at the throw) or does something that C++ leaves
    undefined (\<open>Undefined\<close>: \<open>front()\<close> of an empty queue, a write past a buffer).
    \<open>after P m\<close> is the small Hoare logic for it: \<open>m\<close> is defined and \<open>P\<close> holds of the state
    it leaves, normally or by an exception.
  \<^item> \<open>callback\<close>: the three states of a \<open>std::function\<close> member of this library: empty,
    the do-nothing lambda some members are initialised with, and a function of the user.
  \<^item> labelled step relations, their reachable states and runs, and the locales in which
    the invariant rule is proved once for every machine of the development.
\<close>

subsection \<open>Proof method collections\<close>

named_theorems outcome_intros \<open>rules that establish \<open>after\<close>\<close>
named_theorems ns_ops \<open>definitions of the operations of the components\<close>

subsection \<open>Error codes and exceptions\<close>

type_synonym byte = "8 word"

datatype error_code = NoError | OperationAborted | OtherError nat

definition failed :: "error_code \<Rightarrow> bool" where
  "failed ec = (ec \<noteq> NoError)"

lemma failed_simps [simp]:
  "\<not> failed NoError" "failed OperationAborted" "failed (OtherError n)"
  by (simp_all add: failed_def)

lemma not_failed_iff: "\<not> failed ec \<longleftrightarrow> ec = NoError"
  by (simp add: failed_def)

datatype exn = BadFunctionCall | RuntimeError string | SystemError error_code | OtherException

subsection \<open>Outcomes\<close>

datatype 's outcome = Done 's | Thrown exn 's | Undefined

primrec and_then :: "'s outcome \<Rightarrow> ('s \<Rightarrow> 's outcome) \<Rightarrow> 's outcome" where
  "and_then (Done s) f = f s"
| "and_then (Thrown x s) f = Thrown x s"
| "and_then Undefined f = Undefined"

primrec after :: "('s \<Rightarrow> bool) \<Rightarrow> 's outcome \<Rightarrow> bool" where
  "after P (Done s) = P s"
| "after P (Thrown x s) = P s"
| "after P Undefined = False"

primrec leaves :: "'s outcome \<Rightarrow> 's \<Rightarrow> bool" where
  "leaves (Done s) t = (t = s)"
| "leaves (Thrown x s) t = (t = s)"
| "leaves Undefined t = False"

lemma and_then_assoc:
  "and_then (and_then m f) g = and_then m (\<lambda>s. and_then (f s) g)"
  by (cases m) simp_all

lemma and_then_Done [simp]: "and_then m Done = m"
  by (cases m) simp_all

lemma after_and_then [outcome_intros]:
  assumes "after Q m" and "\<And>s. Q s \<Longrightarrow> P s" and "\<And>s. Q s \<Longrightarrow> after P (f s)"
  shows "after P (and_then m f)"
  using assms by (cases m) simp_all

lemma after_mono: "after P m \<Longrightarrow> (\<And>s. P s \<Longrightarrow> Q s) \<Longrightarrow> after Q m"
  by (cases m) simp_all

lemma after_conj: "after P m \<Longrightarrow> after Q m \<Longrightarrow> after (\<lambda>s. P s \<and> Q s) m"
  by (cases m) simp_all

lemma after_leaves: "after P m \<Longrightarrow> leaves m t \<Longrightarrow> P t"
  by (cases m) simp_all

lemma leaves_iff: "leaves m t \<longleftrightarrow> m = Done t \<or> (\<exists>x. m = Thrown x t)"
  by (cases m) auto

text \<open>
  Code that may recurse for ever answers \<open>None\<close> when it does: \<open>continue\<close> goes on with such code
  after a call that returns, and \<open>continue_mono\<close> lets \<^theory_text>\<open>partial_function\<close> recurse through it.
\<close>

primrec continue :: "'s outcome \<Rightarrow> ('s \<Rightarrow> 's outcome option) \<Rightarrow> 's outcome option" where
  "continue (Done s) f = f s"
| "continue (Thrown x s) f = Some (Thrown x s)"
| "continue Undefined f = Some Undefined"

lemma continue_mono [partial_function_mono]:
  assumes "\<And>s. mono_option (\<lambda>f. F f s)"
  shows "mono_option (\<lambda>f. continue m (F f))"
proof (cases m)
  case (Done s)
  with assms [of s] show ?thesis by simp
next
  case (Thrown x s)
  then show ?thesis by (simp add: partial_function_definitions.const_mono option.const_mono)
next
  case Undefined
  then show ?thesis by (simp add: option.const_mono)
qed

subsection \<open>Callbacks\<close>

datatype 'c callback = NullFn | NoOpFn | Fn 'c

text \<open>Calling an empty \<open>std::function\<close> throws \<open>std::bad_function_call\<close>.\<close>

fun invoke :: "'c callback \<Rightarrow> ('c \<Rightarrow> 's \<Rightarrow> 's) \<Rightarrow> 's \<Rightarrow> 's outcome" where
  "invoke NullFn k s = Thrown BadFunctionCall s"
| "invoke NoOpFn k s = Done s"
| "invoke (Fn c) k s = Done (k c s)"

lemma after_invoke [outcome_intros]:
  assumes "P s" and "\<And>c. cb = Fn c \<Longrightarrow> P (k c s)"
  shows "after P (invoke cb k s)"
  using assms by (cases cb) simp_all

lemma invoke_Done: "cb \<noteq> NullFn \<Longrightarrow> \<exists>t. invoke cb k s = Done t"
  by (cases cb) simp_all

subsection \<open>Labelled machines\<close>

inductive reachable :: "('s \<Rightarrow> bool) \<Rightarrow> ('s \<Rightarrow> 'e \<Rightarrow> 's \<Rightarrow> bool) \<Rightarrow> 's \<Rightarrow> bool"
  for init :: "'s \<Rightarrow> bool" and step :: "'s \<Rightarrow> 'e \<Rightarrow> 's \<Rightarrow> bool" where
  reachable_init: "init s \<Longrightarrow> reachable init step s"
| reachable_step: "reachable init step s \<Longrightarrow> step s e t \<Longrightarrow> reachable init step t"

fun run :: "('s \<Rightarrow> 'e \<Rightarrow> 's \<Rightarrow> bool) \<Rightarrow> 's \<Rightarrow> 'e list \<Rightarrow> 's \<Rightarrow> bool" where
  "run step s [] t = (t = s)"
| "run step s (e # es) t = (\<exists>u. step s e u \<and> run step u es t)"

lemma run_append: "run step s (es @ fs) t \<longleftrightarrow> (\<exists>u. run step s es u \<and> run step u fs t)"
  by (induction es arbitrary: s) auto

lemma run_reachable: "reachable init step s \<Longrightarrow> run step s es t \<Longrightarrow> reachable init step t"
  by (induction es arbitrary: s) (auto intro: reachable_step)

text \<open>
  The invariant rule: an invariant that holds of the initial states and is kept by every
  step holds of every reachable state. A machine is safe when its invariant excludes the bad
  events, those whose handler does something undefined.
\<close>

locale invariant_system =
  fixes init :: "'s \<Rightarrow> bool"
    and step :: "'s \<Rightarrow> 'e \<Rightarrow> 's \<Rightarrow> bool"
    and inv :: "'s \<Rightarrow> bool"
  assumes inv_init: "init s \<Longrightarrow> inv s"
    and inv_step: "inv s \<Longrightarrow> step s e t \<Longrightarrow> inv t"
begin

lemma reachable_inv: "reachable init step s \<Longrightarrow> inv s"
  by (induction rule: reachable.induct) (auto intro: inv_init inv_step)

lemma run_inv: "inv s \<Longrightarrow> run step s es t \<Longrightarrow> inv t"
  by (induction es arbitrary: s) (auto intro: inv_step)

lemma run_from_init_inv: "init s \<Longrightarrow> run step s es t \<Longrightarrow> inv t"
  by (blast intro: run_inv inv_init)

end

locale safe_system = invariant_system init step inv
  for init :: "'s \<Rightarrow> bool" and step :: "'s \<Rightarrow> 'e \<Rightarrow> 's \<Rightarrow> bool" and inv :: "'s \<Rightarrow> bool" +
  fixes bad :: "'s \<Rightarrow> 'e \<Rightarrow> bool"
  assumes inv_safe: "inv s \<Longrightarrow> \<not> bad s e"
begin

lemma reachable_safe: "reachable init step s \<Longrightarrow> \<not> bad s e"
  using inv_safe reachable_inv by blast

end

text \<open>Output that is only ever appended to: traces, bytes on the wire.\<close>

locale growing_output =
  fixes step :: "'s \<Rightarrow> 'e \<Rightarrow> 's \<Rightarrow> bool" and out :: "'s \<Rightarrow> 'o list"
  assumes step_grows: "step s e t \<Longrightarrow> prefix (out s) (out t)"
begin

lemma run_grows: "run step s es t \<Longrightarrow> prefix (out s) (out t)"
  by (induction es arbitrary: s) (auto dest!: step_grows intro: prefix_order.trans)

end

text \<open>
  Refinement by an abstraction function: as long as the invariant holds, every step of the detailed
  machine is a step of the abstract one, or does not show there. Then what is reachable, and every
  run, is so for the abstract machine.
\<close>

locale simulation = invariant_system init step inv
  for init :: "'s \<Rightarrow> bool" and step :: "'s \<Rightarrow> 'e \<Rightarrow> 's \<Rightarrow> bool" and inv :: "'s \<Rightarrow> bool" +
  fixes spec_init :: "'p \<Rightarrow> bool" and spec_step :: "'p \<Rightarrow> 'f \<Rightarrow> 'p \<Rightarrow> bool" and absf :: "'s \<Rightarrow> 'p"
  assumes abs_of_init: "init s \<Longrightarrow> spec_init (absf s)"
    and abs_of_step: "inv s \<Longrightarrow> step s e t \<Longrightarrow> absf t = absf s \<or> (\<exists>f. spec_step (absf s) f (absf t))"
begin

lemma reachable_abs: "reachable init step s \<Longrightarrow> reachable spec_init spec_step (absf s)"
proof (induction rule: reachable.induct)
  case (reachable_init s)
  then show ?case by (intro reachable.reachable_init abs_of_init)
next
  case (reachable_step s e t)
  from abs_of_step [OF reachable_inv [OF reachable_step(1)] reachable_step(2)] reachable_step(3)
  show ?case by (auto intro: reachable.reachable_step)
qed

lemma run_abs: "inv s \<Longrightarrow> run step s es t \<Longrightarrow> \<exists>fs. run spec_step (absf s) fs (absf t)"
proof (induction es arbitrary: s)
  case Nil
  then have "run spec_step (absf s) [] (absf t)" by simp
  then show ?case ..
next
  case (Cons e es)
  then obtain v where v: "step s e v" "run step v es t" by auto
  with Cons obtain fs where fs: "run spec_step (absf v) fs (absf t)" using inv_step by blast
  from abs_of_step [OF Cons.prems(1) v(1)] show ?case
  proof (elim disjE exE)
    fix f
    assume "spec_step (absf s) f (absf v)"
    with fs have "run spec_step (absf s) (f # fs) (absf t)" by auto
    then show ?thesis ..
  qed (use fs in auto)
qed

end

text \<open>
  A component inside a larger machine: every step of the larger machine leaves the component as it
  is or is a step of the component's own machine, as long as the component's invariant holds.
  Then what is reachable in the larger machine is reachable for the component.
\<close>

locale component_of =
  fixes init :: "'s \<Rightarrow> bool" and step :: "'s \<Rightarrow> 'e \<Rightarrow> 's \<Rightarrow> bool"
    and part_init :: "'p \<Rightarrow> bool" and part_step :: "'p \<Rightarrow> 'f \<Rightarrow> 'p \<Rightarrow> bool" and part_inv :: "'p \<Rightarrow> bool"
    and part :: "'s \<Rightarrow> 'p"
  assumes part_of_init: "init s \<Longrightarrow> part_init (part s)"
    and part_reachable_inv: "reachable part_init part_step p \<Longrightarrow> part_inv p"
    and part_of_step: "step s e t \<Longrightarrow> part_inv (part s) \<Longrightarrow>
          part t = part s \<or> (\<exists>f. part_step (part s) f (part t))"
begin

lemma part_reachable_step:
  assumes "reachable part_init part_step (part s)" and "step s e t"
  shows "part t = part s \<or> (\<exists>f. part_step (part s) f (part t))"
  using part_of_step [OF assms(2) part_reachable_inv [OF assms(1)]] .

end

sublocale component_of \<subseteq> seen: simulation init step "\<lambda>s. reachable part_init part_step (part s)" part_init part_step part
proof
  show "reachable part_init part_step (part s)" if "init s" for s
    using that by (intro reachable.reachable_init part_of_init)
  show "reachable part_init part_step (part t)" if "reachable part_init part_step (part s)" "step s e t" for s e t
    using part_reachable_step [OF that] that(1) by (auto intro: reachable.reachable_step)
qed (fact part_of_init part_reachable_step)+

context component_of
begin

lemma reachable_part: "reachable init step s \<Longrightarrow> reachable part_init part_step (part s)"
  by (rule seen.reachable_inv)

lemma part_inv: "reachable init step s \<Longrightarrow> part_inv (part s)"
  by (rule part_reachable_inv [OF reachable_part])

end

subsection \<open>Lists\<close>

lemma take_drop_split: "i < length xs \<Longrightarrow> xs = take i xs @ xs ! i # drop (Suc i) xs"
  by (rule id_take_nth_drop)

lemma length_take_drop_Suc [simp]:
  "i < length xs \<Longrightarrow> length (take i xs @ drop (Suc i) xs) = length xs - 1"
  by simp

lemma short_list_cases: "length xs \<le> 1 \<Longrightarrow> xs = [] \<or> (\<exists>x. xs = [x])"
  by (cases xs) auto

end
