(* ===== verification/Asio.thy ===== *)
theory Asio
  imports NS_Prelude
begin

section \<open>Asynchronous operations of the io context\<close>

text \<open>
  The library starts asynchronous operations of Boost.Asio and Boost.Beast (timer waits,
  resolving, connecting, accepting, reading, writing, handshakes) and gives each a completion
  handler. Boost is not part of the repository, so the environment of the components is
  stated here from the documented contract of asynchronous operations and nothing more:

  \<^item> an operation is \<open>Running\<close> until it completes; then its handler is queued with the
    error code of the completion (\<open>Ready\<close>), and the io context calls the handler at some later
    point, once;
  \<^item> cancelling completes the operations that are still running with
    \<open>operation_aborted\<close>; an operation whose handler is already queued keeps its result
    (the documentation of \<open>basic_waitable_timer::cancel\<close> says so for timers);
  \<^item> nothing is said of the order in which operations complete or handlers run: a step
    relation picks any of them.

  An operation carries a key: the data its completion handler captured.
\<close>

datatype op_status = Running | Ready error_code

type_synonym 'k ops = "('k \<times> op_status) list"

definition start_op :: "'k \<Rightarrow> 'k ops \<Rightarrow> 'k ops" where
  "start_op k ops = ops @ [(k, Running)]"

definition cancel_ops :: "('k \<Rightarrow> bool) \<Rightarrow> 'k ops \<Rightarrow> 'k ops" where
  "cancel_ops P ops =
     map (\<lambda>(k, st). (k, if P k \<and> st = Running then Ready OperationAborted else st)) ops"

text \<open>The environment completes the \<open>i\<close>-th operation.\<close>

definition finish_op :: "nat \<Rightarrow> error_code \<Rightarrow> 'k ops \<Rightarrow> 'k ops option" where
  "finish_op i ec ops =
     (if i < length ops \<and> snd (ops ! i) = Running
      then Some (ops[i := (fst (ops ! i), Ready ec)]) else None)"

text \<open>The io context takes the queued handler of the \<open>i\<close>-th operation to run it.\<close>

definition take_op :: "nat \<Rightarrow> 'k ops \<Rightarrow> (('k \<times> error_code) \<times> 'k ops) option" where
  "take_op i ops =
     (if i < length ops
      then (case ops ! i of
              (k, Ready ec) \<Rightarrow> Some ((k, ec), take i ops @ drop (Suc i) ops)
            | (k, Running) \<Rightarrow> None)
      else None)"

definition running :: "'k ops \<Rightarrow> 'k list" where
  "running ops = map fst (filter (\<lambda>(k, st). st = Running) ops)"

abbreviation op_keys :: "'k ops \<Rightarrow> 'k list" where
  "op_keys ops \<equiv> map fst ops"

lemma start_op_keys [simp]: "op_keys (start_op k ops) = op_keys ops @ [k]"
  by (simp add: start_op_def)

lemma length_start_op [simp]: "length (start_op k ops) = Suc (length ops)"
  by (simp add: start_op_def)

lemma start_op_not_Nil [simp]: "start_op k ops \<noteq> []"
  by (simp add: start_op_def)

lemma cancel_ops_keys [simp]: "op_keys (cancel_ops P ops) = op_keys ops"
  by (induction ops) (auto simp: cancel_ops_def)

lemma length_cancel_ops [simp]: "length (cancel_ops P ops) = length ops"
  by (simp add: cancel_ops_def)

lemma cancel_ops_Nil [simp]: "cancel_ops P [] = []"
  by (simp add: cancel_ops_def)

lemma cancel_ops_eq_Nil [simp]: "cancel_ops P ops = [] \<longleftrightarrow> ops = []"
  by (simp add: cancel_ops_def)

lemma running_cancel_ops [simp]: "running (cancel_ops P ops) = filter (\<lambda>k. \<not> P k) (running ops)"
  by (induction ops) (auto simp: cancel_ops_def running_def split: if_splits)

lemma running_start_op [simp]: "running (start_op k ops) = running ops @ [k]"
  by (simp add: running_def start_op_def)

lemma running_Nil [simp]: "running [] = []"
  by (simp add: running_def)

lemma cancel_ops_idem [simp]: "cancel_ops P (cancel_ops P ops) = cancel_ops P ops"
  by (auto simp: cancel_ops_def)

lemma cancel_keeps_ready: "(k, Ready ec) \<in> set ops \<Longrightarrow> (k, Ready ec) \<in> set (cancel_ops P ops)"
  by (force simp: cancel_ops_def)

lemma finish_op_keys: "finish_op i ec ops = Some ops' \<Longrightarrow> op_keys ops' = op_keys ops"
  by (auto simp: finish_op_def map_update split: if_splits)
     (metis list_update_id map_update nth_map)

lemma finish_op_length: "finish_op i ec ops = Some ops' \<Longrightarrow> length ops' = length ops"
  by (auto simp: finish_op_def split: if_splits)

lemma finish_op_split:
  assumes "finish_op i ec ops = Some ops'"
  shows "\<exists>a k b. ops = a @ (k, Running) # b \<and> ops' = a @ (k, Ready ec) # b"
proof -
  from assms have i: "i < length ops" and at: "ops ! i = (fst (ops ! i), Running)"
    and ops': "ops' = ops[i := (fst (ops ! i), Ready ec)]"
    by (auto simp: finish_op_def prod_eq_iff split: if_splits)
  have "ops = take i ops @ (fst (ops ! i), Running) # drop (Suc i) ops"
    using take_drop_split [OF i] at by simp
  moreover have "ops' = take i ops @ (fst (ops ! i), Ready ec) # drop (Suc i) ops"
    using ops' i by (simp add: upd_conv_take_nth_drop)
  ultimately show ?thesis by blast
qed

lemma take_op_split:
  assumes "take_op i ops = Some ((k, ec), ops')"
  shows "\<exists>a b. ops = a @ (k, Ready ec) # b \<and> ops' = a @ b"
proof -
  from assms have i: "i < length ops" and at: "ops ! i = (k, Ready ec)"
    and ops': "ops' = take i ops @ drop (Suc i) ops"
    by (auto simp: take_op_def split: if_splits prod.splits op_status.splits)
  from take_drop_split [OF i] at have "ops = take i ops @ (k, Ready ec) # drop (Suc i) ops"
    by simp
  with ops' show ?thesis by blast
qed

lemma take_op_length: "take_op i ops = Some (r, ops') \<Longrightarrow> length ops = Suc (length ops')"
  by (cases r) (auto dest: take_op_split)

lemma take_op_keys_subset: "take_op i ops = Some (r, ops') \<Longrightarrow> set (op_keys ops') \<subseteq> set (op_keys ops)"
  by (cases r) (auto dest!: take_op_split)

lemma take_op_key_in: "take_op i ops = Some ((k, ec), ops') \<Longrightarrow> k \<in> set (op_keys ops)"
  by (auto dest!: take_op_split)

lemma take_op_subset: "take_op i ops = Some (r, ops') \<Longrightarrow> set ops' \<subseteq> set ops"
  by (cases r) (auto dest!: take_op_split)

lemma take_op_in: "take_op i ops = Some ((k, ec), ops') \<Longrightarrow> (k, Ready ec) \<in> set ops"
  by (auto dest!: take_op_split)

lemma take_op_running: "take_op i ops = Some (r, ops') \<Longrightarrow> running ops' = running ops"
  by (cases r) (auto dest!: take_op_split simp: running_def)

lemma running_subset: "set (running ops) \<subseteq> set (op_keys ops)"
  by (auto simp: running_def)

lemma finish_op_running_subset:
  "finish_op i ec ops = Some ops' \<Longrightarrow> set (running ops') \<subseteq> set (running ops)"
proof -
  assume *: "finish_op i ec ops = Some ops'"
  show ?thesis
  proof
    fix k assume "k \<in> set (running ops')"
    then have "(k, Running) \<in> set ops'" by (auto simp: running_def)
    with * have "(k, Running) \<in> set ops"
      by (auto simp: finish_op_def dest!: set_update_subset_insert [THEN subsetD] split: if_splits)
    then show "k \<in> set (running ops)" by (force simp: running_def)
  qed
qed

lemma finish_single [simp]:
  "finish_op 0 ec [(k, Running)] = Some [(k, Ready ec)]"
  by (simp add: finish_op_def)

lemma take_single [simp]: "take_op 0 [(k, Ready ec)] = Some ((k, ec), [])"
  by (simp add: take_op_def)

text \<open>With at most one operation outstanding, which one completes is not in doubt.\<close>

lemma take_op_only:
  "length ops \<le> 1 \<Longrightarrow> take_op i ops = Some ((k, ec), ops') \<Longrightarrow> ops = [(k, Ready ec)] \<and> ops' = []"
  by (auto dest!: take_op_split simp: append_eq_Cons_conv)

lemma finish_op_only:
  "length ops \<le> 1 \<Longrightarrow> finish_op i ec ops = Some ops' \<Longrightarrow>
   \<exists>k. ops = [(k, Running)] \<and> ops' = [(k, Ready ec)] \<and> i = 0"
  by (cases ops) (auto simp: finish_op_def split: if_splits)

end
