(* ===== verification/Compatibility.thy ===== *)
theory Compatibility
  imports Asio
begin

section \<open>Compatibility utilities that the library does not use\<close>

text \<open>
  \<open>src/src/utils/boost_compatibility_utils.cpp\<close> wraps four calls of Beast. The two that the library
  calls are where they are used: \<open>async_handshake\<close> in \<open>Client\<close>, \<open>async_accept\<close> in \<open>Server\<close>. The
  other two, below, start an operation too, with the handler they are given; nothing in the library
  calls them. \<open>wrapped_once\<close>: a handler given to one of them is called once, with the result.
\<close>

text \<open>Accepting a websocket without a request that was read before.\<close>

definition async_accept_stream :: "'s \<Rightarrow> 'h \<Rightarrow> ('s \<times> 'h) ops \<Rightarrow> ('s \<times> 'h) ops" where
  "async_accept_stream websocket handler ops = start_op (websocket, handler) ops"

text \<open>Writing a request to a TCP stream.\<close>

definition async_write :: "'s \<Rightarrow> 'f \<Rightarrow> 'h \<Rightarrow> ('s \<times> 'f \<times> 'h) ops \<Rightarrow> ('s \<times> 'f \<times> 'h) ops" where
  "async_write stream request callback ops = start_op (stream, request, callback) ops"

lemma start_finish_take:
  "Option.bind (finish_op (length ops) ec (start_op k ops)) (take_op (length ops)) = Some ((k, ec), ops)"
  by (simp add: start_op_def finish_op_def take_op_def)

lemma wrapped_once:
  "Option.bind (finish_op (length ops) ec (async_accept_stream websocket handler ops)) (take_op (length ops)) =
     Some (((websocket, handler), ec), ops)"
  "Option.bind (finish_op (length ops') ec (async_write stream request callback ops')) (take_op (length ops')) =
     Some (((stream, request, callback), ec), ops')"
  by (simp_all add: async_accept_stream_def async_write_def start_finish_take)

end
