(* ===== verification/Async_Reader.thy ===== *)
theory Async_Reader
  imports Asio
begin

section \<open>AsyncReader\<close>

text \<open>
  \<open>src/async_reader.cpp\<close>. The reader owns a stream buffer, the pending read task and the read
  sequence: it reads at least as many bytes as the task asks for, calls the task's handler on
  them, consumes them and goes on with the task the handler returns, until a task without a
  handler ends the sequence.

  Handlers are closures of the user. A handler is a name \<open>'h\<close>; \<open>H h data n u\<close> is what the call
  of \<open>h\<close> on the pointer \<open>data\<close> and size \<open>n\<close> returns, \<open>u\<close> being the variables the handlers capture.
  The pointer is \<open>Some b\<close> when it points to the bytes \<open>b\<close> and \<open>None\<close> when it is null. How the
  stream buffer presents its bytes as a sequence of buffers is the parameter \<open>bufs\<close>.

  When enough bytes are buffered, \<open>read\<close> calls back at once, so \<open>readDone\<close>, \<open>doRead\<close> and \<open>read\<close>
  call each other on one stack: \<open>readDone\<close> is a partial function, \<open>None\<close> when it never
  returns. Assertions are compiled away with \<open>NDEBUG\<close>; \<open>ReadTask_asserts\<close> states them.
\<close>

subsection \<open>Read tasks and the state of the reader\<close>

record 'h read_task =
  rt_handler :: "'h option"
  rt_size :: nat

definition ReadTask_default :: "'h read_task" where
  "ReadTask_default = \<lparr>rt_handler = None, rt_size = 0\<rparr>"

definition ReadTask :: "'h option \<Rightarrow> nat \<Rightarrow> 'h read_task" where
  "ReadTask handler bytesToRead = \<lparr>rt_handler = handler, rt_size = bytesToRead\<rparr>"

definition ReadTask_asserts :: "'h read_task \<Rightarrow> bool" where
  "ReadTask_asserts t = (rt_handler t \<noteq> None \<and> rt_size t \<noteq> 0)"

type_synonym ('h, 'u) handlers = "'h \<Rightarrow> byte list option \<Rightarrow> nat \<Rightarrow> 'u \<Rightarrow> 'h read_task \<times> 'u"

datatype ('h, 'c) read_effect =
    ReadAlive 'c
  | ReadHandled 'h "byte list"
  | ReadFailed 'c error_code
  | ReadFailLogged error_code

text \<open>
  The members of the class, then what the members \<open>ioContextRef\<close>, \<open>strand\<close> and \<open>wsStream\<close> hold for
  it: the number of posted closures that have not run, and the outstanding \<open>async_read\<close>
  operations, each with the least number of bytes it has to transfer. Last, the calls made.
\<close>

record ('h, 'c, 'u) reader =
  rd_buffer :: "byte list"
  rd_pendingTask :: "'h read_task"
  rd_errorHandler :: "'c callback"
  rd_aliveCallback :: "'c callback"
  rd_user :: 'u
  rd_posted :: nat
  rd_reads :: "nat ops"
  rd_trace :: "('h, 'c) read_effect list"

definition new_AsyncReader :: "'u \<Rightarrow> ('h, 'c, 'u) reader" where
  "new_AsyncReader u =
     \<lparr>rd_buffer = [], rd_pendingTask = ReadTask_default, rd_errorHandler = NullFn,
      rd_aliveCallback = NoOpFn, rd_user = u, rd_posted = 0, rd_reads = [], rd_trace = []\<rparr>"

definition read_emit :: "('h, 'c) read_effect \<Rightarrow> ('h, 'c, 'u) reader \<Rightarrow> ('h, 'c, 'u) reader" where
  "read_emit e r = r\<lparr>rd_trace := rd_trace r @ [e]\<rparr>"

subsection \<open>Operations\<close>

definition bufferSize :: "('h, 'c, 'u) reader \<Rightarrow> nat" where
  "bufferSize r = length (rd_buffer r)"

definition data :: "(byte list \<Rightarrow> byte list list) \<Rightarrow> ('h, 'c, 'u) reader \<Rightarrow> byte list option" where
  "data bufs r = (case bufs (rd_buffer r) of [] \<Rightarrow> None | b # _ \<Rightarrow> Some b)"

definition consume :: "nat \<Rightarrow> ('h, 'c, 'u) reader \<Rightarrow> ('h, 'c, 'u) reader" where
  "consume n r = r\<lparr>rd_buffer := drop n (rd_buffer r)\<rparr>"

definition read ::
  "nat \<Rightarrow> (error_code \<Rightarrow> nat \<Rightarrow> ('h, 'c, 'u) reader \<Rightarrow> ('h, 'c, 'u) reader outcome option) \<Rightarrow>
   ('h, 'c, 'u) reader \<Rightarrow> ('h, 'c, 'u) reader outcome option" where
  "read bytesToRead onReadCallback r =
     (let bytesReady = bufferSize r
      in if bytesToRead \<le> bytesReady then onReadCallback NoError bytesToRead r
         else Some (Done (r\<lparr>rd_reads := start_op (bytesToRead - bytesReady) (rd_reads r)\<rparr>)))"

definition setErrorHandler_r :: "'c callback \<Rightarrow> ('h, 'c, 'u) reader \<Rightarrow> ('h, 'c, 'u) reader" where
  "setErrorHandler_r cb r = r\<lparr>rd_errorHandler := cb\<rparr>"

definition setConnectionAliveHandler_r :: "'c callback \<Rightarrow> ('h, 'c, 'u) reader \<Rightarrow> ('h, 'c, 'u) reader" where
  "setConnectionAliveHandler_r cb r = r\<lparr>rd_aliveCallback := cb\<rparr>"

text \<open>The success branch of \<open>readDone\<close> up to the choice of what to do next.\<close>

definition callReadHandler ::
  "('h, 'u) handlers \<Rightarrow> (byte list \<Rightarrow> byte list list) \<Rightarrow> ('h, 'c, 'u) reader \<Rightarrow> ('h, 'c, 'u) reader outcome" where
  "callReadHandler H bufs r =
     and_then (invoke (rd_aliveCallback r) (\<lambda>c. read_emit (ReadAlive c)) r)
       (\<lambda>r. let readHandler = rt_handler (rd_pendingTask r); readSize = rt_size (rd_pendingTask r)
            in case readHandler of
                 None \<Rightarrow> Thrown BadFunctionCall r
               | Some h \<Rightarrow>
                   let (nextTask, u) = H h (data bufs r) readSize (rd_user r);
                       r' = read_emit (ReadHandled h (take readSize (rd_buffer r))) r
                   in Done (consume readSize (r'\<lparr>rd_pendingTask := nextTask, rd_user := u\<rparr>)))"

lemma read_mono [partial_function_mono]:
  assumes "\<And>ec n r. mono_option (\<lambda>f. F f ec n r)"
  shows "mono_option (\<lambda>f. read k (F f) r)"
  using assms [of NoError k r] by (cases "k \<le> bufferSize r") (simp_all add: read_def option.const_mono)

partial_function (option) readDone ::
  "('h, 'u) handlers \<Rightarrow> (byte list \<Rightarrow> byte list list) \<Rightarrow> error_code \<Rightarrow> ('h, 'c, 'u) reader \<Rightarrow>
   ('h, 'c, 'u) reader outcome option" where
  "readDone H bufs ec r =
     (if \<not> failed ec
      then continue (callReadHandler H bufs r)
             (\<lambda>r. if rt_handler (rd_pendingTask r) \<noteq> None
                  then read (rt_size (rd_pendingTask r)) (\<lambda>ec size r. readDone H bufs ec r) r
                  else Some (Done r))
      else if rd_errorHandler r \<noteq> NullFn
           then Some (invoke (rd_errorHandler r) (\<lambda>c. read_emit (ReadFailed c ec)) r)
           else Some (Done (read_emit (ReadFailLogged ec) r)))"

definition doRead ::
  "('h, 'u) handlers \<Rightarrow> (byte list \<Rightarrow> byte list list) \<Rightarrow> nat \<Rightarrow> ('h, 'c, 'u) reader \<Rightarrow>
   ('h, 'c, 'u) reader outcome option" where
  "doRead H bufs bytesToRead r = read bytesToRead (\<lambda>ec size r. readDone H bufs ec r) r"

text \<open>\<open>scheduleRead\<close> stores the task at once and posts the closure; the closure reads the
  pending task when it runs.\<close>

definition scheduleRead :: "'h read_task \<Rightarrow> ('h, 'c, 'u) reader \<Rightarrow> ('h, 'c, 'u) reader" where
  "scheduleRead entryTask r = r\<lparr>rd_pendingTask := entryTask, rd_posted := Suc (rd_posted r)\<rparr>"

definition runPostedRead ::
  "('h, 'u) handlers \<Rightarrow> (byte list \<Rightarrow> byte list list) \<Rightarrow> ('h, 'c, 'u) reader \<Rightarrow>
   ('h, 'c, 'u) reader outcome option" where
  "runPostedRead H bufs r =
     (let r' = r\<lparr>rd_posted := rd_posted r - 1\<rparr> in doRead H bufs (rt_size (rd_pendingTask r')) r')"

subsection \<open>Reference: reading off the whole stream\<close>

text \<open>
  What a read sequence means, without buffers and partial reads: each task takes exactly the bytes
  it asks for off the front of the stream; the sequence stops at a task without a handler or at
  one that asks for more than there is. The last component lists the handler calls.
\<close>

partial_function (option) read_stream ::
  "('h, 'u) handlers \<Rightarrow> 'h read_task \<Rightarrow> 'u \<Rightarrow> byte list \<Rightarrow> ('h \<times> byte list) list \<Rightarrow>
   ('h read_task \<times> 'u \<times> byte list \<times> ('h \<times> byte list) list) option" where
  "read_stream H t u b calls =
     (case rt_handler t of
        None \<Rightarrow> Some (t, u, b, calls)
      | Some h \<Rightarrow>
          if rt_size t \<le> length b
          then read_stream H (fst (H h (Some (take (rt_size t) b)) (rt_size t) u))
                 (snd (H h (Some (take (rt_size t) b)) (rt_size t) u))
                 (drop (rt_size t) b) (calls @ [(h, take (rt_size t) b)])
          else Some (t, u, b, calls))"

lemma read_stream_stop:
  "rt_handler t = None \<or> length b < rt_size t \<Longrightarrow> read_stream H t u b calls = Some (t, u, b, calls)"
  by (subst read_stream.simps) (auto split: option.splits)

lemma read_stream_go:
  "rt_handler t = Some h \<Longrightarrow> rt_size t \<le> length b \<Longrightarrow>
   H h (Some (take (rt_size t) b)) (rt_size t) u = (t', u') \<Longrightarrow>
   read_stream H t u b calls =
     read_stream H t' u' (drop (rt_size t) b) (calls @ [(h, take (rt_size t) b)])"
  by (subst read_stream.simps) simp

text \<open>More input later continues where the sequence stopped.\<close>

lemma read_stream_more:
  assumes "read_stream H t u b calls = Some (t', u', b', calls')"
  shows "read_stream H t u (b @ x) calls = read_stream H t' u' (b' @ x) calls'"
proof -
  have "case q of (t', u', b', calls') \<Rightarrow>
          read_stream H t u (b @ x) calls = read_stream H t' u' (b' @ x) calls'"
    if "read_stream H t u b calls = Some q" for t u b calls q
  proof (rule read_stream.raw_induct [where P = "\<lambda>H t u b calls q. case q of (t', u', b', calls') \<Rightarrow>
          read_stream H t u (b @ x) calls = read_stream H t' u' (b' @ x) calls'", OF _ that])
    fix f H t u b calls q
    assume IH: "\<And>H t u b calls q. f H t u b calls = Some q \<Longrightarrow>
        case q of (t', u', b', calls') \<Rightarrow>
          read_stream H t u (b @ x) calls = read_stream H t' u' (b' @ x) calls'"
      and eq: "(case rt_handler t of None \<Rightarrow> Some (t, u, b, calls)
        | Some h \<Rightarrow> if rt_size t \<le> length b
            then f H (fst (H h (Some (take (rt_size t) b)) (rt_size t) u))
                   (snd (H h (Some (take (rt_size t) b)) (rt_size t) u))
                   (drop (rt_size t) b) (calls @ [(h, take (rt_size t) b)])
            else Some (t, u, b, calls)) = Some q"
    show "case q of (t', u', b', calls') \<Rightarrow>
        read_stream H t u (b @ x) calls = read_stream H t' u' (b' @ x) calls'"
    proof (cases "\<exists>h. rt_handler t = Some h \<and> rt_size t \<le> length b")
      case True
      with eq IH show ?thesis
        by (subst read_stream.simps) (fastforce split: option.splits)
    next
      case False
      with eq show ?thesis by (auto split: option.splits)
    qed
  qed
  from this [OF assms] show ?thesis by simp
qed

text \<open>What is left over are the last bytes of the input.\<close>

lemma read_stream_suffix:
  assumes "read_stream H t u b calls = Some q"
  shows "suffix (fst (snd (snd q))) b"
proof (rule read_stream.raw_induct [where P = "\<lambda>H t u b calls q. suffix (fst (snd (snd q))) b", OF _ assms])
  fix f H t u b calls q
  assume IH: "\<And>H t u b calls q. f H t u b calls = Some q \<Longrightarrow> suffix (fst (snd (snd q))) b"
    and eq: "(case rt_handler t of None \<Rightarrow> Some (t, u, b, calls)
      | Some h \<Rightarrow> if rt_size t \<le> length b
          then f H (fst (H h (Some (take (rt_size t) b)) (rt_size t) u))
                 (snd (H h (Some (take (rt_size t) b)) (rt_size t) u))
                 (drop (rt_size t) b) (calls @ [(h, take (rt_size t) b)])
          else Some (t, u, b, calls)) = Some q"
  show "suffix (fst (snd (snd q))) b"
  proof (cases "\<exists>h. rt_handler t = Some h \<and> rt_size t \<le> length b")
    case True
    then obtain h where h: "rt_handler t = Some h" "rt_size t \<le> length b" by blast
    with eq have "f H (fst (H h (Some (take (rt_size t) b)) (rt_size t) u))
        (snd (H h (Some (take (rt_size t) b)) (rt_size t) u))
        (drop (rt_size t) b) (calls @ [(h, take (rt_size t) b)]) = Some q" by simp
    then have "suffix (fst (snd (snd q))) (drop (rt_size t) b)" by (rule IH)
    then show ?thesis using suffix_drop by (rule suffix_order.trans)
  next
    case False
    with eq show ?thesis by (auto split: option.splits)
  qed
qed

subsection \<open>Frames\<close>

fun handled_call :: "('h, 'c) read_effect \<Rightarrow> ('h \<times> byte list) list" where
  "handled_call (ReadHandled h b) = [(h, b)]"
| "handled_call _ = []"

text \<open>The handler calls made so far, with the bytes each was given.\<close>

definition handled :: "('h, 'c, 'u) reader \<Rightarrow> ('h \<times> byte list) list" where
  "handled r = concat (map handled_call (rd_trace r))"

text \<open>What reading never changes.\<close>

definition same_setup :: "('h, 'c, 'u) reader \<Rightarrow> ('h, 'c, 'u) reader \<Rightarrow> bool" where
  "same_setup r r' \<longleftrightarrow> rd_posted r' = rd_posted r \<and> rd_errorHandler r' = rd_errorHandler r \<and>
     rd_aliveCallback r' = rd_aliveCallback r"

lemma same_setup_refl [simp]: "same_setup r r"
  by (simp add: same_setup_def)

lemma same_setup_trans: "same_setup r s \<Longrightarrow> same_setup s t \<Longrightarrow> same_setup r t"
  by (simp add: same_setup_def)

lemma callReadHandler_no_handler:
  "rd_aliveCallback r \<noteq> NullFn \<Longrightarrow> rt_handler (rd_pendingTask r) = None \<Longrightarrow>
   \<exists>r'. callReadHandler H bufs r = Thrown BadFunctionCall r'"
  by (cases "rd_aliveCallback r") (auto simp: callReadHandler_def read_emit_def)

subsection \<open>The contract of read handlers\<close>

text \<open>
  What the reader relies on: a handler looks at no more than the bytes it is told of; the
  sequence does not ask for zero bytes for ever (\<open>rank\<close> decreases when a task asks for none; the
  constructor of \<open>ReadTask\<close> asserts that no task does); and the stream buffer keeps its bytes in
  one piece, so that the pointer of \<open>data\<close> sees all of them.
\<close>

locale read_handlers =
  fixes H :: "('h, 'u) handlers"
    and rank :: "'h \<Rightarrow> nat"
    and bufs :: "byte list \<Rightarrow> byte list list"
  assumes reads_only: "n \<le> length b \<Longrightarrow> H h (Some b) n u = H h (Some (take n b)) n u"
    and progress: "rt_handler (fst (H h d n u)) = Some h' \<Longrightarrow> rt_size (fst (H h d n u)) = 0 \<Longrightarrow>
          rank h' < rank h"
    and contiguous: "bufs b = [b]"
begin

definition todo :: "'h read_task \<Rightarrow> nat" where
  "todo t = (if rt_size t = 0 then (case rt_handler t of None \<Rightarrow> 0 | Some h \<Rightarrow> Suc (rank h)) else 0)"

lemma todo_decreases:
  assumes "rt_handler t = Some h" and "rt_size t \<le> length b"
    and "H h d (rt_size t) u = (t', u')"
  shows "((t', drop (rt_size t) b), (t, b)) \<in> measures [\<lambda>(t, b). length b, \<lambda>(t, b). todo t]"
  using assms progress [of h d "rt_size t" u]
  by (auto simp: todo_def split: option.splits)

lemma read_stream_total: "\<exists>q. read_stream H t u b calls = Some q"
proof (induction "(t, b)" arbitrary: t u b calls
    rule: wf_induct_rule [OF wf_measures, of "[\<lambda>(t, b). length b, \<lambda>(t, b). todo t]"])
  case (1 t b)
  show ?case
  proof (cases "\<exists>h. rt_handler t = Some h \<and> rt_size t \<le> length b")
    case True
    then obtain h where h: "rt_handler t = Some h" "rt_size t \<le> length b" by blast
    obtain t' u' where nx: "H h (Some (take (rt_size t) b)) (rt_size t) u = (t', u')"
      by (cases "H h (Some (take (rt_size t) b)) (rt_size t) u")
    show ?thesis
      using 1 [OF todo_decreases [OF h nx]] by (simp add: read_stream_go [of t h b H u t' u', OF h nx])
  next
    case False
    then have "rt_handler t = None \<or> length b < rt_size t" by (cases "rt_handler t") auto
    then show ?thesis by (simp add: read_stream_stop)
  qed
qed

lemma callReadHandler_Done:
  assumes "rd_aliveCallback r \<noteq> NullFn" and h: "rt_handler (rd_pendingTask r) = Some h"
    and n: "rt_size (rd_pendingTask r) \<le> length (rd_buffer r)"
    and call: "H h (Some (take (rt_size (rd_pendingTask r)) (rd_buffer r)))
                 (rt_size (rd_pendingTask r)) (rd_user r) = (t', u')"
  obtains r' where "callReadHandler H bufs r = Done r'" and "same_setup r r'"
    and "rd_reads r' = rd_reads r" and "rd_pendingTask r' = t'" and "rd_user r' = u'"
    and "rd_buffer r' = drop (rt_size (rd_pendingTask r)) (rd_buffer r)"
    and "handled r' = handled r @ [(h, take (rt_size (rd_pendingTask r)) (rd_buffer r))]"
proof -
  have call': "H h (Some (rd_buffer r)) (rt_size (rd_pendingTask r)) (rd_user r) = (t', u')"
    using call reads_only [OF n] by simp
  show ?thesis
    using assms(1) h call' that
    by (cases "rd_aliveCallback r")
       (auto simp: callReadHandler_def read_emit_def data_def contiguous consume_def Let_def
          same_setup_def handled_def)
qed

text \<open>A read of the pending task on the buffered bytes does what the reference does on them, and
  asks for exactly the bytes that are missing.\<close>

lemma doRead_spec:
  assumes "rd_aliveCallback r \<noteq> NullFn" and "rt_handler (rd_pendingTask r) \<noteq> None"
  shows "\<exists>r'. doRead H bufs (rt_size (rd_pendingTask r)) r = Some (Done r') \<and> same_setup r r' \<and>
           read_stream H (rd_pendingTask r) (rd_user r) (rd_buffer r) (handled r)
             = Some (rd_pendingTask r', rd_user r', rd_buffer r', handled r') \<and>
           (if rt_handler (rd_pendingTask r') = None then rd_reads r' = rd_reads r
            else length (rd_buffer r') < rt_size (rd_pendingTask r') \<and>
                 rd_reads r' = start_op (rt_size (rd_pendingTask r') - length (rd_buffer r')) (rd_reads r))"
  using assms
proof (induction "(rd_pendingTask r, rd_buffer r)" arbitrary: r
    rule: wf_induct_rule [OF wf_measures, of "[\<lambda>(t, b). length b, \<lambda>(t, b). todo t]"])
  case (1 r)
  let ?t = "rd_pendingTask r" and ?b = "rd_buffer r"
  from 1(3) obtain h where h: "rt_handler ?t = Some h" by blast
  show ?case
  proof (cases "rt_size ?t \<le> length ?b")
    case False
    then show ?thesis
      using h by (auto simp: doRead_def read_def bufferSize_def read_stream_stop handled_def same_setup_def)
  next
    case True
    obtain t' u' where call: "H h (Some (take (rt_size ?t) ?b)) (rt_size ?t) (rd_user r) = (t', u')"
      by (cases "H h (Some (take (rt_size ?t) ?b)) (rt_size ?t) (rd_user r)")
    from 1(2) h True call obtain r1 where r1: "callReadHandler H bufs r = Done r1" "same_setup r r1"
      "rd_reads r1 = rd_reads r" "rd_pendingTask r1 = t'" "rd_user r1 = u'"
      "rd_buffer r1 = drop (rt_size ?t) ?b" "handled r1 = handled r @ [(h, take (rt_size ?t) ?b)]"
      by (rule callReadHandler_Done)
    have ref: "read_stream H ?t (rd_user r) ?b (handled r)
                 = read_stream H t' u' (rd_buffer r1) (handled r1)"
      using r1 by (simp add: read_stream_go [of ?t h ?b H "rd_user r" t' u', OF h True call])
    have first: "doRead H bufs (rt_size ?t) r =
        (if rt_handler t' \<noteq> None then doRead H bufs (rt_size t') r1 else Some (Done r1))"
      using True r1 by (simp add: doRead_def read_def bufferSize_def readDone.simps [of H bufs NoError r])
    show ?thesis
    proof (cases "rt_handler t' = None")
      case True
      then show ?thesis
        using first ref r1 by (auto simp: read_stream_stop)
    next
      case False
      have "((rd_pendingTask r1, rd_buffer r1), (?t, ?b)) \<in> measures [\<lambda>(t, b). length b, \<lambda>(t, b). todo t]"
        using todo_decreases [OF h True call] r1 by simp
      moreover have "rd_aliveCallback r1 \<noteq> NullFn" and "rt_handler (rd_pendingTask r1) \<noteq> None"
        using 1(2) False r1 by (simp_all add: same_setup_def)
      ultimately obtain r' where "doRead H bufs (rt_size t') r1 = Some (Done r')" "same_setup r1 r'"
        "read_stream H t' u' (rd_buffer r1) (handled r1)
           = Some (rd_pendingTask r', rd_user r', rd_buffer r', handled r')"
        "if rt_handler (rd_pendingTask r') = None then rd_reads r' = rd_reads r1
         else length (rd_buffer r') < rt_size (rd_pendingTask r') \<and>
              rd_reads r' = start_op (rt_size (rd_pendingTask r') - length (rd_buffer r')) (rd_reads r1)"
        using 1(1) [of r1] r1 by auto
      then show ?thesis
        using first ref False r1 same_setup_trans [of r r1 r'] by auto
    qed
  qed
qed

end

end
