(* ===== verification/Async_Writer.thy ===== *)
theory Async_Writer
  imports Asio
begin

section \<open>AsyncWriter\<close>

text \<open>
  \<open>src/async_writer.cpp\<close>. The writer keeps a queue of batches of write tasks. The front batch is
  the one being written: a batch pushed on an empty queue is written at once, and when a write
  completes the handlers of its tasks are called (they release the buffers), the batch is
  popped and the next one is written. A batch may carry a deadline; when a deadline is reached
  before its batch is written the writer reports a timeout, once, and writes nothing more.

  Time points are numbers. A buffer is the list of its bytes. A \<open>steady_timer\<close> is a number; its
  outstanding wait is an operation whose key is the timer and its deadline. Destroying a timer
  cancels its wait, as \<open>cancel\<close> does.
\<close>

subsection \<open>Write tasks and the state of the writer\<close>

record 'h write_task =
  wt_buffer :: "byte list"
  wt_handler :: "'h callback"

definition WriteTask :: "byte list \<Rightarrow> 'h callback \<Rightarrow> 'h write_task" where
  "WriteTask buffer handler = \<lparr>wt_buffer = buffer, wt_handler = handler\<rparr>"

definition WriteTask_asserts :: "'h write_task \<Rightarrow> bool" where
  "WriteTask_asserts t = (wt_handler t \<noteq> NullFn \<and> wt_buffer t \<noteq> [])"

type_synonym 'h batch = "'h write_task list"

datatype ('h, 'c) write_effect =
    WriteStarted "byte list"
  | WriteHandled 'h
  | WriteAlive 'c
  | WriteTimedOut 'c
  | WriteFailed 'c error_code
  | WriteFailLogged error_code

text \<open>
  The members of the class, then what its strand, its stream and its timers hold for it: posted
  closures, outstanding \<open>async_write\<close> operations with the bytes they write, waits of deadline
  timers, and the number of timers made. Last, the calls made.
\<close>

record ('h, 'c) writer =
  wr_timeoutReached :: bool
  wr_tasksQueue :: "('h batch \<times> nat option) list"
  wr_errorHandler :: "'c callback"
  wr_timeoutHandler :: "'c callback"
  wr_aliveCallback :: "'c callback"
  wr_posted :: "('h batch \<times> nat option) list"
  wr_writes :: "byte list ops"
  wr_waits :: "(nat \<times> nat) ops"
  wr_nextTimer :: nat
  wr_trace :: "('h, 'c) write_effect list"

definition new_AsyncWriter :: "('h, 'c) writer" where
  "new_AsyncWriter =
     \<lparr>wr_timeoutReached = False, wr_tasksQueue = [], wr_errorHandler = NullFn,
      wr_timeoutHandler = NoOpFn, wr_aliveCallback = NoOpFn, wr_posted = [], wr_writes = [],
      wr_waits = [], wr_nextTimer = 0, wr_trace = []\<rparr>"

definition write_emit :: "('h, 'c) write_effect \<Rightarrow> ('h, 'c) writer \<Rightarrow> ('h, 'c) writer" where
  "write_emit e w = w\<lparr>wr_trace := wr_trace w @ [e]\<rparr>"

subsection \<open>Operations\<close>

definition scheduleWrite :: "'h batch \<Rightarrow> nat option \<Rightarrow> ('h, 'c) writer \<Rightarrow> ('h, 'c) writer" where
  "scheduleWrite tasks deadlineTime w = w\<lparr>wr_posted := wr_posted w @ [(tasks, deadlineTime)]\<rparr>"

definition setErrorHandler_w :: "'c callback \<Rightarrow> ('h, 'c) writer \<Rightarrow> ('h, 'c) writer" where
  "setErrorHandler_w cb w = w\<lparr>wr_errorHandler := cb\<rparr>"

definition setConnectionAliveHandler_w :: "'c callback \<Rightarrow> ('h, 'c) writer \<Rightarrow> ('h, 'c) writer" where
  "setConnectionAliveHandler_w cb w = w\<lparr>wr_aliveCallback := cb\<rparr>"

definition setWriteTimedOutHandler_w :: "'c callback \<Rightarrow> ('h, 'c) writer \<Rightarrow> ('h, 'c) writer" where
  "setWriteTimedOutHandler_w cb w = w\<lparr>wr_timeoutHandler := cb\<rparr>"

definition onTimeoutReached :: "('h, 'c) writer \<Rightarrow> ('h, 'c) writer outcome" where
  "onTimeoutReached w =
     (if wr_timeoutReached w then Done w
      else invoke (wr_timeoutHandler w) (\<lambda>c. write_emit (WriteTimedOut c)) (w\<lparr>wr_timeoutReached := True\<rparr>))"

definition setupDeadlineTimer :: "nat \<Rightarrow> ('h, 'c) writer \<Rightarrow> nat \<times> ('h, 'c) writer" where
  "setupDeadlineTimer deadline w =
     (wr_nextTimer w,
      w\<lparr>wr_waits := start_op (wr_nextTimer w, deadline) (wr_waits w), wr_nextTimer := Suc (wr_nextTimer w)\<rparr>)"

text \<open>The completion handler of the wait; \<open>locked\<close> tells whether the writer still exists.\<close>

definition deadlineHandler :: "error_code \<Rightarrow> bool \<Rightarrow> ('h, 'c) writer \<Rightarrow> ('h, 'c) writer outcome" where
  "deadlineHandler ec locked w =
     (if failed ec then Done w else if locked then onTimeoutReached w else Done w)"

definition batch_bytes :: "'h batch \<Rightarrow> byte list" where
  "batch_bytes tasks = concat (map wt_buffer tasks)"

definition doWrite :: "'h batch \<times> nat option \<Rightarrow> ('h, 'c) writer \<Rightarrow> ('h, 'c) writer outcome" where
  "doWrite tasksWithDeadline w =
     (if wr_timeoutReached w then Done w
      else let buffers = batch_bytes (fst tasksWithDeadline)
           in Done (write_emit (WriteStarted buffers) (w\<lparr>wr_writes := start_op buffers (wr_writes w)\<rparr>)))"

definition queueBatchWrite ::
  "nat \<Rightarrow> 'h batch \<Rightarrow> nat option \<Rightarrow> ('h, 'c) writer \<Rightarrow> ('h, 'c) writer outcome" where
  "queueBatchWrite now tasks deadlineTime w =
     (if wr_timeoutReached w then Done w
      else let push = (\<lambda>timer w.
                 let writing = wr_tasksQueue w \<noteq> [];
                     w' = w\<lparr>wr_tasksQueue := wr_tasksQueue w @ [(tasks, timer)]\<rparr>
                 in if \<not> writing then doWrite (hd (wr_tasksQueue w')) w' else Done w')
           in case deadlineTime of
                None \<Rightarrow> push None w
              | Some deadlineValue \<Rightarrow>
                  if deadlineValue < now then onTimeoutReached w
                  else let (timer, w') = setupDeadlineTimer deadlineValue w in push (Some timer) w')"

primrec callWriteHandlers :: "'h batch \<Rightarrow> ('h, 'c) writer \<Rightarrow> ('h, 'c) writer outcome" where
  "callWriteHandlers [] w = Done w"
| "callWriteHandlers (task # tasks) w =
     and_then (invoke (wt_handler task) (\<lambda>h. write_emit (WriteHandled h)) w) (callWriteHandlers tasks)"

definition cancelTimer :: "nat option \<Rightarrow> ('h, 'c) writer \<Rightarrow> ('h, 'c) writer" where
  "cancelTimer deadlineTimer w =
     (case deadlineTimer of
        None \<Rightarrow> w
      | Some t \<Rightarrow> w\<lparr>wr_waits := cancel_ops (\<lambda>k. fst k = t) (wr_waits w)\<rparr>)"

definition writeDone :: "error_code \<Rightarrow> ('h, 'c) writer \<Rightarrow> ('h, 'c) writer outcome" where
  "writeDone ec w =
     (case wr_tasksQueue w of
        [] \<Rightarrow> Undefined
      | front # rest \<Rightarrow>
          and_then (callWriteHandlers (fst front) w)
            (\<lambda>w. let w = cancelTimer (snd front) w;
                     w = w\<lparr>wr_tasksQueue := tl (wr_tasksQueue w)\<rparr>
                 in if \<not> failed ec
                    then and_then (invoke (wr_aliveCallback w) (\<lambda>c. write_emit (WriteAlive c)) w)
                           (\<lambda>w. case wr_tasksQueue w of [] \<Rightarrow> Done w | next_batch # _ \<Rightarrow> doWrite next_batch w)
                    else if wr_errorHandler w \<noteq> NullFn
                         then invoke (wr_errorHandler w) (\<lambda>c. write_emit (WriteFailed c ec)) w
                         else Done (write_emit (WriteFailLogged ec) w)))"

text \<open>The posted closure of \<open>scheduleWrite\<close> runs.\<close>

definition runPostedWrite :: "nat \<Rightarrow> nat \<Rightarrow> ('h, 'c) writer \<Rightarrow> ('h, 'c) writer outcome" where
  "runPostedWrite now i w =
     (let (tasks, deadlineTime) = wr_posted w ! i
      in queueBatchWrite now tasks deadlineTime
           (w\<lparr>wr_posted := take i (wr_posted w) @ drop (Suc i) (wr_posted w)\<rparr>))"

lemmas writer_defs =
  scheduleWrite_def setErrorHandler_w_def setConnectionAliveHandler_w_def setWriteTimedOutHandler_w_def
  new_AsyncWriter_def

subsection \<open>What the operations do\<close>

fun handled_task :: "('h, 'c) write_effect \<Rightarrow> 'h list" where
  "handled_task (WriteHandled h) = [h]"
| "handled_task _ = []"

fun started_write :: "('h, 'c) write_effect \<Rightarrow> byte list list" where
  "started_write (WriteStarted b) = [b]"
| "started_write _ = []"

fun reported_timeout :: "('h, 'c) write_effect \<Rightarrow> 'c list" where
  "reported_timeout (WriteTimedOut c) = [c]"
| "reported_timeout _ = []"

definition wr_handled :: "('h, 'c) writer \<Rightarrow> 'h list" where
  "wr_handled w = concat (map handled_task (wr_trace w))"

definition wr_started :: "('h, 'c) writer \<Rightarrow> byte list list" where
  "wr_started w = concat (map started_write (wr_trace w))"

definition wr_timeouts :: "('h, 'c) writer \<Rightarrow> 'c list" where
  "wr_timeouts w = concat (map reported_timeout (wr_trace w))"

fun callback_list :: "'h callback \<Rightarrow> 'h list" where
  "callback_list (Fn h) = [h]"
| "callback_list _ = []"

definition batch_handlers :: "'h batch \<Rightarrow> 'h list" where
  "batch_handlers tasks = concat (map (\<lambda>t. callback_list (wt_handler t)) tasks)"

lemmas trace_views = wr_handled_def wr_started_def wr_timeouts_def

text \<open>The handlers of a batch are called in order and change nothing but the trace.\<close>

lemma callWriteHandlers_Done:
  "\<forall>t \<in> set tasks. WriteTask_asserts t \<Longrightarrow>
   callWriteHandlers tasks w = Done (w\<lparr>wr_trace := wr_trace w @ map WriteHandled (batch_handlers tasks)\<rparr>)"
proof (induction tasks arbitrary: w)
  case Nil
  then show ?case by (simp add: batch_handlers_def)
next
  case (Cons t ts)
  then show ?case
    by (cases "wt_handler t") (simp_all add: batch_handlers_def write_emit_def WriteTask_asserts_def)
qed

text \<open>How the views of the trace read a block of equal effects.\<close>

lemma handled_view [simp]:
  "concat (map (handled_task \<circ> WriteHandled) hs) = hs"
  "concat (map (handled_task \<circ> WriteAlive) cs) = []"
  "concat (map (handled_task \<circ> WriteTimedOut) cs) = []"
  by (induction hs) (simp_all add: comp_def)

lemma started_view [simp]:
  "concat (map (started_write \<circ> WriteHandled) hs) = []"
  "concat (map (started_write \<circ> WriteAlive) cs) = []"
  "concat (map (started_write \<circ> WriteTimedOut) cs) = []"
  by (simp_all add: comp_def)

lemma timeouts_view [simp]:
  "concat (map (reported_timeout \<circ> WriteHandled) hs) = []"
  "concat (map (reported_timeout \<circ> WriteAlive) cs) = []"
  "concat (map (reported_timeout \<circ> WriteTimedOut) cs) = cs"
  by (induction cs) (simp_all add: comp_def)

end
