(* ===== verification/Session.thy ===== *)
theory Session
  imports Async_Reader Async_Writer
begin

section \<open>Session\<close>

text \<open>
  \<open>src/session.cpp\<close>. A session owns a reader and a writer on one websocket stream, hands its
  read and write requests to them, closes the stream, sends a pong each heartbeat period and
  tells the user that the connection is alive.

  Completion handlers and the callbacks installed in the reader and the writer hold the session
  by a weak pointer: \<open>se_exists\<close> says whether it can still be locked. The stream's own state is
  what the code sets and asks: its options, whether it is open, whether a control callback is
  installed. Outstanding are the waits of the heartbeat timer (with their deadlines), the pongs
  (with their payloads) and the closing handshakes (with the user's callback).

  \<open>ec.message()\<close> is the parameter \<open>msg\<close>, \<open>timeout::suggested(role)\<close> the parameter \<open>suggested\<close>.
\<close>

subsection \<open>State\<close>

datatype role_type = client_role | server_role

record ws_timeout =
  handshake_timeout :: nat
  idle_timeout :: "nat option"
  keep_alive_pings :: bool

datatype frame_type = close_frame | ping_frame | pong_frame

text \<open>The closures that the session installs in its reader and its writer.\<close>

datatype 'c session_closure =
    WriteErrorClosure "'c callback"
  | ReadErrorClosure "'c callback"
  | WriteTimeoutClosure "'c callback"
  | AliveClosure 'c

datatype 'c session_effect =
    AliveCalled 'c
  | WriteErrorCalled 'c string
  | ReadErrorCalled 'c string
  | TimedOutCalled 'c string
  | ClosedCalled 'c error_code
  | PongSent nat string

record ('ctx, 'h, 'w, 'c, 'u) session =
  se_role :: role_type
  se_connectionAliveCallback :: "'c callback"
  se_reader :: "('h, 'c session_closure, 'u) reader"
  se_writer :: "('w, 'c session_closure) writer"
  se_userContext :: "'ctx option"
  se_heartbeatPeriod :: nat
  se_endpointAddress :: string
  se_endpointPortNumber :: "16 word"
  se_tcpExpires :: bool
  se_binary :: bool
  se_timeout :: "ws_timeout option"
  se_controlCallback :: bool
  se_open :: bool
  se_exists :: bool
  se_waits :: "nat ops"
  se_pongs :: "string ops"
  se_closes :: "'c callback ops"
  se_trace :: "'c session_effect list"

definition session_emit ::
  "'c session_effect \<Rightarrow> ('ctx, 'h, 'w, 'c, 'u) session \<Rightarrow> ('ctx, 'h, 'w, 'c, 'u) session" where
  "session_emit e s = s\<lparr>se_trace := se_trace s @ [e]\<rparr>"

subsection \<open>Construction and destruction\<close>

definition defaultHeartbeatPeriod :: nat where
  "defaultHeartbeatPeriod = 1000"

definition setOptions ::
  "(role_type \<Rightarrow> ws_timeout) \<Rightarrow> ('ctx, 'h, 'w, 'c, 'u) session \<Rightarrow> ('ctx, 'h, 'w, 'c, 'u) session" where
  "setOptions suggested s =
     (let option = (suggested (se_role s))\<lparr>handshake_timeout := 3000\<rparr>
      in s\<lparr>se_tcpExpires := False, se_binary := True, se_timeout := Some option\<rparr>)"

text \<open>The stream is open when it is handed to the session: the websocket handshake is done.\<close>

definition new_Session ::
  "(role_type \<Rightarrow> ws_timeout) \<Rightarrow> 'u \<Rightarrow> 'ctx option \<Rightarrow> role_type \<Rightarrow> string \<Rightarrow> 16 word \<Rightarrow>
   ('ctx, 'h, 'w, 'c, 'u) session" where
  "new_Session suggested u userContext role endpointAddress endpointPortNumber =
     setOptions suggested
       \<lparr>se_role = role, se_connectionAliveCallback = NoOpFn, se_reader = new_AsyncReader u,
        se_writer = new_AsyncWriter, se_userContext = userContext,
        se_heartbeatPeriod = defaultHeartbeatPeriod, se_endpointAddress = endpointAddress,
        se_endpointPortNumber = endpointPortNumber, se_tcpExpires = True, se_binary = False,
        se_timeout = None, se_controlCallback = False, se_open = True, se_exists = True,
        se_waits = [], se_pongs = [], se_closes = [], se_trace = []\<rparr>"

text \<open>The destructor cancels the heartbeat and every operation on the socket: reads, writes, pongs and
  closing handshakes.\<close>

definition destroy_Session :: "('ctx, 'h, 'w, 'c, 'u) session \<Rightarrow> ('ctx, 'h, 'w, 'c, 'u) session" where
  "destroy_Session s =
     (let s1 = s\<lparr>se_waits := cancel_ops (\<lambda>k. True) (se_waits s)\<rparr>
      in s1\<lparr>se_reader := (se_reader s1)\<lparr>rd_reads := cancel_ops (\<lambda>k. True) (rd_reads (se_reader s1))\<rparr>,
            se_writer := (se_writer s1)\<lparr>wr_writes := cancel_ops (\<lambda>k. True) (wr_writes (se_writer s1))\<rparr>,
            se_pongs := cancel_ops (\<lambda>k. True) (se_pongs s1),
            se_closes := cancel_ops (\<lambda>k. True) (se_closes s1),
            se_exists := False\<rparr>)"

subsection \<open>Closing\<close>

definition close :: "'c callback \<Rightarrow> ('ctx, 'h, 'w, 'c, 'u) session \<Rightarrow> ('ctx, 'h, 'w, 'c, 'u) session" where
  "close onClosedCallback s = s\<lparr>se_closes := start_op onClosedCallback (se_closes s)\<rparr>"

definition closeHandler ::
  "'c callback \<Rightarrow> error_code \<Rightarrow> ('ctx, 'h, 'w, 'c, 'u) session \<Rightarrow> ('ctx, 'h, 'w, 'c, 'u) session outcome" where
  "closeHandler onClosedCallback ec s =
     (if se_exists s
      then if se_open s
           then invoke onClosedCallback (\<lambda>c. session_emit (ClosedCalled c ec)) s
           else invoke onClosedCallback (\<lambda>c. session_emit (ClosedCalled c NoError)) s
      else invoke onClosedCallback (\<lambda>c. session_emit (ClosedCalled c NoError)) s)"

subsection \<open>Callbacks of the reader and the writer\<close>

definition setErrorHandlers ::
  "'c callback \<Rightarrow> 'c callback \<Rightarrow> ('ctx, 'h, 'w, 'c, 'u) session \<Rightarrow> ('ctx, 'h, 'w, 'c, 'u) session" where
  "setErrorHandlers onWriteErrorCallback onReadErrorCallback s =
     s\<lparr>se_writer := setErrorHandler_w (Fn (WriteErrorClosure onWriteErrorCallback)) (se_writer s),
       se_reader := setErrorHandler_r (Fn (ReadErrorClosure onReadErrorCallback)) (se_reader s)\<rparr>"

definition setWriteTimedOutHandler ::
  "'c callback \<Rightarrow> ('ctx, 'h, 'w, 'c, 'u) session \<Rightarrow> ('ctx, 'h, 'w, 'c, 'u) session" where
  "setWriteTimedOutHandler writeTaskTimeoutHandler s =
     s\<lparr>se_writer := setWriteTimedOutHandler_w (Fn (WriteTimeoutClosure writeTaskTimeoutHandler)) (se_writer s)\<rparr>"

text \<open>What a closure does when the reader or the writer calls it.\<close>

definition runClosure ::
  "(error_code \<Rightarrow> string) \<Rightarrow> 'c session_closure \<Rightarrow> error_code \<Rightarrow> ('ctx, 'h, 'w, 'c, 'u) session \<Rightarrow>
   ('ctx, 'h, 'w, 'c, 'u) session outcome" where
  "runClosure msg cl ec s =
     (case cl of
        WriteErrorClosure cb \<Rightarrow>
          if se_exists s then invoke cb (\<lambda>c. session_emit (WriteErrorCalled c (msg ec))) s else Done s
      | ReadErrorClosure cb \<Rightarrow>
          if se_exists s then invoke cb (\<lambda>c. session_emit (ReadErrorCalled c (msg ec))) s else Done s
      | WriteTimeoutClosure cb \<Rightarrow>
          if se_exists s then invoke cb (\<lambda>c. session_emit (TimedOutCalled c ''Write task timed out'')) s
          else Done s
      | AliveClosure c \<Rightarrow> Done (session_emit (AliveCalled c) s))"

text \<open>The closures that a handler of the reader called, in order; the handlers of the reader call an
  error handler only as their last action.\<close>

primrec runReadEffects ::
  "(error_code \<Rightarrow> string) \<Rightarrow> ('h, 'c session_closure) read_effect list \<Rightarrow> ('ctx, 'h, 'w, 'c, 'u) session \<Rightarrow>
   ('ctx, 'h, 'w, 'c, 'u) session outcome" where
  "runReadEffects msg [] s = Done s"
| "runReadEffects msg (e # es) s =
     and_then (case e of
                 ReadAlive cl \<Rightarrow> runClosure msg cl NoError s
               | ReadFailed cl ec \<Rightarrow> runClosure msg cl ec s
               | ReadHandled h b \<Rightarrow> Done s
               | ReadFailLogged ec \<Rightarrow> Done s)
       (runReadEffects msg es)"

primrec runWriteEffects ::
  "(error_code \<Rightarrow> string) \<Rightarrow> ('w, 'c session_closure) write_effect list \<Rightarrow> ('ctx, 'h, 'w, 'c, 'u) session \<Rightarrow>
   ('ctx, 'h, 'w, 'c, 'u) session outcome" where
  "runWriteEffects msg [] s = Done s"
| "runWriteEffects msg (e # es) s =
     and_then (case e of
                 WriteAlive cl \<Rightarrow> runClosure msg cl NoError s
               | WriteFailed cl ec \<Rightarrow> runClosure msg cl ec s
               | WriteTimedOut cl \<Rightarrow> runClosure msg cl NoError s
               | WriteStarted b \<Rightarrow> Done s
               | WriteHandled h \<Rightarrow> Done s
               | WriteFailLogged ec \<Rightarrow> Done s)
       (runWriteEffects msg es)"

subsection \<open>Reading and writing\<close>

definition scheduleRead_s ::
  "'h read_task \<Rightarrow> ('ctx, 'h, 'w, 'c, 'u) session \<Rightarrow> ('ctx, 'h, 'w, 'c, 'u) session" where
  "scheduleRead_s entryTask s = s\<lparr>se_reader := scheduleRead entryTask (se_reader s)\<rparr>"

definition scheduleWrite_s ::
  "'w batch \<Rightarrow> nat option \<Rightarrow> ('ctx, 'h, 'w, 'c, 'u) session \<Rightarrow> ('ctx, 'h, 'w, 'c, 'u) session" where
  "scheduleWrite_s tasks deadlineTime s = s\<lparr>se_writer := scheduleWrite tasks deadlineTime (se_writer s)\<rparr>"

text \<open>A handler of the reader or the writer of a session, closures included.\<close>

definition afterRead ::
  "(error_code \<Rightarrow> string) \<Rightarrow> ('h, 'c session_closure, 'u) reader outcome option \<Rightarrow>
   ('ctx, 'h, 'w, 'c, 'u) session \<Rightarrow> ('ctx, 'h, 'w, 'c, 'u) session outcome option" where
  "afterRead msg m s =
     (case m of
        None \<Rightarrow> None
      | Some (Done r) \<Rightarrow>
          Some (runReadEffects msg (drop (length (rd_trace (se_reader s))) (rd_trace r)) (s\<lparr>se_reader := r\<rparr>))
      | Some (Thrown x r) \<Rightarrow> Some (Thrown x (s\<lparr>se_reader := r\<rparr>))
      | Some Undefined \<Rightarrow> Some Undefined)"

definition afterWrite ::
  "(error_code \<Rightarrow> string) \<Rightarrow> ('w, 'c session_closure) writer outcome \<Rightarrow>
   ('ctx, 'h, 'w, 'c, 'u) session \<Rightarrow> ('ctx, 'h, 'w, 'c, 'u) session outcome" where
  "afterWrite msg m s =
     (case m of
        Done w \<Rightarrow> runWriteEffects msg (drop (length (wr_trace (se_writer s))) (wr_trace w)) (s\<lparr>se_writer := w\<rparr>)
      | Thrown x w \<Rightarrow> Thrown x (s\<lparr>se_writer := w\<rparr>)
      | Undefined \<Rightarrow> Undefined)"

definition sessionReadDone ::
  "(error_code \<Rightarrow> string) \<Rightarrow> ('h, 'u) handlers \<Rightarrow> (byte list \<Rightarrow> byte list list) \<Rightarrow> error_code \<Rightarrow>
   ('ctx, 'h, 'w, 'c, 'u) session \<Rightarrow> ('ctx, 'h, 'w, 'c, 'u) session outcome option" where
  "sessionReadDone msg H bufs ec s = afterRead msg (readDone H bufs ec (se_reader s)) s"

definition sessionRunRead ::
  "(error_code \<Rightarrow> string) \<Rightarrow> ('h, 'u) handlers \<Rightarrow> (byte list \<Rightarrow> byte list list) \<Rightarrow>
   ('ctx, 'h, 'w, 'c, 'u) session \<Rightarrow> ('ctx, 'h, 'w, 'c, 'u) session outcome option" where
  "sessionRunRead msg H bufs s = afterRead msg (runPostedRead H bufs (se_reader s)) s"

definition sessionWriteDone ::
  "(error_code \<Rightarrow> string) \<Rightarrow> error_code \<Rightarrow> ('ctx, 'h, 'w, 'c, 'u) session \<Rightarrow>
   ('ctx, 'h, 'w, 'c, 'u) session outcome" where
  "sessionWriteDone msg ec s = afterWrite msg (writeDone ec (se_writer s)) s"

definition sessionRunWrite ::
  "(error_code \<Rightarrow> string) \<Rightarrow> nat \<Rightarrow> nat \<Rightarrow> ('ctx, 'h, 'w, 'c, 'u) session \<Rightarrow>
   ('ctx, 'h, 'w, 'c, 'u) session outcome" where
  "sessionRunWrite msg now i s = afterWrite msg (runPostedWrite now i (se_writer s)) s"

definition sessionDeadline ::
  "(error_code \<Rightarrow> string) \<Rightarrow> error_code \<Rightarrow> ('ctx, 'h, 'w, 'c, 'u) session \<Rightarrow>
   ('ctx, 'h, 'w, 'c, 'u) session outcome" where
  "sessionDeadline msg ec s = afterWrite msg (deadlineHandler ec True (se_writer s)) s"

lemmas session_io_ops =
  sessionReadDone_def sessionRunRead_def sessionWriteDone_def sessionRunWrite_def sessionDeadline_def

subsection \<open>The heartbeat\<close>

text \<open>Setting the expiry of a timer cancels its outstanding waits.\<close>

definition restartHeartbeatTimer ::
  "nat \<Rightarrow> ('ctx, 'h, 'w, 'c, 'u) session \<Rightarrow> ('ctx, 'h, 'w, 'c, 'u) session" where
  "restartHeartbeatTimer now s =
     s\<lparr>se_waits := start_op (now + se_heartbeatPeriod s) (cancel_ops (\<lambda>k. True) (se_waits s))\<rparr>"

definition schedulePong ::
  "nat \<Rightarrow> ('ctx, 'h, 'w, 'c, 'u) session \<Rightarrow> ('ctx, 'h, 'w, 'c, 'u) session" where
  "schedulePong now s =
     (if \<not> se_open s then s
      else let payload = ''ping from '' @ (if se_role s = server_role then ''server'' else ''client'')
           in session_emit (PongSent now payload) (s\<lparr>se_pongs := start_op payload (se_pongs s)\<rparr>))"

definition heartbeatHandler ::
  "nat \<Rightarrow> error_code \<Rightarrow> ('ctx, 'h, 'w, 'c, 'u) session \<Rightarrow> ('ctx, 'h, 'w, 'c, 'u) session" where
  "heartbeatHandler now ec s =
     (if failed ec then s else if se_exists s then schedulePong now s else s)"

definition pongHandler ::
  "nat \<Rightarrow> error_code \<Rightarrow> ('ctx, 'h, 'w, 'c, 'u) session \<Rightarrow> ('ctx, 'h, 'w, 'c, 'u) session" where
  "pongHandler now ec s =
     (if failed ec then s else if se_exists s then restartHeartbeatTimer now s else s)"

definition alive_closure :: "'c callback \<Rightarrow> 'c session_closure callback" where
  "alive_closure cb = (case cb of NullFn \<Rightarrow> NullFn | NoOpFn \<Rightarrow> NoOpFn | Fn c \<Rightarrow> Fn (AliveClosure c))"

definition startConnectionActivityMonitoring ::
  "nat \<Rightarrow> 'c callback \<Rightarrow> nat \<Rightarrow> ('ctx, 'h, 'w, 'c, 'u) session \<Rightarrow> ('ctx, 'h, 'w, 'c, 'u) session" where
  "startConnectionActivityMonitoring now connectionAliveCallback heartbeatPeriod s =
     schedulePong now
       (s\<lparr>se_connectionAliveCallback := connectionAliveCallback, se_heartbeatPeriod := heartbeatPeriod,
          se_reader := setConnectionAliveHandler_r (alive_closure connectionAliveCallback) (se_reader s),
          se_controlCallback := True\<rparr>)"

text \<open>A control frame arrives.\<close>

definition controlCallback ::
  "frame_type \<Rightarrow> ('ctx, 'h, 'w, 'c, 'u) session \<Rightarrow> ('ctx, 'h, 'w, 'c, 'u) session outcome" where
  "controlCallback kind s =
     (if se_controlCallback s \<and> se_exists s \<and> kind = pong_frame
      then invoke (se_connectionAliveCallback s) (\<lambda>c. session_emit (AliveCalled c)) s
      else Done s)"

subsection \<open>Queries\<close>

definition isOpen :: "('ctx, 'h, 'w, 'c, 'u) session \<Rightarrow> bool" where
  "isOpen s = se_open s"

definition getUserContext :: "('ctx, 'h, 'w, 'c, 'u) session \<Rightarrow> 'ctx option" where
  "getUserContext s = se_userContext s"

definition getEndpointAddress :: "('ctx, 'h, 'w, 'c, 'u) session \<Rightarrow> string" where
  "getEndpointAddress s = se_endpointAddress s"

definition getEndpointPortNumber :: "('ctx, 'h, 'w, 'c, 'u) session \<Rightarrow> 16 word" where
  "getEndpointPortNumber s = se_endpointPortNumber s"

lemmas session_ops =
  session_emit_def setOptions_def new_Session_def destroy_Session_def close_def setErrorHandlers_def
  setWriteTimedOutHandler_def scheduleRead_s_def scheduleWrite_s_def restartHeartbeatTimer_def
  schedulePong_def heartbeatHandler_def pongHandler_def startConnectionActivityMonitoring_def
  isOpen_def getUserContext_def getEndpointAddress_def getEndpointPortNumber_def

subsection \<open>What a session shows of itself\<close>

fun pong_time :: "'c session_effect \<Rightarrow> nat list" where
  "pong_time (PongSent t p) = [t]"
| "pong_time _ = []"

fun closed_call :: "'c session_effect \<Rightarrow> 'c list" where
  "closed_call (ClosedCalled c ec) = [c]"
| "closed_call _ = []"

definition pong_times :: "('ctx, 'h, 'w, 'c, 'u) session \<Rightarrow> nat list" where
  "pong_times s = concat (map pong_time (se_trace s))"

definition closed_calls :: "('ctx, 'h, 'w, 'c, 'u) session \<Rightarrow> 'c list" where
  "closed_calls s = concat (map closed_call (se_trace s))"

lemmas session_views = pong_times_def closed_calls_def

lemma closeHandler_cases:
  "leaves (closeHandler cb ec s) t \<Longrightarrow>
   t = s \<and> callback_list cb = [] \<or>
   (\<exists>c ec'. cb = Fn c \<and> t = session_emit (ClosedCalled c ec') s \<and>
      ec' = (if se_exists s \<and> se_open s then ec else NoError))"
  by (cases cb) (auto simp: closeHandler_def split: if_splits)

lemma controlCallback_cases:
  "leaves (controlCallback kind s) t \<Longrightarrow>
   t = s \<or> (\<exists>c. se_exists s \<and> t = session_emit (AliveCalled c) s)"
  by (cases "se_connectionAliveCallback s") (auto simp: controlCallback_def split: if_splits)

end
