(* ===== verification/Session_Machine.thy ===== *)
theory Session_Machine
  imports Session "HOL-Library.Multiset"
begin

section \<open>The session with its timer, its control frames and its closing handshakes\<close>

text \<open>
  The session of \<open>Session\<close> driven by its environment. The user starts the monitoring, closes the
  session and drops it; pongs and closing handshakes complete, the heartbeat timer expires, the
  io context calls completion handlers in any order, pong frames arrive, the stream closes for
  whatever reason, time passes. Reading and writing are the machines of the reader and the writer.

  A closed stream does not open again. A wait completes without an error only once its deadline
  has come. The user of a dropped session holds no pointer to it any more and calls nothing.

  The invariant says that at most one heartbeat wait is running, that the chain of pong and wait
  never breaks while the connection is healthy, that no callback of a closing handshake is lost
  or called twice, and, when the monitoring was started once, that pongs are at least a period
  apart.
\<close>

datatype 'c session_event =
    StartMonitoring "'c callback" nat
  | FinishPong nat error_code
  | PongCompleted nat
  | PassTime nat
  | ExpireHeartbeat nat
  | HeartbeatCompleted nat
  | ControlFrame frame_type
  | CloseSession "'c callback"
  | FinishClose nat error_code
  | CloseCompleted nat
  | StreamClosed
  | DropSession

text \<open>History: how often the monitoring was started, whether a pong has failed, and the callbacks given
  to \<open>close\<close>.\<close>

record ('ctx, 'h, 'w, 'c, 'u) session_system =
  ss_session :: "('ctx, 'h, 'w, 'c, 'u) session"
  ss_now :: nat
  ss_starts :: nat
  ss_pongFailed :: bool
  ss_closing :: "'c callback list"

definition session_init :: "('ctx, 'h, 'w, 'c, 'u) session_system \<Rightarrow> bool" where
  "session_init s \<longleftrightarrow>
     (\<exists>suggested u ctx role addr port now.
        s = \<lparr>ss_session = new_Session suggested u ctx role addr port, ss_now = now, ss_starts = 0,
             ss_pongFailed = False, ss_closing = []\<rparr>)"

inductive session_step ::
  "('ctx, 'h, 'w, 'c, 'u) session_system \<Rightarrow> 'c session_event \<Rightarrow> ('ctx, 'h, 'w, 'c, 'u) session_system \<Rightarrow> bool"
where
  start_monitoring: "se_exists (ss_session s) \<Longrightarrow>
     session_step s (StartMonitoring cb period)
       (s\<lparr>ss_session := startConnectionActivityMonitoring (ss_now s) cb period (ss_session s),
          ss_starts := Suc (ss_starts s)\<rparr>)"
| finish_pong: "finish_op i ec (se_pongs (ss_session s)) = Some ops \<Longrightarrow>
     session_step s (FinishPong i ec)
       (s\<lparr>ss_session := (ss_session s)\<lparr>se_pongs := ops\<rparr>, ss_pongFailed := ss_pongFailed s \<or> failed ec\<rparr>)"
| pong_completed: "take_op i (se_pongs (ss_session s)) = Some ((payload, ec), ops) \<Longrightarrow>
     session_step s (PongCompleted i)
       (s\<lparr>ss_session := pongHandler (ss_now s) ec ((ss_session s)\<lparr>se_pongs := ops\<rparr>)\<rparr>)"
| pass_time: "session_step s (PassTime n) (s\<lparr>ss_now := ss_now s + n\<rparr>)"
| expire_heartbeat: "i < length (se_waits (ss_session s)) \<Longrightarrow> fst (se_waits (ss_session s) ! i) \<le> ss_now s \<Longrightarrow>
     finish_op i NoError (se_waits (ss_session s)) = Some ops \<Longrightarrow>
     session_step s (ExpireHeartbeat i) (s\<lparr>ss_session := (ss_session s)\<lparr>se_waits := ops\<rparr>\<rparr>)"
| heartbeat_completed: "take_op i (se_waits (ss_session s)) = Some ((d, ec), ops) \<Longrightarrow>
     session_step s (HeartbeatCompleted i)
       (s\<lparr>ss_session := heartbeatHandler (ss_now s) ec ((ss_session s)\<lparr>se_waits := ops\<rparr>)\<rparr>)"
| control_frame: "leaves (controlCallback kind (ss_session s)) t \<Longrightarrow>
     session_step s (ControlFrame kind) (s\<lparr>ss_session := t\<rparr>)"
| close_session: "se_exists (ss_session s) \<Longrightarrow>
     session_step s (CloseSession cb)
       (s\<lparr>ss_session := close cb (ss_session s), ss_closing := ss_closing s @ [cb]\<rparr>)"
| finish_close: "finish_op i ec (se_closes (ss_session s)) = Some ops \<Longrightarrow>
     session_step s (FinishClose i ec) (s\<lparr>ss_session := (ss_session s)\<lparr>se_closes := ops\<rparr>\<rparr>)"
| close_completed: "take_op i (se_closes (ss_session s)) = Some ((cb, ec), ops) \<Longrightarrow>
     leaves (closeHandler cb ec ((ss_session s)\<lparr>se_closes := ops\<rparr>)) t \<Longrightarrow>
     session_step s (CloseCompleted i) (s\<lparr>ss_session := t\<rparr>)"
| stream_closed: "session_step s StreamClosed (s\<lparr>ss_session := (ss_session s)\<lparr>se_open := False\<rparr>\<rparr>)"
| drop_session: "se_exists (ss_session s) \<Longrightarrow>
     session_step s DropSession (s\<lparr>ss_session := destroy_Session (ss_session s)\<rparr>)"

inductive_simps session_step_simps:
  "session_step s (StartMonitoring cb period) t"
  "session_step s (FinishPong i ec) t"
  "session_step s (PongCompleted i) t"
  "session_step s (PassTime n) t"
  "session_step s (ExpireHeartbeat i) t"
  "session_step s (HeartbeatCompleted i) t"
  "session_step s (ControlFrame kind) t"
  "session_step s (CloseSession cb) t"
  "session_step s (FinishClose i ec) t"
  "session_step s (CloseCompleted i) t"
  "session_step s StreamClosed t"
  "session_step s DropSession t"

subsection \<open>The invariant\<close>

definition one_heartbeat :: "('ctx, 'h, 'w, 'c, 'u) session_system \<Rightarrow> bool" where
  "one_heartbeat s \<longleftrightarrow> length (running (se_waits (ss_session s))) \<le> 1"

text \<open>The chain goes on: a pong is outstanding, or a wait that was not cancelled.\<close>

definition chain_alive :: "('ctx, 'h, 'w, 'c, 'u) session \<Rightarrow> bool" where
  "chain_alive s \<longleftrightarrow>
     se_pongs s \<noteq> [] \<or> (\<exists>d st. (d, st) \<in> set (se_waits s) \<and> (st = Running \<or> st = Ready NoError))"

definition heartbeat_goes_on :: "('ctx, 'h, 'w, 'c, 'u) session_system \<Rightarrow> bool" where
  "heartbeat_goes_on s \<longleftrightarrow>
     (\<forall>p ec. (p, Ready ec) \<in> set (se_pongs (ss_session s)) \<longrightarrow> failed ec \<longrightarrow>
        ss_pongFailed s \<or> \<not> se_exists (ss_session s)) \<and>
     (0 < ss_starts s \<longrightarrow> se_open (ss_session s) \<longrightarrow> se_exists (ss_session s) \<longrightarrow> \<not> ss_pongFailed s \<longrightarrow>
        chain_alive (ss_session s))"

definition closes_ok :: "('ctx, 'h, 'w, 'c, 'u) session_system \<Rightarrow> bool" where
  "closes_ok s \<longleftrightarrow>
     mset (concat (map callback_list (ss_closing s))) =
       mset (concat (map callback_list (op_keys (se_closes (ss_session s))))) +
       mset (closed_calls (ss_session s))"

text \<open>Times at least \<open>p\<close> apart, in order.\<close>

fun paced :: "nat \<Rightarrow> nat list \<Rightarrow> bool" where
  "paced p (t # u # ts) = (t + p \<le> u \<and> paced p (u # ts))"
| "paced p ts = True"

definition heartbeat_paced :: "('ctx, 'h, 'w, 'c, 'u) session_system \<Rightarrow> bool" where
  "heartbeat_paced s \<longleftrightarrow>
     (let x = ss_session s; ts = pong_times x
      in (ss_starts s = 0 \<longrightarrow> se_pongs x = [] \<and> se_waits x = [] \<and> ts = []) \<and>
         (ss_starts s = 1 \<longrightarrow>
            length (se_pongs x) + length (se_waits x) \<le> 1 \<and> paced (se_heartbeatPeriod x) ts \<and>
            (\<forall>t \<in> set ts. t \<le> ss_now s) \<and>
            (\<forall>(d, st) \<in> set (se_waits x). (\<forall>t \<in> set ts. t + se_heartbeatPeriod x \<le> d) \<and>
                (st = Ready NoError \<longrightarrow> d \<le> ss_now s))))"

definition session_inv :: "('ctx, 'h, 'w, 'c, 'u) session_system \<Rightarrow> bool" where
  "session_inv s \<longleftrightarrow> one_heartbeat s \<and> heartbeat_goes_on s \<and> closes_ok s \<and> heartbeat_paced s"

lemmas session_inv_defs =
  one_heartbeat_def heartbeat_goes_on_def closes_ok_def heartbeat_paced_def chain_alive_def

lemma destroy_fields [simp]:
  "se_exists (destroy_Session s) = False" "se_open (destroy_Session s) = se_open s"
  "se_waits (destroy_Session s) = cancel_ops (\<lambda>k. True) (se_waits s)"
  "se_pongs (destroy_Session s) = cancel_ops (\<lambda>k. True) (se_pongs s)"
  "se_closes (destroy_Session s) = cancel_ops (\<lambda>k. True) (se_closes s)"
  "se_heartbeatPeriod (destroy_Session s) = se_heartbeatPeriod s"
  "se_trace (destroy_Session s) = se_trace s"
  "pong_times (destroy_Session s) = pong_times s" "closed_calls (destroy_Session s) = closed_calls s"
  by (simp_all add: destroy_Session_def session_views Let_def)

lemma paced_append:
  "paced p ts \<Longrightarrow> \<forall>t \<in> set ts. t + p \<le> u \<Longrightarrow> paced p (ts @ [u])"
  by (induction p ts rule: paced.induct) auto

lemma session_inv_init: "session_init s \<Longrightarrow> session_inv s"
  by (auto simp: session_init_def session_inv_def session_inv_defs session_ops session_views Let_def)

subsection \<open>The invariant is kept\<close>

text \<open>How the operations change what the invariant speaks of.\<close>

lemma schedulePong_fields [simp]:
  "se_waits (schedulePong now s) = se_waits s" "se_closes (schedulePong now s) = se_closes s"
  "se_open (schedulePong now s) = se_open s" "se_exists (schedulePong now s) = se_exists s"
  "se_heartbeatPeriod (schedulePong now s) = se_heartbeatPeriod s"
  "closed_calls (schedulePong now s) = closed_calls s"
  by (simp_all add: schedulePong_def session_emit_def closed_calls_def Let_def)

lemma schedulePong_times:
  "pong_times (schedulePong now s) = (if se_open s then pong_times s @ [now] else pong_times s)"
  by (simp add: schedulePong_def session_emit_def pong_times_def Let_def)

lemma schedulePong_pongs:
  "se_pongs (schedulePong now s) =
     (if se_open s
      then start_op (''ping from '' @ (if se_role s = server_role then ''server'' else ''client'')) (se_pongs s)
      else se_pongs s)"
  by (simp add: schedulePong_def session_emit_def Let_def)

lemma restart_fields [simp]:
  "se_pongs (restartHeartbeatTimer now s) = se_pongs s" "se_closes (restartHeartbeatTimer now s) = se_closes s"
  "se_open (restartHeartbeatTimer now s) = se_open s" "se_exists (restartHeartbeatTimer now s) = se_exists s"
  "se_heartbeatPeriod (restartHeartbeatTimer now s) = se_heartbeatPeriod s"
  "closed_calls (restartHeartbeatTimer now s) = closed_calls s"
  "pong_times (restartHeartbeatTimer now s) = pong_times s"
  "running (se_waits (restartHeartbeatTimer now s)) = [now + se_heartbeatPeriod s]"
  by (simp_all add: restartHeartbeatTimer_def session_views)

lemma emit_alive [simp]:
  "pong_times (session_emit (AliveCalled c) s) = pong_times s"
  "closed_calls (session_emit (AliveCalled c) s) = closed_calls s"
  "pong_times (session_emit (ClosedCalled c ec) s) = pong_times s"
  "closed_calls (session_emit (ClosedCalled c ec) s) = closed_calls s @ [c]"
  "se_pongs (session_emit e s) = se_pongs s" "se_waits (session_emit e s) = se_waits s"
  "se_closes (session_emit e s) = se_closes s" "se_open (session_emit e s) = se_open s"
  "se_exists (session_emit e s) = se_exists s" "se_heartbeatPeriod (session_emit e s) = se_heartbeatPeriod s"
  by (simp_all add: session_emit_def session_views)

lemma views_update [simp]:
  "pong_times (s\<lparr>se_pongs := p\<rparr>) = pong_times s" "closed_calls (s\<lparr>se_pongs := p\<rparr>) = closed_calls s"
  "pong_times (s\<lparr>se_waits := w\<rparr>) = pong_times s" "closed_calls (s\<lparr>se_waits := w\<rparr>) = closed_calls s"
  "pong_times (s\<lparr>se_closes := k\<rparr>) = pong_times s" "closed_calls (s\<lparr>se_closes := k\<rparr>) = closed_calls s"
  "pong_times (s\<lparr>se_connectionAliveCallback := cb, se_heartbeatPeriod := n, se_reader := r, se_controlCallback := v\<rparr>)
     = pong_times s"
  "closed_calls (s\<lparr>se_connectionAliveCallback := cb, se_heartbeatPeriod := n, se_reader := r, se_controlCallback := v\<rparr>)
     = closed_calls s"
  "pong_times (s\<lparr>se_open := v\<rparr>) = pong_times s" "closed_calls (s\<lparr>se_open := v\<rparr>) = closed_calls s"
  by (simp_all add: session_views)

lemma closes_step: "session_step s e t \<Longrightarrow> closes_ok s \<Longrightarrow> closes_ok t"
proof (induction rule: session_step.induct)
  case (start_monitoring s cb period)
  then show ?case
    by (simp add: closes_ok_def startConnectionActivityMonitoring_def)
next
  case (pong_completed i s payload ec ops)
  then show ?case by (simp add: closes_ok_def pongHandler_def)
next
  case (heartbeat_completed i s d ec ops)
  then show ?case by (simp add: closes_ok_def heartbeatHandler_def)
next
  case (control_frame kind s t)
  then show ?case by (auto simp: closes_ok_def dest!: controlCallback_cases)
next
  case (close_session s cb)
  then show ?case by (simp add: closes_ok_def close_def)
next
  case (finish_close i ec s ops)
  then show ?case by (simp add: closes_ok_def finish_op_keys)
next
  case (close_completed i s cb ec ops t)
  from take_op_split [OF close_completed(1)] obtain a b where
    "se_closes (ss_session s) = a @ (cb, Ready ec) # b" "ops = a @ b" by blast
  with close_completed(2,3) show ?case
    by (auto simp: closes_ok_def dest!: closeHandler_cases)
next
  case (drop_session s)
  then show ?case by (simp add: closes_ok_def)
qed (simp_all add: closes_ok_def)

lemma one_heartbeat_step: "session_step s e t \<Longrightarrow> one_heartbeat s \<Longrightarrow> one_heartbeat t"
proof (induction rule: session_step.induct)
  case (start_monitoring s cb period)
  then show ?case by (simp add: one_heartbeat_def startConnectionActivityMonitoring_def)
next
  case (pong_completed i s payload ec ops)
  then show ?case by (simp add: one_heartbeat_def pongHandler_def)
next
  case (expire_heartbeat i s ops)
  then show ?case by (auto simp: one_heartbeat_def running_def dest!: finish_op_split)
next
  case (heartbeat_completed i s d ec ops)
  then show ?case by (auto simp: one_heartbeat_def heartbeatHandler_def dest: take_op_running)
next
  case (control_frame kind s t)
  then show ?case by (auto simp: one_heartbeat_def dest!: controlCallback_cases)
next
  case (close_completed i s cb ec ops t)
  then show ?case by (auto simp: one_heartbeat_def dest!: closeHandler_cases)
qed (simp_all add: one_heartbeat_def close_def)

lemma chain_alive_same [simp]:
  "chain_alive (session_emit e s) = chain_alive s" "chain_alive (close cb s) = chain_alive s"
  "chain_alive (s\<lparr>se_closes := k\<rparr>) = chain_alive s" "chain_alive (s\<lparr>se_open := v\<rparr>) = chain_alive s"
  by (simp_all add: chain_alive_def close_def)

lemma goes_on_step: "session_step s e t \<Longrightarrow> heartbeat_goes_on s \<Longrightarrow> heartbeat_goes_on t"
proof (induction rule: session_step.induct)
  case (start_monitoring s cb period)
  then show ?case
    by (auto simp: heartbeat_goes_on_def startConnectionActivityMonitoring_def chain_alive_def start_op_def
        schedulePong_pongs split: if_splits)
next
  case (finish_pong i ec s ops)
  from finish_op_split [OF finish_pong(1)] obtain a k b where
    "se_pongs (ss_session s) = a @ (k, Running) # b" "ops = a @ (k, Ready ec) # b" by blast
  with finish_pong(2) show ?case by (auto simp: heartbeat_goes_on_def chain_alive_def)
next
  case (pong_completed i s payload ec ops)
  from take_op_split [OF pong_completed(1)] obtain a b where
    ab: "se_pongs (ss_session s) = a @ (payload, Ready ec) # b" "ops = a @ b" by blast
  have "chain_alive (restartHeartbeatTimer n x)" for n x
    by (auto simp: chain_alive_def restartHeartbeatTimer_def start_op_def)
  with ab pong_completed(2) show ?case
    by (auto simp: heartbeat_goes_on_def pongHandler_def)
next
  case (expire_heartbeat i s ops)
  from finish_op_split [OF expire_heartbeat(3)] obtain a k b where
    "se_waits (ss_session s) = a @ (k, Running) # b" "ops = a @ (k, Ready NoError) # b" by blast
  with expire_heartbeat(4) show ?case by (auto simp: heartbeat_goes_on_def chain_alive_def)
next
  case (heartbeat_completed i s d ec ops)
  from take_op_split [OF heartbeat_completed(1)] obtain a b where
    ab: "se_waits (ss_session s) = a @ (d, Ready ec) # b" "ops = a @ b" by blast
  with ab heartbeat_completed(2) show ?case
    by (auto simp: heartbeat_goes_on_def heartbeatHandler_def chain_alive_def start_op_def failed_def
        schedulePong_pongs        split: if_splits)
next
  case (control_frame kind s t)
  then show ?case by (auto simp: heartbeat_goes_on_def dest!: controlCallback_cases)
next
  case (close_completed i s cb ec ops t)
  then show ?case by (auto simp: heartbeat_goes_on_def dest!: closeHandler_cases)
next
  case (close_session s cb)
  then show ?case by (simp add: heartbeat_goes_on_def) (simp add: close_def)
next
  case (drop_session s)
  then show ?case by (simp add: heartbeat_goes_on_def)
qed (auto simp: heartbeat_goes_on_def)


text \<open>With the monitoring started once, there is one pong or one wait, never both.\<close>

lemma paced_once:
  assumes "heartbeat_paced s" and "ss_starts s = Suc 0"
  shows "length (se_pongs (ss_session s)) + length (se_waits (ss_session s)) \<le> 1"
    and "paced (se_heartbeatPeriod (ss_session s)) (pong_times (ss_session s))"
    and "t \<in> set (pong_times (ss_session s)) \<Longrightarrow> t \<le> ss_now s"
    and "(d, st) \<in> set (se_waits (ss_session s)) \<Longrightarrow> t \<in> set (pong_times (ss_session s)) \<Longrightarrow>
           t + se_heartbeatPeriod (ss_session s) \<le> d"
    and "(d, Ready NoError) \<in> set (se_waits (ss_session s)) \<Longrightarrow> d \<le> ss_now s"
  using assms by (fastforce simp: heartbeat_paced_def Let_def)+

lemma paced_step: "session_step s e t \<Longrightarrow> heartbeat_paced s \<Longrightarrow> heartbeat_paced t"
proof (induction rule: session_step.induct)
  case (start_monitoring s cb period)
  then show ?case
    by (auto simp: heartbeat_paced_def startConnectionActivityMonitoring_def schedulePong_times
        schedulePong_pongs Let_def)
next
  case (finish_pong i ec s ops)
  then show ?case
    using finish_op_length [OF finish_pong(1)] by (auto simp: heartbeat_paced_def Let_def)
next
  case (pong_completed i s payload ec ops)
  note once = paced_once [OF pong_completed(2)]
  have "se_pongs (ss_session s) \<noteq> []" using pong_completed(1) by (auto simp: take_op_def)
  then have "ss_starts s = Suc 0 \<Longrightarrow> se_waits (ss_session s) = [] \<and> ops = []"
    using once(1) take_op_length [OF pong_completed(1)] by (cases "se_pongs (ss_session s)") auto
  moreover have "ss_starts s \<noteq> 0"
    using pong_completed(2) \<open>se_pongs (ss_session s) \<noteq> []\<close> by (auto simp: heartbeat_paced_def Let_def)
  ultimately show ?case
    using once(2,3)
    by (auto simp: heartbeat_paced_def pongHandler_def restartHeartbeatTimer_def start_op_def Let_def
        session_views)
next
  case (expire_heartbeat i s ops)
  note once = paced_once [OF expire_heartbeat(4)]
  have "ss_starts s \<noteq> 0"
    using expire_heartbeat(1,4) by (auto simp: heartbeat_paced_def Let_def)
  moreover have "ss_starts s = Suc 0 \<Longrightarrow>
      \<exists>d. se_waits (ss_session s) = [(d, Running)] \<and> ops = [(d, Ready NoError)] \<and> d \<le> ss_now s \<and> se_pongs (ss_session s) = []"
    using once(1) finish_op_only [of "se_waits (ss_session s)" i NoError ops] expire_heartbeat(1,2,3)
    by (auto simp: neq_Nil_conv)
  ultimately show ?case
    using once(2-4) by (auto simp: heartbeat_paced_def Let_def)
next
  case (heartbeat_completed i s d ec ops)
  note once = paced_once [OF heartbeat_completed(2)]
  have ne: "se_waits (ss_session s) \<noteq> []" using heartbeat_completed(1) by (auto simp: take_op_def)
  have start: "ss_starts s \<noteq> 0"
    using heartbeat_completed(2) ne by (auto simp: heartbeat_paced_def Let_def)
  show ?case
  proof (cases "ss_starts s = Suc 0")
    case True
    have "length (se_waits (ss_session s)) \<le> 1" using once(1) [OF True] by simp
    from take_op_only [OF this heartbeat_completed(1)]
    have w: "se_waits (ss_session s) = [(d, Ready ec)]" "ops = []" by simp_all
    then have "se_pongs (ss_session s) = []" using once(1) [OF True] by simp
    moreover have "ec = NoError \<Longrightarrow> d \<le> ss_now s" using once(5) [OF True] w by simp
    moreover have "\<And>t. t \<in> set (pong_times (ss_session s)) \<Longrightarrow> t + se_heartbeatPeriod (ss_session s) \<le> d"
      using once(4) [OF True] w by auto
    ultimately show ?thesis
      using True w once(2,3) [OF True]
      by (fastforce simp: heartbeat_paced_def heartbeatHandler_def schedulePong_times schedulePong_pongs
          failed_def Let_def intro!: paced_append)
  next
    case False
    with start show ?thesis by (simp add: heartbeat_paced_def Let_def)
  qed
next
  case (control_frame kind s t)
  from controlCallback_cases [OF this(1)] this(2) show ?case
    by (elim disjE exE conjE) (simp_all add: heartbeat_paced_def Let_def)
next
  case (close_completed i s cb ec ops t)
  from closeHandler_cases [OF this(2)] this(3) show ?case
    by (elim disjE exE conjE) (simp_all add: heartbeat_paced_def Let_def)
next
  case (close_session s cb)
  then show ?case by (simp add: heartbeat_paced_def close_def Let_def)
next
  case (drop_session s)
  have "(d, st) \<in> set (cancel_ops (\<lambda>k. True) w) \<Longrightarrow>
      \<exists>st'. (d, st') \<in> set w \<and> (st = Ready NoError \<longrightarrow> st' = Ready NoError)" for d st and w :: "nat ops"
    by (auto simp: cancel_ops_def split: if_splits)
  with drop_session show ?case
    by (fastforce simp: heartbeat_paced_def Let_def)
next
  case (pass_time s n)
  then show ?case by (fastforce simp: heartbeat_paced_def Let_def)
next
  case (finish_close i ec s ops)
  then show ?case by (simp add: heartbeat_paced_def Let_def)
next
  case (stream_closed s)
  then show ?case by (simp add: heartbeat_paced_def Let_def)
qed

lemma session_inv_step: "session_step s e t \<Longrightarrow> session_inv s \<Longrightarrow> session_inv t"
  by (simp add: session_inv_def one_heartbeat_step goes_on_step closes_step paced_step)

interpretation monitoring: invariant_system session_init session_step session_inv
  by unfold_locales (rule session_inv_init session_inv_step; assumption)+

end
