(* ===== verification/Reader_Machine.thy ===== *)
theory Reader_Machine
  imports Async_Reader
begin

section \<open>The reader with its stream and its io context\<close>

text \<open>
  The reader of \<open>Async_Reader\<close> driven by its environment: the user schedules a read sequence, the
  io context runs the posted closure, bytes arrive on the stream and complete the outstanding
  read, the io context calls the completion handler; the error and alive handlers may be set at any
  time. A completion without an error has
  transferred at least what was asked for (\<open>transfer_at_least\<close>), a completion with an error any
  number of bytes.

  The user schedules a sequence only when no sequence is in progress: the stream allows one
  outstanding read, and \<open>scheduleRead\<close> overwrites the pending task. \<open>overlapping_sequences\<close> shows
  what happens otherwise.

  The invariant says that at most one read is outstanding, that it asks for exactly the bytes
  that are missing, and that the reference \<open>read_stream\<close> gives the same on all that was received
  since the sequence began as on what is buffered.
\<close>

datatype 'h read_event =
    ScheduleRead "'h read_task"
  | RunPostedRead
  | ReceiveBytes nat error_code "byte list"
  | ReadCompleted nat
  | SetReadHandlers

text \<open>The reader, and a record of the sequence in progress: its entry task, the variables of the
  handlers and the calls made when it began, and all bytes it could read since.\<close>

record ('h, 'c, 'u) read_system =
  rs_reader :: "('h, 'c, 'u) reader"
  rs_entry :: "'h read_task"
  rs_user :: 'u
  rs_calls :: "('h \<times> byte list) list"
  rs_input :: "byte list"

definition read_init :: "('h, 'c, 'u) read_system \<Rightarrow> bool" where
  "read_init s \<longleftrightarrow>
     (\<exists>u eh cb. cb \<noteq> NullFn \<and>
        s = \<lparr>rs_reader = setErrorHandler_r eh (setConnectionAliveHandler_r cb (new_AsyncReader u)),
             rs_entry = ReadTask_default, rs_user = u, rs_calls = [], rs_input = []\<rparr>)"

inductive read_step ::
  "('h, 'u) handlers \<Rightarrow> (byte list \<Rightarrow> byte list list) \<Rightarrow>
   ('h, 'c, 'u) read_system \<Rightarrow> 'h read_event \<Rightarrow> ('h, 'c, 'u) read_system \<Rightarrow> bool"
  for H :: "('h, 'u) handlers" and bufs :: "byte list \<Rightarrow> byte list list" where
  schedule_read: "rd_posted (rs_reader s) = 0 \<Longrightarrow> rd_reads (rs_reader s) = [] \<Longrightarrow> ReadTask_asserts t \<Longrightarrow>
     read_step H bufs s (ScheduleRead t)
       \<lparr>rs_reader = scheduleRead t (rs_reader s), rs_entry = t, rs_user = rd_user (rs_reader s),
        rs_calls = handled (rs_reader s), rs_input = rd_buffer (rs_reader s)\<rparr>"
| run_posted_read: "0 < rd_posted (rs_reader s) \<Longrightarrow> runPostedRead H bufs (rs_reader s) = Some m \<Longrightarrow>
     leaves m r \<Longrightarrow> read_step H bufs s RunPostedRead (s\<lparr>rs_reader := r\<rparr>)"
| receive_bytes: "finish_op i ec (rd_reads (rs_reader s)) = Some ops \<Longrightarrow>
     failed ec \<or> fst (rd_reads (rs_reader s) ! i) \<le> length bs \<Longrightarrow>
     read_step H bufs s (ReceiveBytes i ec bs)
       (s\<lparr>rs_reader := (rs_reader s)\<lparr>rd_buffer := rd_buffer (rs_reader s) @ bs, rd_reads := ops\<rparr>,
          rs_input := rs_input s @ bs\<rparr>)"
| read_completed: "take_op i (rd_reads (rs_reader s)) = Some ((k, ec), ops) \<Longrightarrow>
     readDone H bufs ec ((rs_reader s)\<lparr>rd_reads := ops\<rparr>) = Some m \<Longrightarrow> leaves m r \<Longrightarrow>
     read_step H bufs s (ReadCompleted i) (s\<lparr>rs_reader := r\<rparr>)"
| set_read_handlers: "cb \<noteq> NullFn \<Longrightarrow>
     read_step H bufs s SetReadHandlers
       (s\<lparr>rs_reader := setErrorHandler_r eh (setConnectionAliveHandler_r cb (rs_reader s))\<rparr>)"

inductive_cases read_step_E: "read_step H bufs s e t"

inductive_simps read_step_simps:
  "read_step H bufs s (ScheduleRead t) s'"
  "read_step H bufs s RunPostedRead s'"
  "read_step H bufs s (ReceiveBytes i ec bs) s'"
  "read_step H bufs s (ReadCompleted i) s'"
  "read_step H bufs s SetReadHandlers s'"

text \<open>A handler of the reader that does not return normally: it recurses for ever, lets an
  exception escape or is undefined.\<close>

fun read_bad ::
  "('h, 'u) handlers \<Rightarrow> (byte list \<Rightarrow> byte list list) \<Rightarrow> ('h, 'c, 'u) read_system \<Rightarrow> 'h read_event \<Rightarrow> bool" where
  "read_bad H bufs s RunPostedRead =
     (0 < rd_posted (rs_reader s) \<and> (\<forall>r. runPostedRead H bufs (rs_reader s) \<noteq> Some (Done r)))"
| "read_bad H bufs s (ReadCompleted i) =
     (case take_op i (rd_reads (rs_reader s)) of
        None \<Rightarrow> False
      | Some ((k, ec), ops) \<Rightarrow> \<forall>r. readDone H bufs ec ((rs_reader s)\<lparr>rd_reads := ops\<rparr>) \<noteq> Some (Done r))"
| "read_bad H bufs s e = False"

definition read_op_ok :: "('h, 'c, 'u) reader \<Rightarrow> nat \<times> op_status \<Rightarrow> bool" where
  "read_op_ok r op \<longleftrightarrow>
     rt_handler (rd_pendingTask r) \<noteq> None \<and>
     (snd op = Running \<longrightarrow> length (rd_buffer r) < rt_size (rd_pendingTask r) \<and>
        fst op = rt_size (rd_pendingTask r) - length (rd_buffer r)) \<and>
     (snd op = Ready NoError \<longrightarrow> rt_size (rd_pendingTask r) \<le> length (rd_buffer r))"

definition read_inv :: "('h, 'u) handlers \<Rightarrow> ('h, 'c, 'u) read_system \<Rightarrow> bool" where
  "read_inv H s \<longleftrightarrow>
     (let r = rs_reader s
      in rd_aliveCallback r \<noteq> NullFn \<and> rd_posted r + length (rd_reads r) \<le> 1 \<and>
         read_stream H (rs_entry s) (rs_user s) (rs_input s) (rs_calls s)
           = read_stream H (rd_pendingTask r) (rd_user r) (rd_buffer r) (handled r) \<and>
         (0 < rd_posted r \<longrightarrow> rt_handler (rd_pendingTask r) \<noteq> None) \<and>
         (\<forall>op \<in> set (rd_reads r). read_op_ok r op))"

lemmas read_setup_defs =
  read_init_def new_AsyncReader_def setErrorHandler_r_def setConnectionAliveHandler_r_def scheduleRead_def

lemma read_inv_init: "read_init s \<Longrightarrow> read_inv H s"
  by (auto simp: read_setup_defs read_inv_def Let_def handled_def)

lemma handled_update [simp]:
  "handled (r\<lparr>rd_posted := p\<rparr>) = handled r" "handled (r\<lparr>rd_reads := q\<rparr>) = handled r"
  "handled (r\<lparr>rd_pendingTask := t\<rparr>) = handled r" "handled (r\<lparr>rd_buffer := b\<rparr>) = handled r"
  by (simp_all add: handled_def)

lemma readDone_buffered:
  "rt_size (rd_pendingTask r) \<le> length (rd_buffer r) \<Longrightarrow>
   readDone H bufs NoError r = doRead H bufs (rt_size (rd_pendingTask r)) r"
  by (simp add: doRead_def read_def bufferSize_def)

lemma readDone_failed:
  "failed ec \<Longrightarrow>
   \<exists>tr. readDone H bufs ec r = Some (Done (r\<lparr>rd_trace := tr\<rparr>)) \<and>
        handled (r\<lparr>rd_trace := tr\<rparr>) = handled r"
  by (cases "rd_errorHandler r")
     (auto simp: readDone.simps [of H bufs ec r] read_emit_def handled_def intro: exI [of _ "rd_trace r"])

context read_handlers
begin

text \<open>Running the pending task with no read outstanding keeps the invariant and returns.\<close>

lemma doRead_keeps_inv:
  assumes "rd_aliveCallback r \<noteq> NullFn" and "rt_handler (rd_pendingTask r) \<noteq> None"
    and "rd_posted r = 0" and "rd_reads r = []"
    and "read_stream H (rs_entry s) (rs_user s) (rs_input s) (rs_calls s)
           = read_stream H (rd_pendingTask r) (rd_user r) (rd_buffer r) (handled r)"
  obtains r' where "doRead H bufs (rt_size (rd_pendingTask r)) r = Some (Done r')"
    and "read_inv H (s\<lparr>rs_reader := r'\<rparr>)"
proof -
  obtain r' where r': "doRead H bufs (rt_size (rd_pendingTask r)) r = Some (Done r')" "same_setup r r'"
    "read_stream H (rd_pendingTask r) (rd_user r) (rd_buffer r) (handled r)
       = Some (rd_pendingTask r', rd_user r', rd_buffer r', handled r')"
    "if rt_handler (rd_pendingTask r') = None then rd_reads r' = rd_reads r
     else length (rd_buffer r') < rt_size (rd_pendingTask r') \<and>
          rd_reads r' = start_op (rt_size (rd_pendingTask r') - length (rd_buffer r')) (rd_reads r)"
    using doRead_spec [OF assms(1,2)] by blast
  have "read_inv H (s\<lparr>rs_reader := r'\<rparr>)"
    using r' assms
    by (auto simp: read_inv_def Let_def same_setup_def read_stream_stop read_op_ok_def start_op_def
        split: if_splits)
  with r'(1) that show ?thesis by blast
qed

lemma run_posted_returns:
  assumes "read_inv H s" and "0 < rd_posted (rs_reader s)"
  obtains r where "runPostedRead H bufs (rs_reader s) = Some (Done r)" and "read_inv H (s\<lparr>rs_reader := r\<rparr>)"
proof -
  let ?r = "(rs_reader s)\<lparr>rd_posted := rd_posted (rs_reader s) - 1\<rparr>"
  have "rd_aliveCallback ?r \<noteq> NullFn" "rt_handler (rd_pendingTask ?r) \<noteq> None" "rd_posted ?r = 0"
    "rd_reads ?r = []"
    "read_stream H (rs_entry s) (rs_user s) (rs_input s) (rs_calls s)
       = read_stream H (rd_pendingTask ?r) (rd_user ?r) (rd_buffer ?r) (handled ?r)"
    using assms by (cases "rd_reads (rs_reader s)"; auto simp: read_inv_def Let_def)+
  then obtain r where "doRead H bufs (rt_size (rd_pendingTask ?r)) ?r = Some (Done r)"
    "read_inv H (s\<lparr>rs_reader := r\<rparr>)"
    by (rule doRead_keeps_inv)
  then show ?thesis using that by (simp add: runPostedRead_def)
qed

lemma read_completed_returns:
  assumes inv: "read_inv H s" and op: "take_op i (rd_reads (rs_reader s)) = Some ((k, ec), ops)"
  obtains r where "readDone H bufs ec ((rs_reader s)\<lparr>rd_reads := ops\<rparr>) = Some (Done r)"
    and "read_inv H (s\<lparr>rs_reader := r\<rparr>)"
proof -
  let ?r = "(rs_reader s)\<lparr>rd_reads := ops\<rparr>"
  from inv have "length (rd_reads (rs_reader s)) \<le> 1" by (simp add: read_inv_def Let_def)
  from take_op_only [OF this op] have reads: "rd_reads (rs_reader s) = [(k, Ready ec)]" and ops: "ops = []"
    by simp_all
  show ?thesis
  proof (cases "failed ec")
    case True
    then obtain tr where "readDone H bufs ec ?r = Some (Done (?r\<lparr>rd_trace := tr\<rparr>))"
      and "handled (?r\<lparr>rd_trace := tr\<rparr>) = handled ?r"
      using readDone_failed by blast
    moreover from this(2) have "read_inv H (s\<lparr>rs_reader := ?r\<lparr>rd_trace := tr\<rparr>\<rparr>)"
      using inv ops reads by (simp add: read_inv_def Let_def)
    ultimately show ?thesis using that by blast
  next
    case False
    then have ec: "ec = NoError" by (simp add: failed_def)
    have "rd_aliveCallback ?r \<noteq> NullFn" "rt_handler (rd_pendingTask ?r) \<noteq> None" "rd_posted ?r = 0"
      "rd_reads ?r = []"
      "read_stream H (rs_entry s) (rs_user s) (rs_input s) (rs_calls s)
         = read_stream H (rd_pendingTask ?r) (rd_user ?r) (rd_buffer ?r) (handled ?r)"
      and enough: "rt_size (rd_pendingTask ?r) \<le> length (rd_buffer ?r)"
      using inv ops reads ec by (auto simp: read_inv_def Let_def read_op_ok_def)
    then obtain r where "doRead H bufs (rt_size (rd_pendingTask ?r)) ?r = Some (Done r)"
      "read_inv H (s\<lparr>rs_reader := r\<rparr>)"
      using doRead_keeps_inv by blast
    then show ?thesis using that ec readDone_buffered [OF enough, of H bufs] by simp
  qed
qed

text \<open>After a read that did not fail the reader waits for bytes, or the sequence has ended.\<close>

lemma read_completed_quiet:
  assumes inv: "read_inv H s" and op: "take_op i (rd_reads (rs_reader s)) = Some ((k, NoError), ops)"
    and r: "readDone H bufs NoError ((rs_reader s)\<lparr>rd_reads := ops\<rparr>) = Some (Done r)"
  shows "rt_handler (rd_pendingTask r) = None \<or> (\<exists>k. rd_reads r = [(k, Running)])"
proof -
  let ?r = "(rs_reader s)\<lparr>rd_reads := ops\<rparr>"
  from inv have "length (rd_reads (rs_reader s)) \<le> 1" by (simp add: read_inv_def Let_def)
  from take_op_only [OF this op] have "rd_reads (rs_reader s) = [(k, Ready NoError)]" and ops: "ops = []"
    by simp_all
  with inv have ok: "rd_aliveCallback ?r \<noteq> NullFn" "rt_handler (rd_pendingTask ?r) \<noteq> None"
    "rt_size (rd_pendingTask ?r) \<le> length (rd_buffer ?r)"
    by (auto simp: read_inv_def Let_def read_op_ok_def)
  from doRead_spec [OF ok(1,2)] r readDone_buffered [OF ok(3), of H bufs] ops show ?thesis
    by (auto simp: start_op_def split: if_splits)
qed

lemma receive_keeps_inv:
  assumes inv: "read_inv H s" and op: "finish_op i ec (rd_reads (rs_reader s)) = Some ops"
    and enough: "failed ec \<or> fst (rd_reads (rs_reader s) ! i) \<le> length bs"
  shows "read_inv H (s\<lparr>rs_reader := (rs_reader s)\<lparr>rd_buffer := rd_buffer (rs_reader s) @ bs, rd_reads := ops\<rparr>,
                       rs_input := rs_input s @ bs\<rparr>)"
proof -
  let ?r = "rs_reader s"
  from inv have "length (rd_reads ?r) \<le> 1" by (simp add: read_inv_def Let_def)
  from finish_op_only [OF this op] obtain k where
    k: "rd_reads ?r = [(k, Running)]" "ops = [(k, Ready ec)]" "i = 0" by blast
  obtain q where q: "read_stream H (rd_pendingTask ?r) (rd_user ?r) (rd_buffer ?r) (handled ?r) = Some q"
    using read_stream_total by blast
  obtain t u b c where [simp]: "q = (t, u, b, c)" by (cases q)
  have "read_stream H (rs_entry s) (rs_user s) (rs_input s) (rs_calls s) = Some (t, u, b, c)"
    using inv q by (simp add: read_inv_def Let_def)
  then have "read_stream H (rs_entry s) (rs_user s) (rs_input s @ bs) (rs_calls s)
      = read_stream H (rd_pendingTask ?r) (rd_user ?r) (rd_buffer ?r @ bs) (handled ?r)"
    using q by (simp add: read_stream_more)
  then show ?thesis
    using inv k enough by (auto simp: read_inv_def Let_def read_op_ok_def)
qed

lemma read_inv_step: "read_step H bufs s e t \<Longrightarrow> read_inv H s \<Longrightarrow> read_inv H t"
proof (induction rule: read_step.induct)
  case (schedule_read s t)
  then show ?case
    by (simp add: read_inv_def Let_def scheduleRead_def ReadTask_asserts_def)
next
  case (run_posted_read s m r)
  obtain r' where "runPostedRead H bufs (rs_reader s) = Some (Done r')" "read_inv H (s\<lparr>rs_reader := r'\<rparr>)"
    using run_posted_returns [OF run_posted_read(4,1)] .
  then show ?case using run_posted_read(2,3) by simp
next
  case (receive_bytes i ec s ops bs)
  then show ?case by (blast intro: receive_keeps_inv)
next
  case (read_completed i s k ec ops m r)
  obtain r' where "readDone H bufs ec ((rs_reader s)\<lparr>rd_reads := ops\<rparr>) = Some (Done r')"
    "read_inv H (s\<lparr>rs_reader := r'\<rparr>)"
    using read_completed_returns [OF read_completed(4,1)] .
  then show ?case using read_completed(2,3) by simp
next
  case (set_read_handlers cb s eh)
  then show ?case
    by (simp add: read_inv_def Let_def setErrorHandler_r_def setConnectionAliveHandler_r_def handled_def read_op_ok_def)
qed

text \<open>The buffer holds the last of the bytes that came in.\<close>

lemma doRead_suffix:
  assumes "rd_aliveCallback r \<noteq> NullFn" and "rt_handler (rd_pendingTask r) \<noteq> None"
    and "doRead H bufs (rt_size (rd_pendingTask r)) r = Some m" and "leaves m r'"
  shows "suffix (rd_buffer r') (rd_buffer r)"
  using doRead_spec [OF assms(1,2)] assms(3,4) read_stream_suffix by fastforce

definition read_tail :: "('h, 'c, 'u) read_system \<Rightarrow> bool" where
  "read_tail s \<longleftrightarrow> read_inv H s \<and> suffix (rd_buffer (rs_reader s)) (rs_input s)"

lemma read_tail_step: "read_step H bufs s e t \<Longrightarrow> read_tail s \<Longrightarrow> read_tail t"
proof -
  assume step: "read_step H bufs s e t" and "read_tail s"
  then have "read_inv H t" using read_inv_step by (auto simp: read_tail_def)
  moreover have "suffix (rd_buffer (rs_reader t)) (rs_input t)"
    using step \<open>read_tail s\<close>
  proof (induction rule: read_step.induct)
    case (run_posted_read s m r)
    let ?r = "(rs_reader s)\<lparr>rd_posted := rd_posted (rs_reader s) - 1\<rparr>"
    have "rd_aliveCallback ?r \<noteq> NullFn" "rt_handler (rd_pendingTask ?r) \<noteq> None"
      using run_posted_read(1,4) by (auto simp: read_tail_def read_inv_def Let_def)
    from doRead_suffix [OF this _ run_posted_read(3)] run_posted_read(2,4) show ?case
      by (auto simp: runPostedRead_def read_tail_def intro: suffix_order.trans)
  next
    case (read_completed i s k ec ops m r)
    let ?r = "(rs_reader s)\<lparr>rd_reads := ops\<rparr>"
    have inv: "read_inv H s" using read_completed(4) by (simp add: read_tail_def)
    have "suffix (rd_buffer r) (rd_buffer ?r)"
    proof (cases "failed ec")
      case True
      then show ?thesis using readDone_failed [of ec H bufs ?r] read_completed(2,3) by fastforce
    next
      case False
      then have ec: "ec = NoError" by (simp add: failed_def)
      then have "(k, Ready NoError) \<in> set (rd_reads (rs_reader s))"
        using take_op_in [OF read_completed(1)] by simp
      then have ok: "rd_aliveCallback ?r \<noteq> NullFn" "rt_handler (rd_pendingTask ?r) \<noteq> None"
        "rt_size (rd_pendingTask ?r) \<le> length (rd_buffer ?r)"
        using inv by (auto simp: read_inv_def Let_def read_op_ok_def)
      from doRead_suffix [OF ok(1,2) _ read_completed(3)] read_completed(2) ec readDone_buffered [OF ok(3), of H bufs]
      show ?thesis by simp
    qed
    then show ?case using read_completed(4) by (auto simp: read_tail_def intro: suffix_order.trans)
  qed (auto simp: read_tail_def scheduleRead_def setErrorHandler_r_def setConnectionAliveHandler_r_def)
  ultimately show ?thesis by (simp add: read_tail_def)
qed

lemma read_tail_init: "read_init s \<Longrightarrow> read_tail s"
  by (simp add: read_tail_def read_inv_init) (auto simp: read_setup_defs)

lemma read_inv_safe: "read_inv H s \<Longrightarrow> \<not> read_bad H bufs s e"
proof (cases e)
  case RunPostedRead
  assume "read_inv H s"
  with RunPostedRead show ?thesis by (auto elim: run_posted_returns [of s])
next
  case (ReadCompleted i)
  assume "read_inv H s"
  with ReadCompleted show ?thesis by (auto elim: read_completed_returns [of s] split: option.splits)
qed simp_all

end

sublocale read_handlers \<subseteq> reading: safe_system read_init "read_step H bufs" "read_inv H" "read_bad H bufs"
  by unfold_locales (rule read_inv_init read_inv_step read_inv_safe; assumption)+

sublocale read_handlers \<subseteq> tails: invariant_system read_init "read_step H bufs" read_tail
  by unfold_locales (rule read_tail_init read_tail_step; assumption)+

context read_handlers
begin

lemma buffer_tail: "reachable read_init (read_step H bufs) s \<Longrightarrow> suffix (rd_buffer (rs_reader s)) (rs_input s)"
  using tails.reachable_inv [of s] by (simp add: read_tail_def)

lemma read_reachable_inv: "reachable read_init (read_step H bufs) s \<Longrightarrow> read_inv H s"
  by (rule reading.reachable_inv)

lemma read_reachable_safe: "reachable read_init (read_step H bufs) s \<Longrightarrow> \<not> read_bad H bufs s e"
  by (rule reading.reachable_safe)

end

end
