(* ===== verification/Writer_Machine.thy ===== *)
theory Writer_Machine
  imports Async_Writer
begin

section \<open>The writer with its stream, its timers and its io context\<close>

text \<open>
  The writer of \<open>Async_Writer\<close> driven by its environment: batches are scheduled from any thread,
  the io context runs posted closures in any order, the stream completes writes, time passes,
  timers expire and the io context calls their handlers. Handlers may be set at any time; the
  timeout handler no more once the timeout was reached, when it is of no use.

  What is assumed of the environment is documented behaviour: a write that completes without an
  error has written its whole payload, one that fails a part of it; a wait completes without
  an error only once its deadline has come. What is assumed of the user is what the
  constructors assert: the tasks of a batch have a handler and a buffer.

  The invariant ties the outstanding write to the front of the queue, the queue to what was
  accepted and what was completed, and the bytes on the wire to the completed batches.
\<close>

datatype 'h write_event =
    ScheduleWrite "'h batch" "nat option"
  | RunPostedWrite nat
  | FinishWrite nat error_code nat
  | WriteCompleted nat
  | Tick nat
  | ExpireTimer nat
  | TimerCompleted nat
  | SetWriteHandlers

text \<open>The writer with the clock and a history: the batches and deadlines scheduled, the batches
  pushed on the queue, those popped from it, the bytes the stream has taken, and whether a write
  has failed.\<close>

record ('h, 'c) write_system =
  ws_writer :: "('h, 'c) writer"
  ws_now :: nat
  ws_deadlines :: "nat list"
  ws_accepted :: "'h batch list"
  ws_completed :: "'h batch list"
  ws_wire :: "byte list"
  ws_failed :: bool

definition write_init :: "('h, 'c) write_system \<Rightarrow> bool" where
  "write_init s \<longleftrightarrow>
     (\<exists>eh ah th now. ah \<noteq> NullFn \<and> th \<noteq> NullFn \<and>
        s = \<lparr>ws_writer = setErrorHandler_w eh (setConnectionAliveHandler_w ah
                           (setWriteTimedOutHandler_w th new_AsyncWriter)),
             ws_now = now, ws_deadlines = [], ws_accepted = [], ws_completed = [], ws_wire = [],
             ws_failed = False\<rparr>)"

definition pushed :: "('h, 'c) writer \<Rightarrow> ('h, 'c) writer \<Rightarrow> 'h batch \<Rightarrow> 'h batch list" where
  "pushed w w' tasks = (if length (wr_tasksQueue w) < length (wr_tasksQueue w') then [tasks] else [])"

inductive write_step :: "('h, 'c) write_system \<Rightarrow> 'h write_event \<Rightarrow> ('h, 'c) write_system \<Rightarrow> bool" where
  schedule_write: "\<forall>t \<in> set tasks. WriteTask_asserts t \<Longrightarrow>
     write_step s (ScheduleWrite tasks deadline)
       (s\<lparr>ws_writer := scheduleWrite tasks deadline (ws_writer s),
          ws_deadlines := ws_deadlines s @ (case deadline of None \<Rightarrow> [] | Some d \<Rightarrow> [d])\<rparr>)"
| run_posted_write: "i < length (wr_posted (ws_writer s)) \<Longrightarrow>
     leaves (runPostedWrite (ws_now s) i (ws_writer s)) w \<Longrightarrow>
     write_step s (RunPostedWrite i)
       (s\<lparr>ws_writer := w,
          ws_accepted := ws_accepted s @ pushed (ws_writer s) w (fst (wr_posted (ws_writer s) ! i))\<rparr>)"
| finish_write: "finish_op i ec (wr_writes (ws_writer s)) = Some ops \<Longrightarrow>
     (\<not> failed ec \<longrightarrow> n = length (fst (wr_writes (ws_writer s) ! i))) \<Longrightarrow>
     write_step s (FinishWrite i ec n)
       (s\<lparr>ws_writer := (ws_writer s)\<lparr>wr_writes := ops\<rparr>,
          ws_wire := ws_wire s @ take n (fst (wr_writes (ws_writer s) ! i)),
          ws_failed := ws_failed s \<or> failed ec\<rparr>)"
| write_completed: "take_op i (wr_writes (ws_writer s)) = Some ((payload, ec), ops) \<Longrightarrow>
     leaves (writeDone ec ((ws_writer s)\<lparr>wr_writes := ops\<rparr>)) w \<Longrightarrow>
     write_step s (WriteCompleted i)
       (s\<lparr>ws_writer := w, ws_completed := ws_completed s @ [fst (hd (wr_tasksQueue (ws_writer s)))]\<rparr>)"
| tick: "write_step s (Tick n) (s\<lparr>ws_now := ws_now s + n\<rparr>)"
| expire_timer: "i < length (wr_waits (ws_writer s)) \<Longrightarrow> snd (fst (wr_waits (ws_writer s) ! i)) \<le> ws_now s \<Longrightarrow>
     finish_op i NoError (wr_waits (ws_writer s)) = Some ops \<Longrightarrow>
     write_step s (ExpireTimer i) (s\<lparr>ws_writer := (ws_writer s)\<lparr>wr_waits := ops\<rparr>\<rparr>)"
| timer_completed: "take_op i (wr_waits (ws_writer s)) = Some ((k, ec), ops) \<Longrightarrow>
     leaves (deadlineHandler ec True ((ws_writer s)\<lparr>wr_waits := ops\<rparr>)) w \<Longrightarrow>
     write_step s (TimerCompleted i) (s\<lparr>ws_writer := w\<rparr>)"
| set_write_handlers: "ah \<noteq> NullFn \<Longrightarrow> th \<noteq> NullFn \<Longrightarrow>
     wr_timeoutReached (ws_writer s) \<longrightarrow> th = wr_timeoutHandler (ws_writer s) \<Longrightarrow>
     write_step s SetWriteHandlers
       (s\<lparr>ws_writer := setErrorHandler_w eh (setConnectionAliveHandler_w ah
                         (setWriteTimedOutHandler_w th (ws_writer s)))\<rparr>)"

inductive_cases write_step_E: "write_step s e t"

inductive_simps write_step_simps:
  "write_step s (ScheduleWrite tasks deadline) t"
  "write_step s (RunPostedWrite i) t"
  "write_step s (FinishWrite i ec n) t"
  "write_step s (WriteCompleted i) t"
  "write_step s (Tick n) t"
  "write_step s (ExpireTimer i) t"
  "write_step s (TimerCompleted i) t"
  "write_step s SetWriteHandlers t"

text \<open>A handler that does not return normally.\<close>

definition is_Done :: "'s outcome \<Rightarrow> bool" where
  "is_Done m \<longleftrightarrow> (\<exists>s. m = Done s)"

fun write_bad :: "('h, 'c) write_system \<Rightarrow> 'h write_event \<Rightarrow> bool" where
  "write_bad s (RunPostedWrite i) =
     (i < length (wr_posted (ws_writer s)) \<and> \<not> is_Done (runPostedWrite (ws_now s) i (ws_writer s)))"
| "write_bad s (WriteCompleted i) =
     (case take_op i (wr_writes (ws_writer s)) of
        None \<Rightarrow> False
      | Some ((payload, ec), ops) \<Rightarrow> \<not> is_Done (writeDone ec ((ws_writer s)\<lparr>wr_writes := ops\<rparr>)))"
| "write_bad s (TimerCompleted i) =
     (case take_op i (wr_waits (ws_writer s)) of
        None \<Rightarrow> False
      | Some ((k, ec), ops) \<Rightarrow> \<not> is_Done (deadlineHandler ec True ((ws_writer s)\<lparr>wr_waits := ops\<rparr>)))"
| "write_bad s e = False"

subsection \<open>The invariant\<close>

text \<open>The callbacks are set and the tasks are what the constructor asserts.\<close>

definition writer_ok :: "('h, 'c) writer \<Rightarrow> bool" where
  "writer_ok w \<longleftrightarrow> wr_timeoutHandler w \<noteq> NullFn \<and> wr_aliveCallback w \<noteq> NullFn \<and>
     (\<forall>(tasks, d) \<in> set (wr_posted w). \<forall>t \<in> set tasks. WriteTask_asserts t) \<and>
     (\<forall>(tasks, d) \<in> set (wr_tasksQueue w). \<forall>t \<in> set tasks. WriteTask_asserts t)"

text \<open>The outstanding write, if there is one, is the front batch.\<close>

definition write_in_flight :: "('h, 'c) writer \<Rightarrow> bool" where
  "write_in_flight w \<longleftrightarrow>
     wr_writes w = [] \<or>
     (\<exists>st front rest. wr_tasksQueue w = front # rest \<and> wr_writes w = [(batch_bytes (fst front), st)])"

definition timeouts_once :: "('h, 'c) writer \<Rightarrow> bool" where
  "timeouts_once w \<longleftrightarrow> wr_timeouts w = (if wr_timeoutReached w then callback_list (wr_timeoutHandler w) else [])"

text \<open>Nothing is timed out before a deadline of the user has come.\<close>

definition deadlines_ok :: "('h, 'c) write_system \<Rightarrow> bool" where
  "deadlines_ok s \<longleftrightarrow>
     (\<forall>(tasks, d) \<in> set (wr_posted (ws_writer s)). \<forall>v. d = Some v \<longrightarrow> v \<in> set (ws_deadlines s)) \<and>
     (\<forall>((t, v), st) \<in> set (wr_waits (ws_writer s)). v \<in> set (ws_deadlines s) \<and> (st = Ready NoError \<longrightarrow> v \<le> ws_now s)) \<and>
     (wr_timeoutReached (ws_writer s) \<longrightarrow> (\<exists>v \<in> set (ws_deadlines s). v \<le> ws_now s))"

text \<open>What the queue, the trace and the wire say of the batches.\<close>

definition fifo_ok :: "('h, 'c) write_system \<Rightarrow> bool" where
  "fifo_ok s \<longleftrightarrow>
     ws_accepted s = ws_completed s @ map fst (wr_tasksQueue (ws_writer s)) \<and>
     wr_handled (ws_writer s) = concat (map batch_handlers (ws_completed s))"

definition wire_ok :: "('h, 'c) write_system \<Rightarrow> bool" where
  "wire_ok s \<longleftrightarrow>
     ws_failed s \<or>
     ws_wire s = concat (map batch_bytes (ws_completed s)) @
       (case wr_writes (ws_writer s) of (payload, Ready NoError) # _ \<Rightarrow> payload | _ \<Rightarrow> []) \<and>
     (\<forall>(payload, st) \<in> set (wr_writes (ws_writer s)). st = Running \<or> st = Ready NoError)"

definition writer_busy :: "('h, 'c) write_system \<Rightarrow> bool" where
  "writer_busy s \<longleftrightarrow>
     ws_failed s \<or> wr_timeoutReached (ws_writer s) \<or>
     (wr_tasksQueue (ws_writer s) \<noteq> [] \<longrightarrow> wr_writes (ws_writer s) \<noteq> [])"

definition write_inv :: "('h, 'c) write_system \<Rightarrow> bool" where
  "write_inv s \<longleftrightarrow> writer_ok (ws_writer s) \<and> write_in_flight (ws_writer s) \<and> timeouts_once (ws_writer s) \<and>
     deadlines_ok s \<and> fifo_ok s \<and> wire_ok s \<and> writer_busy s"

lemmas write_inv_defs =
  writer_ok_def write_in_flight_def timeouts_once_def deadlines_ok_def fifo_ok_def wire_ok_def writer_busy_def

subsection \<open>The handlers return\<close>

text \<open>Under the invariant no handler throws; these equations say what each leaves.\<close>

definition started :: "'h batch \<Rightarrow> ('h, 'c) writer \<Rightarrow> ('h, 'c) writer" where
  "started b w =
     (if wr_timeoutReached w then w
      else w\<lparr>wr_writes := start_op (batch_bytes b) (wr_writes w), wr_trace := wr_trace w @ [WriteStarted (batch_bytes b)]\<rparr>)"

definition timed_out :: "('h, 'c) writer \<Rightarrow> ('h, 'c) writer" where
  "timed_out w =
     (if wr_timeoutReached w then w
      else w\<lparr>wr_timeoutReached := True,
             wr_trace := wr_trace w @ map WriteTimedOut (callback_list (wr_timeoutHandler w))\<rparr>)"

definition enqueued :: "'h batch \<Rightarrow> nat option \<Rightarrow> ('h, 'c) writer \<Rightarrow> ('h, 'c) writer" where
  "enqueued tasks timer w =
     (let w' = w\<lparr>wr_tasksQueue := wr_tasksQueue w @ [(tasks, timer)]\<rparr>
      in if wr_tasksQueue w = [] then started tasks w' else w')"

definition queued :: "nat \<Rightarrow> 'h batch \<Rightarrow> nat option \<Rightarrow> ('h, 'c) writer \<Rightarrow> ('h, 'c) writer" where
  "queued now tasks d w =
     (if wr_timeoutReached w then w
      else case d of
             None \<Rightarrow> enqueued tasks None w
           | Some v \<Rightarrow> if v < now then timed_out w
                       else enqueued tasks (Some (wr_nextTimer w)) (snd (setupDeadlineTimer v w)))"

definition written :: "error_code \<Rightarrow> ('h, 'c) writer \<Rightarrow> ('h, 'c) writer" where
  "written ec w =
     (let front = hd (wr_tasksQueue w); rest = tl (wr_tasksQueue w);
          w1 = (cancelTimer (snd front) w)\<lparr>wr_tasksQueue := rest\<rparr>;
          trace = wr_trace w @ map WriteHandled (batch_handlers (fst front))
      in if failed ec
         then w1\<lparr>wr_trace := trace @ (case wr_errorHandler w of
                NullFn \<Rightarrow> [WriteFailLogged ec] | NoOpFn \<Rightarrow> [] | Fn c \<Rightarrow> [WriteFailed c ec])\<rparr>
         else let w2 = w1\<lparr>wr_trace := trace @ map WriteAlive (callback_list (wr_aliveCallback w))\<rparr>
              in case rest of [] \<Rightarrow> w2 | b # _ \<Rightarrow> started (fst b) w2)"

lemma doWrite_Done: "doWrite b w = Done (started (fst b) w)"
  by (simp add: doWrite_def started_def write_emit_def Let_def)

lemma onTimeoutReached_Done:
  "wr_timeoutHandler w \<noteq> NullFn \<Longrightarrow> onTimeoutReached w = Done (timed_out w)"
  by (cases "wr_timeoutHandler w") (auto simp: onTimeoutReached_def timed_out_def write_emit_def)

lemma queueBatchWrite_Done:
  assumes "wr_timeoutHandler w \<noteq> NullFn"
  shows "queueBatchWrite now tasks d w = Done (queued now tasks d w)"
  using assms
  by (cases "wr_tasksQueue w")
     (auto simp: queueBatchWrite_def queued_def enqueued_def onTimeoutReached_Done doWrite_Done
        setupDeadlineTimer_def Let_def split: option.splits)

lemma cancelTimer_fields [simp]:
  "wr_tasksQueue (cancelTimer t w) = wr_tasksQueue w" "wr_trace (cancelTimer t w) = wr_trace w"
  "wr_errorHandler (cancelTimer t w) = wr_errorHandler w"
  "wr_aliveCallback (cancelTimer t w) = wr_aliveCallback w"
  "wr_timeoutHandler (cancelTimer t w) = wr_timeoutHandler w"
  "wr_timeoutReached (cancelTimer t w) = wr_timeoutReached w"
  "wr_writes (cancelTimer t w) = wr_writes w" "wr_posted (cancelTimer t w) = wr_posted w"
  "cancelTimer t (w\<lparr>wr_trace := tr\<rparr>) = (cancelTimer t w)\<lparr>wr_trace := tr\<rparr>"
  by (simp_all add: cancelTimer_def split: option.splits)

lemma writeDone_Done:
  assumes "wr_tasksQueue w = front # rest" and "\<forall>t \<in> set (fst front). WriteTask_asserts t"
    and "wr_aliveCallback w \<noteq> NullFn"
  shows "writeDone ec w = Done (written ec w)"
  using assms
  by (cases "wr_aliveCallback w"; cases "wr_errorHandler w"; cases rest)
     (auto simp: writeDone_def written_def callWriteHandlers_Done doWrite_Done write_emit_def started_def
        Let_def)

lemma deadlineHandler_Done:
  "wr_timeoutHandler w \<noteq> NullFn \<Longrightarrow>
   deadlineHandler ec True w = Done (if failed ec then w else timed_out w)"
  by (simp add: deadlineHandler_def onTimeoutReached_Done)

subsection \<open>The invariant is kept\<close>

lemma write_inv_init: "write_init s \<Longrightarrow> write_inv s"
  by (auto simp: write_init_def writer_defs write_inv_def write_inv_defs trace_views)

lemma runPostedWrite_Done:
  assumes "writer_ok w"
  shows "runPostedWrite now i w =
     Done (queued now (fst (wr_posted w ! i)) (snd (wr_posted w ! i))
             (w\<lparr>wr_posted := take i (wr_posted w) @ drop (Suc i) (wr_posted w)\<rparr>))"
  using assms by (simp add: runPostedWrite_def writer_ok_def queueBatchWrite_Done split: prod.splits)

text \<open>Pushing a batch, with a deadline that has not come or without one.\<close>

lemma enqueued_keeps_inv:
  assumes "write_inv s" and "\<forall>t \<in> set tasks. WriteTask_asserts t" and "\<not> wr_timeoutReached (ws_writer s)"
  shows "write_inv (s\<lparr>ws_writer := enqueued tasks timer (ws_writer s), ws_accepted := ws_accepted s @ [tasks]\<rparr>)"
  using assms
  by (auto simp: write_inv_def write_inv_defs enqueued_def started_def trace_views start_op_def Let_def)

lemma timed_out_keeps_inv:
  assumes "write_inv s" and "\<exists>v \<in> set (ws_deadlines s). v \<le> ws_now s"
  shows "write_inv (s\<lparr>ws_writer := timed_out (ws_writer s)\<rparr>)"
  using assms
  by (cases "wr_timeoutHandler (ws_writer s)")
     (auto simp: write_inv_def write_inv_defs timed_out_def trace_views)

lemma drop_posted_keeps_inv:
  assumes "write_inv s"
  shows "write_inv (s\<lparr>ws_writer := (ws_writer s)
           \<lparr>wr_posted := take i (wr_posted (ws_writer s)) @ drop (Suc i) (wr_posted (ws_writer s))\<rparr>\<rparr>)"
proof -
  have "set (take i xs @ drop (Suc i) xs) \<subseteq> set xs" for xs :: "('a batch \<times> nat option) list"
    using set_take_subset [of i xs] set_drop_subset [of "Suc i" xs] by auto
  from this [of "wr_posted (ws_writer s)"] assms show ?thesis
    by (fastforce simp: write_inv_def write_inv_defs trace_views)
qed

lemma setup_timer_keeps_inv:
  assumes "write_inv s" and "v \<in> set (ws_deadlines s)"
  shows "write_inv (s\<lparr>ws_writer := snd (setupDeadlineTimer v (ws_writer s))\<rparr>)"
  using assms
  by (auto simp: write_inv_def write_inv_defs setupDeadlineTimer_def trace_views start_op_def)

lemma run_posted_keeps_inv:
  assumes inv: "write_inv s" and i: "i < length (wr_posted (ws_writer s))"
    and w: "leaves (runPostedWrite (ws_now s) i (ws_writer s)) w"
  shows "write_inv (s\<lparr>ws_writer := w,
           ws_accepted := ws_accepted s @ pushed (ws_writer s) w (fst (wr_posted (ws_writer s) ! i))\<rparr>)"
proof -
  obtain tasks d where at: "wr_posted (ws_writer s) ! i = (tasks, d)" by fastforce
  let ?w0 = "(ws_writer s)\<lparr>wr_posted := take i (wr_posted (ws_writer s)) @ drop (Suc i) (wr_posted (ws_writer s))\<rparr>"
  let ?s0 = "s\<lparr>ws_writer := ?w0\<rparr>"
  have "(tasks, d) \<in> set (wr_posted (ws_writer s))" using at i nth_mem by fastforce
  then have asserts: "\<forall>t \<in> set tasks. WriteTask_asserts t"
    and dl: "\<And>v. d = Some v \<Longrightarrow> v \<in> set (ws_deadlines s)"
    using inv by (auto simp: write_inv_def writer_ok_def deadlines_ok_def)
  have s0: "write_inv ?s0" using inv by (rule drop_posted_keeps_inv)
  have w_eq: "w = queued (ws_now s) tasks d ?w0"
    using w inv at by (simp add: runPostedWrite_Done write_inv_def)
  have same: "wr_tasksQueue ?w0 = wr_tasksQueue (ws_writer s)" by simp
  consider (dead) "wr_timeoutReached ?w0"
    | (none) "\<not> wr_timeoutReached ?w0" "d = None"
    | (late) v where "\<not> wr_timeoutReached ?w0" "d = Some v" "v < ws_now s"
    | (timer) v where "\<not> wr_timeoutReached ?w0" "d = Some v" "\<not> v < ws_now s"
    by (cases d) auto
  then show ?thesis
  proof cases
    case dead
    then have "w = ?w0" using w_eq by (simp add: queued_def)
    then show ?thesis using s0 by (simp add: pushed_def)
  next
    case none
    then have "w = enqueued tasks None ?w0" using w_eq by (simp add: queued_def)
    moreover have "pushed (ws_writer s) (enqueued tasks None ?w0) tasks = [tasks]"
      by (simp add: pushed_def enqueued_def started_def Let_def)
    ultimately show ?thesis
      using enqueued_keeps_inv [OF s0 asserts, of None] none(1) at by simp
  next
    case (late v)
    then have "w = timed_out ?w0" using w_eq by (simp add: queued_def)
    moreover have "pushed (ws_writer s) (timed_out ?w0) tasks = []"
      by (simp add: pushed_def timed_out_def)
    moreover have "\<exists>v \<in> set (ws_deadlines s). v \<le> ws_now s"
      using dl [OF late(2)] late(3) by (intro bexI [of _ v]) simp_all
    ultimately show ?thesis using timed_out_keeps_inv [OF s0] at by simp
  next
    case (timer v)
    let ?w1 = "snd (setupDeadlineTimer v ?w0)"
    have s1: "write_inv (s\<lparr>ws_writer := ?w1\<rparr>)"
      using setup_timer_keeps_inv [OF s0, of v] dl timer by simp
    have "w = enqueued tasks (Some (wr_nextTimer ?w0)) ?w1"
      using w_eq timer by (simp add: queued_def)
    moreover have "\<not> wr_timeoutReached ?w1" using timer(1) by (simp add: setupDeadlineTimer_def)
    moreover have "pushed (ws_writer s) (enqueued tasks (Some (wr_nextTimer ?w0)) ?w1) tasks = [tasks]"
      by (simp add: pushed_def enqueued_def started_def setupDeadlineTimer_def Let_def)
    ultimately show ?thesis
      using enqueued_keeps_inv [OF s1 asserts, of "Some (wr_nextTimer ?w0)"] at by simp
  qed
qed

lemma cancel_timer_waits:
  "((t, v), st) \<in> set (wr_waits (cancelTimer d w)) \<Longrightarrow>
   \<exists>st'. ((t, v), st') \<in> set (wr_waits w) \<and> (st = Ready NoError \<longrightarrow> st' = Ready NoError)"
  by (cases d) (auto simp: cancelTimer_def cancel_ops_def split: if_splits)

text \<open>The outstanding write has completed: its handler finds its batch at the front.\<close>

lemma write_completed_front:
  assumes "write_inv s" and "take_op i (wr_writes (ws_writer s)) = Some ((payload, ec), ops)"
  obtains front rest where "wr_tasksQueue (ws_writer s) = front # rest"
    and "payload = batch_bytes (fst front)" and "ops = []"
    and "wr_writes (ws_writer s) = [(payload, Ready ec)]"
    and "\<forall>t \<in> set (fst front). WriteTask_asserts t"
proof -
  have short: "length (wr_writes (ws_writer s)) \<le> 1"
    using assms(1) by (auto simp: write_inv_def write_in_flight_def)
  from take_op_only [OF short assms(2)] have "wr_writes (ws_writer s) = [(payload, Ready ec)]" "ops = []"
    by simp_all
  moreover from this(1) obtain front rest where "wr_tasksQueue (ws_writer s) = front # rest"
    "payload = batch_bytes (fst front)"
    using assms(1) by (auto simp: write_inv_def write_in_flight_def)
  moreover from this(1) have "\<forall>t \<in> set (fst front). WriteTask_asserts t"
    using assms(1) by (auto simp: write_inv_def writer_ok_def)
  ultimately show ?thesis using that by blast
qed

lemma write_completed_Done:
  assumes "write_inv s" and "take_op i (wr_writes (ws_writer s)) = Some ((payload, ec), ops)"
  shows "writeDone ec ((ws_writer s)\<lparr>wr_writes := ops\<rparr>) = Done (written ec ((ws_writer s)\<lparr>wr_writes := ops\<rparr>))"
proof -
  obtain front rest where "wr_tasksQueue (ws_writer s) = front # rest" "\<forall>t \<in> set (fst front). WriteTask_asserts t"
    using assms by (rule write_completed_front)
  moreover have "wr_aliveCallback (ws_writer s) \<noteq> NullFn"
    using assms(1) by (simp add: write_inv_def writer_ok_def)
  ultimately show ?thesis by (intro writeDone_Done [of _ front rest]) simp_all
qed

lemma written_keeps_inv:
  assumes inv: "write_inv s" and op: "take_op i (wr_writes (ws_writer s)) = Some ((payload, ec), ops)"
  shows "write_inv (s\<lparr>ws_writer := written ec ((ws_writer s)\<lparr>wr_writes := ops\<rparr>),
           ws_completed := ws_completed s @ [fst (hd (wr_tasksQueue (ws_writer s)))]\<rparr>)"
    (is "write_inv ?t")
proof -
  obtain front rest where q: "wr_tasksQueue (ws_writer s) = front # rest" "payload = batch_bytes (fst front)"
    "ops = []" "wr_writes (ws_writer s) = [(payload, Ready ec)]" "\<forall>t \<in> set (fst front). WriteTask_asserts t"
    using inv op by (rule write_completed_front)
  have ok: "writer_ok (ws_writer ?t)"
    using inv q by (auto simp: write_inv_def writer_ok_def written_def started_def Let_def split: list.splits)
  moreover have "write_in_flight (ws_writer ?t)"
    using q by (auto simp: write_in_flight_def written_def started_def start_op_def Let_def split: list.splits)
  moreover have "timeouts_once (ws_writer ?t)"
    using inv q
    by (auto simp: write_inv_def timeouts_once_def trace_views written_def started_def Let_def
        split: list.splits callback.splits)
  moreover have "deadlines_ok ?t"
    using inv q
    by (fastforce simp: write_inv_def deadlines_ok_def written_def started_def Let_def
        dest: cancel_timer_waits split: list.splits)
  moreover have "fifo_ok ?t"
    using inv q
    by (auto simp: write_inv_def fifo_ok_def trace_views written_def started_def Let_def
        split: list.splits callback.splits)
  moreover have "wire_ok ?t"
    using inv q
    by (auto simp: write_inv_def wire_ok_def written_def started_def start_op_def failed_def Let_def
        split: list.splits op_status.splits error_code.splits)
  moreover have "writer_busy ?t"
    using inv q
    by (auto simp: write_inv_def writer_busy_def wire_ok_def written_def started_def start_op_def failed_def Let_def
        split: list.splits)
  ultimately show ?thesis by (simp add: write_inv_def)
qed

lemma finish_write_keeps_inv:
  assumes inv: "write_inv s" and op: "finish_op i ec (wr_writes (ws_writer s)) = Some ops"
    and n: "\<not> failed ec \<longrightarrow> n = length (fst (wr_writes (ws_writer s) ! i))"
  shows "write_inv (s\<lparr>ws_writer := (ws_writer s)\<lparr>wr_writes := ops\<rparr>,
           ws_wire := ws_wire s @ take n (fst (wr_writes (ws_writer s) ! i)),
           ws_failed := ws_failed s \<or> failed ec\<rparr>)"
proof -
  have short: "length (wr_writes (ws_writer s)) \<le> 1"
    using inv by (auto simp: write_inv_def write_in_flight_def)
  from finish_op_only [OF short op] obtain k where
    "wr_writes (ws_writer s) = [(k, Running)]" "ops = [(k, Ready ec)]" "i = 0" by blast
  then show ?thesis
    using inv n
    by (cases "failed ec") (auto simp: write_inv_def write_inv_defs trace_views not_failed_iff)
qed

lemma finish_op_in:
  "finish_op i ec ops = Some ops' \<Longrightarrow> (k, st) \<in> set ops' \<Longrightarrow>
   (k, st) \<in> set ops \<or> (st = Ready ec \<and> k = fst (ops ! i) \<and> ops ! i \<in> set ops)"
  by (auto simp: finish_op_def split: if_splits dest!: set_update_subset_insert [THEN subsetD])

lemma expire_timer_keeps_inv:
  assumes inv: "write_inv s" and op: "finish_op i NoError (wr_waits (ws_writer s)) = Some ops"
    and due: "snd (fst (wr_waits (ws_writer s) ! i)) \<le> ws_now s"
  shows "write_inv (s\<lparr>ws_writer := (ws_writer s)\<lparr>wr_waits := ops\<rparr>\<rparr>)"
proof -
  have "\<forall>((t, v), st) \<in> set ops. v \<in> set (ws_deadlines s) \<and> (st = Ready NoError \<longrightarrow> v \<le> ws_now s)"
    using inv due by (fastforce simp: write_inv_def deadlines_ok_def dest: finish_op_in [OF op])
  then show ?thesis
    using inv by (auto simp: write_inv_def write_inv_defs trace_views)
qed

lemma timer_completed_keeps_inv:
  assumes inv: "write_inv s" and op: "take_op i (wr_waits (ws_writer s)) = Some ((k, ec), ops)"
    and w: "leaves (deadlineHandler ec True ((ws_writer s)\<lparr>wr_waits := ops\<rparr>)) w"
  shows "write_inv (s\<lparr>ws_writer := w\<rparr>)"
proof -
  obtain t v where k: "k = (t, v)" by fastforce
  from take_op_split [OF op] obtain a b where ab: "wr_waits (ws_writer s) = a @ (k, Ready ec) # b" "ops = a @ b"
    by blast
  let ?s0 = "s\<lparr>ws_writer := (ws_writer s)\<lparr>wr_waits := ops\<rparr>\<rparr>"
  have s0: "write_inv ?s0"
    using inv ab by (auto simp: write_inv_def write_inv_defs trace_views)
  have w_eq: "w = (if failed ec then ws_writer ?s0 else timed_out (ws_writer ?s0))"
    using w inv by (simp add: deadlineHandler_Done write_inv_def writer_ok_def split: if_splits)
  show ?thesis
  proof (cases "failed ec")
    case True
    then show ?thesis using s0 w_eq by simp
  next
    case False
    then have "\<exists>v \<in> set (ws_deadlines s). v \<le> ws_now s"
      using inv ab k by (fastforce simp: write_inv_def deadlines_ok_def failed_def)
    then show ?thesis using timed_out_keeps_inv [OF s0] w_eq False by simp
  qed
qed

lemma write_inv_step: "write_step s e t \<Longrightarrow> write_inv s \<Longrightarrow> write_inv t"
proof (induction rule: write_step.induct)
  case (schedule_write tasks s deadline)
  then show ?case
    by (auto simp: write_inv_def write_inv_defs scheduleWrite_def trace_views split: option.splits)
next
  case (run_posted_write i s w)
  then show ?case by (blast intro: run_posted_keeps_inv)
next
  case (finish_write i ec s ops n)
  then show ?case by (blast intro: finish_write_keeps_inv)
next
  case (write_completed i s payload ec ops w)
  then show ?case using written_keeps_inv write_completed_Done by fastforce
next
  case (tick s n)
  then have "deadlines_ok s" by (simp add: write_inv_def)
  moreover have later: "v \<le> ws_now s \<Longrightarrow> v \<le> ws_now s + n" for v by simp
  ultimately have "deadlines_ok (s\<lparr>ws_now := ws_now s + n\<rparr>)"
    unfolding deadlines_ok_def by (auto dest: later)
  with tick show ?case by (simp add: write_inv_def fifo_ok_def wire_ok_def writer_busy_def)
next
  case (expire_timer i s ops)
  then show ?case by (blast intro: expire_timer_keeps_inv)
next
  case (timer_completed i s k ec ops w)
  then show ?case by (blast intro: timer_completed_keeps_inv)
next
  case (set_write_handlers ah th s eh)
  then show ?case
    by (auto simp: write_inv_def write_inv_defs trace_views writer_defs)
qed

lemma write_inv_safe: "write_inv s \<Longrightarrow> \<not> write_bad s e"
proof (cases e)
  case (RunPostedWrite i)
  assume "write_inv s"
  with RunPostedWrite show ?thesis
    by (simp add: is_Done_def write_inv_def runPostedWrite_Done)
next
  case (WriteCompleted i)
  assume "write_inv s"
  with WriteCompleted show ?thesis
    by (auto simp: is_Done_def write_completed_Done split: option.splits)
next
  case (TimerCompleted i)
  assume "write_inv s"
  with TimerCompleted show ?thesis
    by (auto simp: is_Done_def write_inv_def writer_ok_def deadlineHandler_Done split: option.splits)
qed simp_all

interpretation writing: safe_system write_init write_step write_inv write_bad
  by unfold_locales (rule write_inv_init write_inv_step write_inv_safe; assumption)+

end
