(* ===== verification/Session_Io.thy ===== *)
theory Session_Io
  imports Session_Machine Reader_Machine Writer_Machine
begin

section \<open>The whole session: control, reading and writing\<close>

text \<open>
  The session of \<open>Session\<close> with everything it drives: the events of \<open>Session_Machine\<close> and those of its
  reader and its writer, whose handlers run the closures that the session has installed. Dropping
  the session destroys neither the reader nor the writer: posted closures and outstanding
  operations keep them, and go on.

  \<open>reader_of\<close> and \<open>writer_of\<close> are what the machines of the reader and the writer see of it. Every
  step of the session is a run of each of them, so that what was proved of the reader and the
  writer holds of those of every session.

  The user of the session starts the monitoring with a callback that is not empty, and sets
  handlers and schedules reads and writes only while holding the session.
\<close>

datatype ('h, 'w, 'c) io_event =
    Control "'c session_event"
  | Drop nat
  | SessionRead "'h read_task"
  | RunRead
  | Receive nat error_code "byte list"
  | CompleteRead nat
  | SessionWrite "'w batch" "nat option"
  | RunWrite nat
  | Transmit nat error_code nat
  | CompleteWrite nat
  | ExpireDeadline nat
  | CompleteDeadline nat
  | SetErrorHandlers "'c callback" "'c callback"
  | SetTimedOutHandler "'c callback"

text \<open>The session with the history that the machines of its reader and its writer keep.\<close>

record ('ctx, 'h, 'w, 'c, 'u) io_system =
  io_sys :: "('ctx, 'h, 'w, 'c, 'u) session_system"
  io_entry :: "'h read_task"
  io_user :: 'u
  io_calls :: "('h \<times> byte list) list"
  io_input :: "byte list"
  io_deadlines :: "nat list"
  io_accepted :: "'w batch list"
  io_completed :: "'w batch list"
  io_wire :: "byte list"
  io_failed :: bool

abbreviation io_session :: "('ctx, 'h, 'w, 'c, 'u) io_system \<Rightarrow> ('ctx, 'h, 'w, 'c, 'u) session" where
  "io_session s \<equiv> ss_session (io_sys s)"

definition put_session ::
  "('ctx, 'h, 'w, 'c, 'u) session \<Rightarrow> ('ctx, 'h, 'w, 'c, 'u) io_system \<Rightarrow> ('ctx, 'h, 'w, 'c, 'u) io_system" where
  "put_session x s = s\<lparr>io_sys := (io_sys s)\<lparr>ss_session := x\<rparr>\<rparr>"

definition io_init :: "('ctx, 'h, 'w, 'c, 'u) io_system \<Rightarrow> bool" where
  "io_init s \<longleftrightarrow> session_init (io_sys s) \<and> io_entry s = ReadTask_default \<and>
     io_user s = rd_user (se_reader (io_session s)) \<and> io_calls s = [] \<and> io_input s = [] \<and>
     io_deadlines s = [] \<and> io_accepted s = [] \<and> io_completed s = [] \<and> io_wire s = [] \<and> \<not> io_failed s"

text \<open>The operations of the stream that are cancelled when the session is dropped may have transferred
  a part of their bytes.\<close>

inductive io_step ::
  "('h, 'u) handlers \<Rightarrow> (byte list \<Rightarrow> byte list list) \<Rightarrow> (error_code \<Rightarrow> string) \<Rightarrow>
   ('ctx, 'h, 'w, 'c, 'u) io_system \<Rightarrow> ('h, 'w, 'c) io_event \<Rightarrow> ('ctx, 'h, 'w, 'c, 'u) io_system \<Rightarrow> bool"
  for H :: "('h, 'u) handlers" and bufs :: "byte list \<Rightarrow> byte list list" and msg :: "error_code \<Rightarrow> string"
where
  io_control: "session_step (io_sys s) e x \<Longrightarrow> e \<noteq> DropSession \<Longrightarrow> (\<forall>p. e \<noteq> StartMonitoring NullFn p) \<Longrightarrow>
     io_step H bufs msg s (Control e) (s\<lparr>io_sys := x\<rparr>)"
| io_drop: "se_exists (io_session s) \<Longrightarrow>
     io_step H bufs msg s (Drop n)
       ((put_session (destroy_Session (io_session s)) s)
          \<lparr>io_wire := io_wire s @ (case running (wr_writes (se_writer (io_session s))) of [] \<Rightarrow> [] | p # _ \<Rightarrow> take n p),
           io_failed := io_failed s \<or> running (wr_writes (se_writer (io_session s))) \<noteq> []\<rparr>)"
| io_schedule_read: "se_exists (io_session s) \<Longrightarrow> rd_posted (se_reader (io_session s)) = 0 \<Longrightarrow>
     rd_reads (se_reader (io_session s)) = [] \<Longrightarrow> ReadTask_asserts t \<Longrightarrow>
     io_step H bufs msg s (SessionRead t)
       ((put_session (scheduleRead_s t (io_session s)) s)
          \<lparr>io_entry := t, io_user := rd_user (se_reader (io_session s)),
           io_calls := handled (se_reader (io_session s)), io_input := rd_buffer (se_reader (io_session s))\<rparr>)"
| io_run_read: "0 < rd_posted (se_reader (io_session s)) \<Longrightarrow>
     sessionRunRead msg H bufs (io_session s) = Some m \<Longrightarrow> leaves m x \<Longrightarrow>
     io_step H bufs msg s RunRead (put_session x s)"
| io_receive: "finish_op i ec (rd_reads (se_reader (io_session s))) = Some ops \<Longrightarrow>
     failed ec \<or> fst (rd_reads (se_reader (io_session s)) ! i) \<le> length bs \<Longrightarrow>
     io_step H bufs msg s (Receive i ec bs)
       ((put_session ((io_session s)\<lparr>se_reader := (se_reader (io_session s))
            \<lparr>rd_buffer := rd_buffer (se_reader (io_session s)) @ bs, rd_reads := ops\<rparr>\<rparr>) s)
          \<lparr>io_input := io_input s @ bs\<rparr>)"
| io_read_completed: "take_op i (rd_reads (se_reader (io_session s))) = Some ((k, ec), ops) \<Longrightarrow>
     sessionReadDone msg H bufs ec
       ((io_session s)\<lparr>se_reader := (se_reader (io_session s))\<lparr>rd_reads := ops\<rparr>\<rparr>) = Some m \<Longrightarrow> leaves m x \<Longrightarrow>
     io_step H bufs msg s (CompleteRead i) (put_session x s)"
| io_schedule_write: "se_exists (io_session s) \<Longrightarrow> \<forall>t \<in> set tasks. WriteTask_asserts t \<Longrightarrow>
     io_step H bufs msg s (SessionWrite tasks deadline)
       ((put_session (scheduleWrite_s tasks deadline (io_session s)) s)
          \<lparr>io_deadlines := io_deadlines s @ (case deadline of None \<Rightarrow> [] | Some d \<Rightarrow> [d])\<rparr>)"
| io_run_write: "i < length (wr_posted (se_writer (io_session s))) \<Longrightarrow>
     leaves (sessionRunWrite msg (ss_now (io_sys s)) i (io_session s)) x \<Longrightarrow>
     io_step H bufs msg s (RunWrite i)
       ((put_session x s)\<lparr>io_accepted := io_accepted s @
            pushed (se_writer (io_session s)) (se_writer x) (fst (wr_posted (se_writer (io_session s)) ! i))\<rparr>)"
| io_transmit: "finish_op i ec (wr_writes (se_writer (io_session s))) = Some ops \<Longrightarrow>
     (\<not> failed ec \<longrightarrow> n = length (fst (wr_writes (se_writer (io_session s)) ! i))) \<Longrightarrow>
     io_step H bufs msg s (Transmit i ec n)
       ((put_session ((io_session s)\<lparr>se_writer := (se_writer (io_session s))\<lparr>wr_writes := ops\<rparr>\<rparr>) s)
          \<lparr>io_wire := io_wire s @ take n (fst (wr_writes (se_writer (io_session s)) ! i)),
           io_failed := io_failed s \<or> failed ec\<rparr>)"
| io_write_completed: "take_op i (wr_writes (se_writer (io_session s))) = Some ((payload, ec), ops) \<Longrightarrow>
     leaves (sessionWriteDone msg ec
       ((io_session s)\<lparr>se_writer := (se_writer (io_session s))\<lparr>wr_writes := ops\<rparr>\<rparr>)) x \<Longrightarrow>
     io_step H bufs msg s (CompleteWrite i)
       ((put_session x s)
          \<lparr>io_completed := io_completed s @ [fst (hd (wr_tasksQueue (se_writer (io_session s))))]\<rparr>)"
| io_expire_deadline: "i < length (wr_waits (se_writer (io_session s))) \<Longrightarrow>
     snd (fst (wr_waits (se_writer (io_session s)) ! i)) \<le> ss_now (io_sys s) \<Longrightarrow>
     finish_op i NoError (wr_waits (se_writer (io_session s))) = Some ops \<Longrightarrow>
     io_step H bufs msg s (ExpireDeadline i)
       (put_session ((io_session s)\<lparr>se_writer := (se_writer (io_session s))\<lparr>wr_waits := ops\<rparr>\<rparr>) s)"
| io_complete_deadline: "take_op i (wr_waits (se_writer (io_session s))) = Some ((k, ec), ops) \<Longrightarrow>
     leaves (sessionDeadline msg ec
       ((io_session s)\<lparr>se_writer := (se_writer (io_session s))\<lparr>wr_waits := ops\<rparr>\<rparr>)) x \<Longrightarrow>
     io_step H bufs msg s (CompleteDeadline i) (put_session x s)"
| io_set_error_handlers: "se_exists (io_session s) \<Longrightarrow>
     io_step H bufs msg s (SetErrorHandlers wcb rcb) (put_session (setErrorHandlers wcb rcb (io_session s)) s)"
| io_set_timed_out_handler: "se_exists (io_session s) \<Longrightarrow> \<not> wr_timeoutReached (se_writer (io_session s)) \<Longrightarrow>
     io_step H bufs msg s (SetTimedOutHandler cb) (put_session (setWriteTimedOutHandler cb (io_session s)) s)"

inductive_simps io_step_simps:
  "io_step H bufs msg s (Control e) t"
  "io_step H bufs msg s (Drop n) t"
  "io_step H bufs msg s (SessionRead task) t"
  "io_step H bufs msg s RunRead t"
  "io_step H bufs msg s (Receive i ec bs) t"
  "io_step H bufs msg s (CompleteRead i) t"
  "io_step H bufs msg s (SessionWrite tasks deadline) t"
  "io_step H bufs msg s (RunWrite i) t"
  "io_step H bufs msg s (Transmit i ec n) t"
  "io_step H bufs msg s (CompleteWrite i) t"
  "io_step H bufs msg s (ExpireDeadline i) t"
  "io_step H bufs msg s (CompleteDeadline i) t"
  "io_step H bufs msg s (SetErrorHandlers wcb rcb) t"
  "io_step H bufs msg s (SetTimedOutHandler cb) t"

subsection \<open>What the reader and the writer see\<close>

definition reader_of ::
  "('ctx, 'h, 'w, 'c, 'u) io_system \<Rightarrow> ('h, 'c session_closure, 'u) read_system" where
  "reader_of s = \<lparr>rs_reader = se_reader (io_session s), rs_entry = io_entry s, rs_user = io_user s,
     rs_calls = io_calls s, rs_input = io_input s\<rparr>"

definition writer_of :: "('ctx, 'h, 'w, 'c, 'u) io_system \<Rightarrow> ('w, 'c session_closure) write_system" where
  "writer_of s = \<lparr>ws_writer = se_writer (io_session s), ws_now = ss_now (io_sys s),
     ws_deadlines = io_deadlines s, ws_accepted = io_accepted s, ws_completed = io_completed s,
     ws_wire = io_wire s, ws_failed = io_failed s\<rparr>"

lemmas io_views = reader_of_def writer_of_def put_session_def

text \<open>Closures change nothing but the trace.\<close>

lemma leaves_and_then:
  "leaves (and_then m f) t \<Longrightarrow> (\<exists>x s. m = Thrown x s \<and> t = s) \<or> (\<exists>s. m = Done s \<and> leaves (f s) t)"
  by (cases m) auto

definition only_trace :: "('ctx, 'h, 'w, 'c, 'u) session \<Rightarrow> ('ctx, 'h, 'w, 'c, 'u) session \<Rightarrow> bool" where
  "only_trace s x \<longleftrightarrow> (\<exists>tr. x = s\<lparr>se_trace := tr\<rparr>)"

lemma only_trace_refl [simp]: "only_trace s s"
  unfolding only_trace_def by (rule exI [of _ "se_trace s"]) simp

lemma only_trace_emit [simp]: "only_trace s (session_emit e s)"
  unfolding only_trace_def session_emit_def by blast

lemma only_trace_trans: "only_trace s x \<Longrightarrow> only_trace x y \<Longrightarrow> only_trace s y"
  by (auto simp: only_trace_def)

lemma invoke_only_trace: "leaves (invoke cb (\<lambda>c. session_emit (e c)) s) x \<Longrightarrow> only_trace s x"
  by (cases cb) auto

lemma runClosure_only_trace: "leaves (runClosure msg cl ec s) x \<Longrightarrow> only_trace s x"
  by (cases cl) (auto simp: runClosure_def dest: invoke_only_trace split: if_splits)

lemma runReadEffects_only_trace: "leaves (runReadEffects msg es s) x \<Longrightarrow> only_trace s x"
proof (induction es arbitrary: s)
  case (Cons e es)
  have one: "leaves (case e of ReadAlive cl \<Rightarrow> runClosure msg cl NoError s
      | ReadFailed cl ec \<Rightarrow> runClosure msg cl ec s | ReadHandled h b \<Rightarrow> Done s | ReadFailLogged ec \<Rightarrow> Done s) y
      \<Longrightarrow> only_trace s y" for y
    by (cases e) (auto dest: runClosure_only_trace)
  from Cons.prems show ?case
    by (auto dest!: leaves_and_then intro: one only_trace_trans [OF one] Cons.IH)
qed simp

lemma runWriteEffects_only_trace: "leaves (runWriteEffects msg es s) x \<Longrightarrow> only_trace s x"
proof (induction es arbitrary: s)
  case (Cons e es)
  have one: "leaves (case e of WriteAlive cl \<Rightarrow> runClosure msg cl NoError s
      | WriteFailed cl ec \<Rightarrow> runClosure msg cl ec s | WriteTimedOut cl \<Rightarrow> runClosure msg cl NoError s
      | WriteStarted b \<Rightarrow> Done s | WriteHandled h \<Rightarrow> Done s | WriteFailLogged ec \<Rightarrow> Done s) y
      \<Longrightarrow> only_trace s y" for y
    by (cases e) (auto dest: runClosure_only_trace)
  from Cons.prems show ?case
    by (auto dest!: leaves_and_then intro: one only_trace_trans [OF one] Cons.IH)
qed simp

text \<open>What a handler leaves of the session: the reader, or the writer, that it left.\<close>

lemma afterRead_leaves:
  assumes "afterRead msg m s = Some n" and "leaves n x"
  shows "\<exists>n' r. m = Some n' \<and> leaves n' r \<and> only_trace (s\<lparr>se_reader := r\<rparr>) x"
proof -
  from assms(1) obtain n' where m: "m = Some n'" by (cases m) (auto simp: afterRead_def)
  with assms show ?thesis
    by (cases n') (auto simp: afterRead_def dest: runReadEffects_only_trace)
qed

lemma afterWrite_leaves:
  assumes "leaves (afterWrite msg m s) x"
  shows "\<exists>w. leaves m w \<and> only_trace (s\<lparr>se_writer := w\<rparr>) x"
  using assms by (cases m) (auto simp: afterWrite_def dest: runWriteEffects_only_trace)

lemma only_trace_fields:
  assumes "only_trace s x"
  shows "se_reader x = se_reader s" and "se_writer x = se_writer s" and "se_exists x = se_exists s"
    and "se_open x = se_open s"
  using assms by (auto simp: only_trace_def)

subsection \<open>Every step is a run of the reader\<close>

lemma session_step_reader:
  assumes "session_step s e x" and "e \<noteq> DropSession"
  shows "se_reader (ss_session x) = se_reader (ss_session s) \<or>
    (\<exists>cb p. e = StartMonitoring cb p \<and>
       se_reader (ss_session x) = setConnectionAliveHandler_r (alive_closure cb) (se_reader (ss_session s)))"
  using assms
proof (induction rule: session_step.induct)
  case (start_monitoring s cb period)
  then show ?case
    by (simp add: startConnectionActivityMonitoring_def schedulePong_def session_emit_def Let_def)
next
  case (pong_completed i s payload ec ops)
  then show ?case by (simp add: pongHandler_def restartHeartbeatTimer_def)
next
  case (heartbeat_completed i s d ec ops)
  then show ?case by (simp add: heartbeatHandler_def schedulePong_def session_emit_def Let_def)
next
  case (control_frame kind s t)
  from controlCallback_cases [OF this(1)] show ?case by (auto simp: session_emit_def)
next
  case (close_completed i s cb ec ops t)
  from closeHandler_cases [OF this(2)] show ?case by (auto simp: session_emit_def)
qed (simp_all add: close_def)

lemma session_step_writer:
  assumes "session_step s e x" and "e \<noteq> DropSession"
  shows "se_writer (ss_session x) = se_writer (ss_session s) \<and>
    (ss_now x = ss_now s \<or> (\<exists>n. e = PassTime n \<and> ss_now x = ss_now s + n))"
  using assms
proof (induction rule: session_step.induct)
  case (start_monitoring s cb period)
  then show ?case
    by (simp add: startConnectionActivityMonitoring_def schedulePong_def session_emit_def Let_def)
next
  case (pong_completed i s payload ec ops)
  then show ?case by (simp add: pongHandler_def restartHeartbeatTimer_def)
next
  case (heartbeat_completed i s d ec ops)
  then show ?case by (simp add: heartbeatHandler_def schedulePong_def session_emit_def Let_def)
next
  case (control_frame kind s t)
  from controlCallback_cases [OF this(1)] show ?case by (auto simp: session_emit_def)
next
  case (close_completed i s cb ec ops t)
  from closeHandler_cases [OF this(2)] show ?case by (auto simp: session_emit_def)
qed (simp_all add: close_def)

text \<open>Cancelling the outstanding read or write is its failure.\<close>

lemma cancel_short:
  assumes "length ops \<le> 1"
  shows "cancel_ops (\<lambda>k. True) ops = ops \<and> running ops = [] \<or>
    (\<exists>k. ops = [(k, Running)] \<and> running ops = [k] \<and>
       finish_op 0 OperationAborted ops = Some (cancel_ops (\<lambda>k. True) ops))"
proof -
  consider "ops = []" | k where "ops = [(k, Running)]" | k ec where "ops = [(k, Ready ec)]"
    using short_list_cases [OF assms] by (metis op_status.exhaust prod.exhaust)
  then show ?thesis
    by cases (simp_all add: cancel_ops_def running_def finish_op_def)
qed

text \<open>Setting one handler and keeping the others.\<close>

lemma set_alive_step:
  assumes "cb \<noteq> NullFn"
  shows "read_step H bufs s SetReadHandlers (s\<lparr>rs_reader := setConnectionAliveHandler_r cb (rs_reader s)\<rparr>)"
  using set_read_handlers [of cb H bufs s "rd_errorHandler (rs_reader s)"] assms
  by (simp add: setErrorHandler_r_def setConnectionAliveHandler_r_def)

lemma set_error_step:
  assumes "rd_aliveCallback (rs_reader s) \<noteq> NullFn"
  shows "read_step H bufs s SetReadHandlers (s\<lparr>rs_reader := setErrorHandler_r eh (rs_reader s)\<rparr>)"
  using set_read_handlers [of "rd_aliveCallback (rs_reader s)" H bufs s eh] assms
  by (simp add: setErrorHandler_r_def setConnectionAliveHandler_r_def)

lemma io_step_reader:
  assumes "io_step H bufs msg s e t" and "read_inv H (reader_of s)"
  shows "reader_of t = reader_of s \<or> (\<exists>e'. read_step H bufs (reader_of s) e' (reader_of t))"
  using assms
proof (induction rule: io_step.induct)
  case (io_control s e x)
  from session_step_reader [OF io_control(1,2)] show ?case
  proof (elim disjE exE conjE)
    fix cb p assume "e = StartMonitoring cb p"
      and r: "se_reader (ss_session x) = setConnectionAliveHandler_r (alive_closure cb) (se_reader (io_session s))"
    with io_control(3) have "alive_closure cb \<noteq> NullFn" by (cases cb) (auto simp: alive_closure_def)
    from set_alive_step [OF this, of H bufs "reader_of s"] r show ?thesis
      by (auto simp: io_views)
  qed (simp add: io_views)
next
  case (io_drop s n)
  let ?ops = "rd_reads (se_reader (io_session s))"
  have "length ?ops \<le> 1" using io_drop(2) by (simp add: read_inv_def io_views Let_def)
  from cancel_short [OF this] show ?case
  proof (elim disjE exE conjE)
    assume "cancel_ops (\<lambda>k. True) ?ops = ?ops"
    then show ?thesis by (simp add: io_views destroy_Session_def Let_def)
  next
    fix k assume "finish_op 0 OperationAborted ?ops = Some (cancel_ops (\<lambda>k. True) ?ops)"
    then have "finish_op 0 OperationAborted (rd_reads (rs_reader (reader_of s))) = Some (cancel_ops (\<lambda>k. True) ?ops)"
      by (simp add: io_views)
    from receive_bytes [OF this, of "[]" H bufs] show ?thesis
      by (intro disjI2 exI [of _ "ReceiveBytes 0 OperationAborted []"]) (simp add: io_views destroy_Session_def Let_def)
  qed
next
  case (io_schedule_read s t)
  from schedule_read [of "reader_of s" t H bufs] io_schedule_read(2-4) show ?case
    by (intro disjI2 exI [of _ "ScheduleRead t"]) (simp add: io_views scheduleRead_s_def)
next
  case (io_run_read s m x)
  from afterRead_leaves [OF io_run_read(2) [unfolded sessionRunRead_def] io_run_read(3)] obtain n' r where
    r: "runPostedRead H bufs (se_reader (io_session s)) = Some n'" "leaves n' r"
    "only_trace ((io_session s)\<lparr>se_reader := r\<rparr>) x" by blast
  with run_posted_read [of "reader_of s" H bufs n' r] io_run_read(1) only_trace_fields(1) [OF r(3)] show ?case
    by (intro disjI2 exI [of _ RunPostedRead]) (simp add: io_views)
next
  case (io_receive i ec s ops bs)
  from receive_bytes [of i ec "reader_of s" ops bs H bufs] io_receive(1,2) show ?case
    by (intro disjI2 exI [of _ "ReceiveBytes i ec bs"]) (simp add: io_views)
next
  case (io_read_completed i s k ec ops m x)
  from afterRead_leaves [OF io_read_completed(2) [unfolded sessionReadDone_def] io_read_completed(3)] obtain n' r where
    r: "readDone H bufs ec ((se_reader (io_session s))\<lparr>rd_reads := ops\<rparr>) = Some n'" "leaves n' r"
    "only_trace ((io_session s)\<lparr>se_reader := r\<rparr>) x" by auto
  with read_completed [of i "reader_of s" k ec ops H bufs n' r] io_read_completed(1) only_trace_fields(1) [OF r(3)]
  show ?case
    by (intro disjI2 exI [of _ "ReadCompleted i"]) (simp add: io_views)
next
  case (io_run_write i s x)
  from afterWrite_leaves [OF io_run_write(2) [unfolded sessionRunWrite_def]] show ?case
    by (auto simp: io_views dest: only_trace_fields(1))
next
  case (io_write_completed i s payload ec ops x)
  from afterWrite_leaves [OF io_write_completed(2) [unfolded sessionWriteDone_def]] show ?case
    by (auto simp: io_views dest: only_trace_fields(1))
next
  case (io_complete_deadline i s k ec ops x)
  from afterWrite_leaves [OF io_complete_deadline(2) [unfolded sessionDeadline_def]] show ?case
    by (auto simp: io_views dest: only_trace_fields(1))
next
  case (io_set_error_handlers s wcb rcb)
  have "rd_aliveCallback (rs_reader (reader_of s)) \<noteq> NullFn"
    using io_set_error_handlers(2) by (simp add: read_inv_def Let_def)
  from set_error_step [OF this, of H bufs "Fn (ReadErrorClosure rcb)"] show ?case
    by (intro disjI2 exI [of _ SetReadHandlers]) (simp add: io_views setErrorHandlers_def)
qed (simp_all add: io_views scheduleWrite_s_def setWriteTimedOutHandler_def)

subsection \<open>Every step is a run of the writer\<close>

lemma set_write_error_step:
  assumes "writer_ok (ws_writer s)"
  shows "write_step s SetWriteHandlers (s\<lparr>ws_writer := setErrorHandler_w eh (ws_writer s)\<rparr>)"
  using set_write_handlers [of "wr_aliveCallback (ws_writer s)" "wr_timeoutHandler (ws_writer s)" s eh] assms
  by (simp add: writer_ok_def writer_defs)

lemma set_timed_out_step:
  assumes "writer_ok (ws_writer s)" and "th \<noteq> NullFn" and "\<not> wr_timeoutReached (ws_writer s)"
  shows "write_step s SetWriteHandlers (s\<lparr>ws_writer := setWriteTimedOutHandler_w th (ws_writer s)\<rparr>)"
  using set_write_handlers [of "wr_aliveCallback (ws_writer s)" th s "wr_errorHandler (ws_writer s)"] assms
  by (simp add: writer_ok_def writer_defs)

lemma io_step_writer:
  assumes "io_step H bufs msg s e t" and "write_inv (writer_of s)"
  shows "writer_of t = writer_of s \<or> (\<exists>e'. write_step (writer_of s) e' (writer_of t))"
  using assms
proof (induction rule: io_step.induct)
  case (io_control s e x)
  from session_step_writer [OF io_control(1,2)] show ?case
  proof (elim conjE disjE exE)
    fix n assume "ss_now x = ss_now (io_sys s) + n" "se_writer (ss_session x) = se_writer (io_session s)"
    with tick [of "writer_of s" n] show ?thesis
      by (intro disjI2 exI [of _ "Tick n"]) (simp add: io_views)
  qed (simp add: io_views)
next
  case (io_drop s n)
  let ?ops = "wr_writes (se_writer (io_session s))"
  have "length ?ops \<le> 1" using io_drop(2) by (auto simp: write_inv_def write_in_flight_def io_views)
  from cancel_short [OF this] show ?case
  proof (elim disjE exE conjE)
    assume "cancel_ops (\<lambda>k. True) ?ops = ?ops" "running ?ops = []"
    then show ?thesis by (simp add: io_views destroy_Session_def Let_def)
  next
    fix k assume k: "?ops = [(k, Running)]" "running ?ops = [k]"
      "finish_op 0 OperationAborted ?ops = Some (cancel_ops (\<lambda>k. True) ?ops)"
    then have "finish_op 0 OperationAborted (wr_writes (ws_writer (writer_of s))) = Some (cancel_ops (\<lambda>k. True) ?ops)"
      by (simp add: io_views)
    from finish_write [OF this, of n] k(1,2) show ?thesis
      by (intro disjI2 exI [of _ "FinishWrite 0 OperationAborted n"])
         (simp add: io_views destroy_Session_def Let_def)
  qed
next
  case (io_run_read s m x)
  from afterRead_leaves [OF io_run_read(2) [unfolded sessionRunRead_def] io_run_read(3)] show ?case
    by (auto simp: io_views dest: only_trace_fields(2))
next
  case (io_read_completed i s k ec ops m x)
  from afterRead_leaves [OF io_read_completed(2) [unfolded sessionReadDone_def] io_read_completed(3)] show ?case
    by (auto simp: io_views dest: only_trace_fields(2))
next
  case (io_schedule_write s tasks deadline)
  from schedule_write [of tasks "writer_of s" deadline] io_schedule_write(2) show ?case
    by (intro disjI2 exI [of _ "ScheduleWrite tasks deadline"]) (simp add: io_views scheduleWrite_s_def)
next
  case (io_run_write i s x)
  from afterWrite_leaves [OF io_run_write(2) [unfolded sessionRunWrite_def]] obtain w where
    w: "leaves (runPostedWrite (ss_now (io_sys s)) i (se_writer (io_session s))) w"
    "only_trace ((io_session s)\<lparr>se_writer := w\<rparr>) x" by blast
  with run_posted_write [of i "writer_of s" w] io_run_write(1) only_trace_fields(2) [OF w(2)] show ?case
    by (intro disjI2 exI [of _ "RunPostedWrite i"]) (simp add: io_views)
next
  case (io_transmit i ec s ops n)
  from finish_write [of i ec "writer_of s" ops n] io_transmit(1,2) show ?case
    by (intro disjI2 exI [of _ "FinishWrite i ec n"]) (simp add: io_views)
next
  case (io_write_completed i s payload ec ops x)
  from afterWrite_leaves [OF io_write_completed(2) [unfolded sessionWriteDone_def]] obtain w where
    w: "leaves (writeDone ec ((se_writer (io_session s))\<lparr>wr_writes := ops\<rparr>)) w"
    "only_trace ((io_session s)\<lparr>se_writer := w\<rparr>) x" by auto
  with write_completed [of i "writer_of s" payload ec ops w] io_write_completed(1) only_trace_fields(2) [OF w(2)]
  show ?case
    by (intro disjI2 exI [of _ "WriteCompleted i"]) (simp add: io_views)
next
  case (io_expire_deadline i s ops)
  from expire_timer [of i "writer_of s" ops] io_expire_deadline(1-3) show ?case
    by (intro disjI2 exI [of _ "ExpireTimer i"]) (simp add: io_views)
next
  case (io_complete_deadline i s k ec ops x)
  from afterWrite_leaves [OF io_complete_deadline(2) [unfolded sessionDeadline_def]] obtain w where
    w: "leaves (deadlineHandler ec True ((se_writer (io_session s))\<lparr>wr_waits := ops\<rparr>)) w"
    "only_trace ((io_session s)\<lparr>se_writer := w\<rparr>) x" by auto
  with timer_completed [of i "writer_of s" k ec ops w] io_complete_deadline(1) only_trace_fields(2) [OF w(2)]
  show ?case
    by (intro disjI2 exI [of _ "TimerCompleted i"]) (simp add: io_views)
next
  case (io_set_error_handlers s wcb rcb)
  then have "writer_ok (ws_writer (writer_of s))" by (simp add: write_inv_def)
  from set_write_error_step [OF this, of "Fn (WriteErrorClosure wcb)"] show ?case
    by (intro disjI2 exI [of _ SetWriteHandlers]) (simp add: io_views setErrorHandlers_def)
next
  case (io_set_timed_out_handler s cb)
  then have "writer_ok (ws_writer (writer_of s))" "\<not> wr_timeoutReached (ws_writer (writer_of s))"
    by (simp_all add: write_inv_def io_views)
  from set_timed_out_step [OF this(1) _ this(2), of "Fn (WriteTimeoutClosure cb)"] show ?case
    by (intro disjI2 exI [of _ SetWriteHandlers]) (simp add: io_views setWriteTimedOutHandler_def)
qed (simp_all add: io_views scheduleRead_s_def)

subsection \<open>What was proved of the reader and the writer holds of those of a session\<close>

lemma io_init_reader: "io_init s \<Longrightarrow> read_init (reader_of s)"
  unfolding io_init_def session_init_def read_init_def
  by (elim conjE exE, rule exI [of _ "rd_user (se_reader (io_session s))"], rule exI [of _ NullFn],
      rule exI [of _ NoOpFn])
     (simp add: io_views new_Session_def setOptions_def read_setup_defs Let_def)

lemma io_init_writer: "io_init s \<Longrightarrow> write_init (writer_of s)"
  unfolding io_init_def session_init_def write_init_def
  by (elim conjE exE, rule exI [of _ NullFn], rule exI [of _ NoOpFn], rule exI [of _ NoOpFn],
      rule exI [of _ "ss_now (io_sys s)"])
     (simp add: io_views new_Session_def setOptions_def writer_defs Let_def)

interpretation session_writer: component_of io_init "io_step H bufs msg" write_init write_step write_inv writer_of
  for H bufs msg
  by unfold_locales (rule io_init_writer writing.reachable_inv io_step_writer; assumption)+

sublocale read_handlers \<subseteq>
  session_reader: component_of io_init "io_step H bufs msg" read_init "read_step H bufs" "read_inv H" reader_of
  for msg
  by unfold_locales (rule io_init_reader reading.reachable_inv io_step_reader; assumption)+

end
