(* ===== verification/Session_Closures.thy ===== *)
theory Session_Closures
  imports Session_Io
begin

section \<open>The closures of a session\<close>

text \<open>
  Which callbacks the handlers of the reader and the writer call, and which closures a session has
  installed there: \<open>read_frame\<close> and \<open>write_frame\<close> say that a handler calls the callbacks that are set and
  sets none, \<open>closures_typed\<close> is the invariant of what is set, and \<open>io_handlers_return\<close> follows: with no
  empty callback of the user inside a closure, no handler of a session throws.
\<close>

subsection \<open>The closures that are called\<close>

text \<open>A handler of the reader calls its error handler and its alive callback, and changes neither.\<close>

definition read_frame :: "('h, 'c, 'u) reader \<Rightarrow> ('h, 'c, 'u) reader \<Rightarrow> bool" where
  "read_frame r r' \<longleftrightarrow> rd_errorHandler r' = rd_errorHandler r \<and> rd_aliveCallback r' = rd_aliveCallback r \<and>
     (\<exists>es. rd_trace r' = rd_trace r @ es \<and>
        (\<forall>c. ReadAlive c \<in> set es \<longrightarrow> rd_aliveCallback r = Fn c) \<and>
        (\<forall>c ec. ReadFailed c ec \<in> set es \<longrightarrow> rd_errorHandler r = Fn c))"

lemma read_frame_refl [simp]: "read_frame r r"
  by (auto simp: read_frame_def)

lemma read_frame_trans: "read_frame r s \<Longrightarrow> read_frame s t \<Longrightarrow> read_frame r t"
  unfolding read_frame_def by (elim conjE exE) (simp, blast)

lemma read_frame_same_setup:
  assumes "rd_errorHandler r' = rd_errorHandler r" "rd_aliveCallback r' = rd_aliveCallback r" "rd_trace r' = rd_trace r"
  shows "read_frame r r'"
  using assms by (auto simp: read_frame_def)

lemma callReadHandler_frame: "leaves (callReadHandler H bufs r) r' \<Longrightarrow> read_frame r r'"
  by (cases "rd_aliveCallback r"; cases "rt_handler (rd_pendingTask r)")
     (auto simp: callReadHandler_def read_emit_def consume_def read_frame_def Let_def split: prod.splits)

lemma readDone_frame:
  assumes "readDone H bufs ec r = Some m" and "leaves m r'"
  shows "read_frame r r'"
proof -
  have "\<forall>r'. leaves m r' \<longrightarrow> read_frame r r'"
  proof (rule readDone.raw_induct [where P = "\<lambda>H bufs ec r m. \<forall>r'. leaves m r' \<longrightarrow> read_frame r r'", OF _ assms(1)])
    fix f H bufs ec r m
    assume IH: "\<And>H bufs ec r m. f H bufs ec r = Some m \<Longrightarrow> \<forall>r'. leaves m r' \<longrightarrow> read_frame r r'"
      and eq: "(if \<not> failed ec
         then continue (callReadHandler H bufs r)
               (\<lambda>r. if rt_handler (rd_pendingTask r) \<noteq> None
                    then read (rt_size (rd_pendingTask r)) (\<lambda>ec size. f H bufs ec) r
                    else Some (Done r))
         else if rd_errorHandler r \<noteq> NullFn
              then Some (invoke (rd_errorHandler r) (\<lambda>c. read_emit (ReadFailed c ec)) r)
              else Some (Done (read_emit (ReadFailLogged ec) r))) = Some m"
    have rest: "read_frame s r'" if "read (rt_size (rd_pendingTask s)) (\<lambda>ec size. f H bufs ec) s = Some m" "leaves m r'"
      for s r'
      using that IH by (auto simp: read_def Let_def intro: read_frame_same_setup split: if_splits)
    show "\<forall>r'. leaves m r' \<longrightarrow> read_frame r r'"
    proof (intro allI impI)
      fix r' assume m: "leaves m r'"
      show "read_frame r r'"
      proof (cases "failed ec")
        case True
        with eq m show ?thesis
          by (cases "rd_errorHandler r") (auto simp: read_emit_def read_frame_def)
      next
        case False
        show ?thesis
        proof (cases "callReadHandler H bufs r")
          case (Done s)
          then have s: "read_frame r s" using callReadHandler_frame [of H bufs r s] by simp
          have "read_frame s r'"
          proof (cases "rt_handler (rd_pendingTask s) = None")
            case True
            with eq False Done have "m = Done s" by simp
            with m show ?thesis by simp
          next
            case other: False
            with eq False Done have "read (rt_size (rd_pendingTask s)) (\<lambda>ec size. f H bufs ec) s = Some m" by simp
            from rest [OF this m] show ?thesis .
          qed
          with s show ?thesis by (rule read_frame_trans)
        next
          case (Thrown x s)
          with eq False m callReadHandler_frame [of H bufs r s] show ?thesis by auto
        next
          case Undefined
          with eq False m show ?thesis by auto
        qed
      qed
    qed
  qed
  with assms(2) show ?thesis by blast
qed

lemma runPostedRead_frame:
  assumes "runPostedRead H bufs r = Some m" and "leaves m r'"
  shows "read_frame r r'"
proof -
  let ?r = "r\<lparr>rd_posted := rd_posted r - 1\<rparr>"
  have "read_frame r ?r" by (rule read_frame_same_setup) simp_all
  moreover have "read_frame ?r r'"
    using assms by (auto simp: runPostedRead_def doRead_def read_def Let_def
        intro: readDone_frame read_frame_same_setup split: if_splits)
  ultimately show ?thesis by (rule read_frame_trans)
qed

text \<open>The same of the writer.\<close>

definition write_frame :: "('h, 'c) writer \<Rightarrow> ('h, 'c) writer \<Rightarrow> bool" where
  "write_frame w w' \<longleftrightarrow> wr_errorHandler w' = wr_errorHandler w \<and> wr_aliveCallback w' = wr_aliveCallback w \<and>
     wr_timeoutHandler w' = wr_timeoutHandler w \<and>
     (\<exists>es. wr_trace w' = wr_trace w @ es \<and>
        (\<forall>c. WriteAlive c \<in> set es \<longrightarrow> wr_aliveCallback w = Fn c) \<and>
        (\<forall>c. WriteTimedOut c \<in> set es \<longrightarrow> wr_timeoutHandler w = Fn c) \<and>
        (\<forall>c ec. WriteFailed c ec \<in> set es \<longrightarrow> wr_errorHandler w = Fn c))"

lemma callback_list_in: "c \<in> set (callback_list cb) \<Longrightarrow> cb = Fn c"
  by (cases cb) auto

lemma started_frame: "write_frame w (started b w)"
  by (auto simp: write_frame_def started_def)

lemma timed_out_frame: "write_frame w (timed_out w)"
  by (auto simp: write_frame_def timed_out_def dest: callback_list_in)

lemma queued_frame: "write_frame w (queued now tasks d w)"
  by (auto simp: write_frame_def queued_def enqueued_def started_def timed_out_def setupDeadlineTimer_def Let_def
      dest: callback_list_in split: option.splits)

lemma posted_queued_frame: "write_frame w (queued now tasks d (w\<lparr>wr_posted := p\<rparr>))"
  using queued_frame [of "w\<lparr>wr_posted := p\<rparr>" now tasks d] by (simp add: write_frame_def)

lemma written_frame: "write_frame w (written ec w)"
  by (auto simp: write_frame_def written_def started_def Let_def dest: callback_list_in
      split: list.splits callback.splits)

text \<open>The handlers of a session's writer in a reachable state.\<close>

lemma session_writer_frame:
  assumes "write_inv (writer_of s)"
  shows "i < length (wr_posted (se_writer (io_session s))) \<Longrightarrow>
      \<exists>w. runPostedWrite now i (se_writer (io_session s)) = Done w \<and> write_frame (se_writer (io_session s)) w"
    and "take_op i (wr_writes (se_writer (io_session s))) = Some ((payload, ec), ops) \<Longrightarrow>
      \<exists>w. writeDone ec ((se_writer (io_session s))\<lparr>wr_writes := ops\<rparr>) = Done w \<and>
          write_frame ((se_writer (io_session s))\<lparr>wr_writes := ops\<rparr>) w"
    and "\<exists>w. deadlineHandler ec True ((se_writer (io_session s))\<lparr>wr_waits := ops'\<rparr>) = Done w \<and>
          write_frame ((se_writer (io_session s))\<lparr>wr_waits := ops'\<rparr>) w"
proof -
  have ok: "writer_ok (se_writer (io_session s))"
    using assms by (simp add: write_inv_def writer_of_def)
  show "i < length (wr_posted (se_writer (io_session s))) \<Longrightarrow>
      \<exists>w. runPostedWrite now i (se_writer (io_session s)) = Done w \<and> write_frame (se_writer (io_session s)) w"
    using runPostedWrite_Done [OF ok, of now i] posted_queued_frame by blast
  show "\<exists>w. writeDone ec ((se_writer (io_session s))\<lparr>wr_writes := ops\<rparr>) = Done w \<and>
          write_frame ((se_writer (io_session s))\<lparr>wr_writes := ops\<rparr>) w"
    if "take_op i (wr_writes (se_writer (io_session s))) = Some ((payload, ec), ops)"
    using write_completed_Done [OF assms, of i payload ec ops] that written_frame by (auto simp: writer_of_def)
  show "\<exists>w. deadlineHandler ec True ((se_writer (io_session s))\<lparr>wr_waits := ops'\<rparr>) = Done w \<and>
          write_frame ((se_writer (io_session s))\<lparr>wr_waits := ops'\<rparr>) w"
    using ok timed_out_frame [of "(se_writer (io_session s))\<lparr>wr_waits := ops'\<rparr>"]
    by (auto simp: deadlineHandler_Done writer_ok_def write_frame_def)
qed

subsection \<open>The closures that are installed\<close>

text \<open>The callbacks of a session's reader and writer are the closures that the session installs.\<close>

definition closures_typed :: "('ctx, 'h, 'w, 'c, 'u) session \<Rightarrow> bool" where
  "closures_typed s \<longleftrightarrow>
     (rd_errorHandler (se_reader s) = NullFn \<or> (\<exists>cb. rd_errorHandler (se_reader s) = Fn (ReadErrorClosure cb))) \<and>
     (rd_aliveCallback (se_reader s) = NoOpFn \<or> (\<exists>c. rd_aliveCallback (se_reader s) = Fn (AliveClosure c))) \<and>
     (wr_errorHandler (se_writer s) = NullFn \<or> (\<exists>cb. wr_errorHandler (se_writer s) = Fn (WriteErrorClosure cb))) \<and>
     (wr_timeoutHandler (se_writer s) = NoOpFn \<or> (\<exists>cb. wr_timeoutHandler (se_writer s) = Fn (WriteTimeoutClosure cb))) \<and>
     wr_aliveCallback (se_writer s) = NoOpFn"

lemma typed_init: "io_init s \<Longrightarrow> closures_typed (io_session s)"
  by (auto simp: io_init_def session_init_def closures_typed_def new_Session_def setOptions_def new_AsyncReader_def
      new_AsyncWriter_def Let_def)

lemma typed_same_callbacks:
  assumes "closures_typed s"
    and "rd_errorHandler (se_reader x) = rd_errorHandler (se_reader s)"
    and "rd_aliveCallback (se_reader x) = rd_aliveCallback (se_reader s)"
    and "wr_errorHandler (se_writer x) = wr_errorHandler (se_writer s)"
    and "wr_timeoutHandler (se_writer x) = wr_timeoutHandler (se_writer s)"
    and "wr_aliveCallback (se_writer x) = wr_aliveCallback (se_writer s)"
  shows "closures_typed x"
  using assms by (simp add: closures_typed_def)

lemma typed_after_write:
  assumes "closures_typed s" and "leaves (afterWrite msg m s') x" and "m = Done w" and "write_frame (se_writer s') w"
    and "se_reader s' = se_reader s"
    and "write_frame (se_writer s) (se_writer s')"
  shows "closures_typed x"
proof -
  from afterWrite_leaves [OF assms(2)] assms(3) have "only_trace (s'\<lparr>se_writer := w\<rparr>) x" by auto
  from only_trace_fields(1,2) [OF this] assms(4-6) show ?thesis
    by (intro typed_same_callbacks [OF assms(1)]) (simp_all add: write_frame_def)
qed

lemma typed_after_read:
  assumes "closures_typed s" and "afterRead msg m s' = Some n" and "leaves n x"
    and "\<And>n' r. m = Some n' \<Longrightarrow> leaves n' r \<Longrightarrow> read_frame (se_reader s') r"
    and "se_writer s' = se_writer s" and "read_frame (se_reader s) (se_reader s')"
  shows "closures_typed x"
proof -
  from afterRead_leaves [OF assms(2,3)] obtain n' r where m: "m = Some n'" "leaves n' r"
    and x: "only_trace (s'\<lparr>se_reader := r\<rparr>) x" by blast
  from only_trace_fields(1,2) [OF x] assms(4) [OF m] assms(5,6) show ?thesis
    by (intro typed_same_callbacks [OF assms(1)]) (simp_all add: read_frame_def)
qed

lemma frames_of_parts [simp]:
  "read_frame r (r\<lparr>rd_reads := q\<rparr>)" "write_frame w w" "write_frame w (w\<lparr>wr_writes := q'\<rparr>)" "write_frame w (w\<lparr>wr_waits := v\<rparr>)"
  by (simp_all add: read_frame_def write_frame_def)

lemma alive_closure_typed:
  "cb \<noteq> NullFn \<Longrightarrow> alive_closure cb = NoOpFn \<or> (\<exists>c. alive_closure cb = Fn (AliveClosure c))"
  by (cases cb) (auto simp: alive_closure_def)

lemma typed_step:
  "io_step H bufs msg s e t \<Longrightarrow> write_inv (writer_of s) \<Longrightarrow> closures_typed (io_session s) \<Longrightarrow>
   closures_typed (io_session t)"
proof (induction rule: io_step.induct)
  case (io_control s e x)
  from session_step_reader [OF io_control(1,2)] show ?case
  proof (elim disjE exE conjE)
    assume "se_reader (ss_session x) = se_reader (io_session s)"
    with session_step_writer [OF io_control(1,2)] io_control(5) show ?thesis
      by (simp add: closures_typed_def)
  next
    fix cb p assume "e = StartMonitoring cb p"
      and r: "se_reader (ss_session x) = setConnectionAliveHandler_r (alive_closure cb) (se_reader (io_session s))"
    with io_control(3) have "cb \<noteq> NullFn" by auto
    from alive_closure_typed [OF this] r session_step_writer [OF io_control(1,2)] io_control(5) show ?thesis
      by (simp add: closures_typed_def setConnectionAliveHandler_r_def)
  qed
next
  case (io_drop s n)
  then show ?case by (simp add: closures_typed_def put_session_def destroy_Session_def Let_def)
next
  case (io_run_read s m x)
  show ?case
    using typed_after_read [OF io_run_read(5) io_run_read(2) [unfolded sessionRunRead_def] io_run_read(3)
        runPostedRead_frame] by (simp add: put_session_def)
next
  case (io_read_completed i s k ec ops m x)
  show ?case
    using typed_after_read [OF io_read_completed(5) io_read_completed(2) [unfolded sessionReadDone_def]
        io_read_completed(3) readDone_frame] by (simp add: put_session_def)
next
  case (io_run_write i s x)
  from session_writer_frame(1) [OF io_run_write(3,1)] obtain w where
    "runPostedWrite (ss_now (io_sys s)) i (se_writer (io_session s)) = Done w" "write_frame (se_writer (io_session s)) w"
    by blast
  from typed_after_write [OF io_run_write(4) io_run_write(2) [unfolded sessionRunWrite_def] this] show ?case
    by (simp add: put_session_def)
next
  case (io_write_completed i s payload ec ops x)
  from session_writer_frame(2) [OF io_write_completed(3,1)] obtain w where
    "writeDone ec ((se_writer (io_session s))\<lparr>wr_writes := ops\<rparr>) = Done w"
    "write_frame ((se_writer (io_session s))\<lparr>wr_writes := ops\<rparr>) w" by blast
  with typed_after_write [OF io_write_completed(4) io_write_completed(2) [unfolded sessionWriteDone_def], of w] show ?case
    by (simp add: put_session_def)
next
  case (io_complete_deadline i s k ec ops x)
  from session_writer_frame(3) [OF io_complete_deadline(3)] obtain w where
    "deadlineHandler ec True ((se_writer (io_session s))\<lparr>wr_waits := ops\<rparr>) = Done w"
    "write_frame ((se_writer (io_session s))\<lparr>wr_waits := ops\<rparr>) w" by blast
  with typed_after_write [OF io_complete_deadline(4) io_complete_deadline(2) [unfolded sessionDeadline_def], of w]
  show ?case by (simp add: put_session_def)
qed (simp_all add: closures_typed_def put_session_def scheduleRead_s_def scheduleRead_def scheduleWrite_s_def
    scheduleWrite_def setErrorHandlers_def setErrorHandler_r_def setErrorHandler_w_def
    setWriteTimedOutHandler_def setWriteTimedOutHandler_w_def)

lemma reachable_typed:
  "reachable io_init (io_step H bufs msg) s \<Longrightarrow> closures_typed (io_session s)"
proof (induction rule: reachable.induct)
  case (reachable_init s)
  then show ?case by (rule typed_init)
next
  case (reachable_step s e t)
  from typed_step [OF reachable_step(2) session_writer.part_inv [OF reachable_step(1)] reachable_step(3)]
  show ?case .
qed

subsection \<open>The handlers of a session return\<close>

text \<open>No closure holds an empty callback of the user.\<close>

fun closure_set :: "'c session_closure \<Rightarrow> bool" where
  "closure_set (WriteErrorClosure cb) = (cb \<noteq> NullFn)"
| "closure_set (ReadErrorClosure cb) = (cb \<noteq> NullFn)"
| "closure_set (WriteTimeoutClosure cb) = (cb \<noteq> NullFn)"
| "closure_set (AliveClosure c) = True"

definition closures_set :: "('ctx, 'h, 'w, 'c, 'u) session \<Rightarrow> bool" where
  "closures_set s \<longleftrightarrow>
     (\<forall>cl. rd_errorHandler (se_reader s) = Fn cl \<longrightarrow> closure_set cl) \<and>
     (\<forall>cl. wr_errorHandler (se_writer s) = Fn cl \<longrightarrow> closure_set cl) \<and>
     (\<forall>cl. wr_timeoutHandler (se_writer s) = Fn cl \<longrightarrow> closure_set cl)"

lemma runClosure_Done: "closure_set cl \<Longrightarrow> \<exists>x. runClosure msg cl ec s = Done x"
  by (cases cl) (auto simp: runClosure_def intro: invoke_Done)

lemma runReadEffects_Done:
  "(\<forall>cl. ReadAlive cl \<in> set es \<longrightarrow> closure_set cl) \<Longrightarrow> (\<forall>cl ec. ReadFailed cl ec \<in> set es \<longrightarrow> closure_set cl) \<Longrightarrow>
   \<exists>x. runReadEffects msg es s = Done x"
proof (induction es arbitrary: s)
  case (Cons e es)
  have "\<exists>y. (case e of ReadAlive cl \<Rightarrow> runClosure msg cl NoError s
      | ReadFailed cl ec \<Rightarrow> runClosure msg cl ec s | ReadHandled h b \<Rightarrow> Done s | ReadFailLogged ec \<Rightarrow> Done s) = Done y"
    using Cons.prems by (cases e) (simp_all add: runClosure_Done)
  then obtain y where y: "(case e of ReadAlive cl \<Rightarrow> runClosure msg cl NoError s
      | ReadFailed cl ec \<Rightarrow> runClosure msg cl ec s | ReadHandled h b \<Rightarrow> Done s | ReadFailLogged ec \<Rightarrow> Done s) = Done y" ..
  moreover have "\<exists>x. runReadEffects msg es y = Done x" by (rule Cons.IH) (use Cons.prems in auto)
  ultimately show ?case by simp
qed simp

lemma runWriteEffects_Done:
  "(\<forall>cl. WriteAlive cl \<in> set es \<longrightarrow> closure_set cl) \<Longrightarrow> (\<forall>cl. WriteTimedOut cl \<in> set es \<longrightarrow> closure_set cl) \<Longrightarrow>
   (\<forall>cl ec. WriteFailed cl ec \<in> set es \<longrightarrow> closure_set cl) \<Longrightarrow> \<exists>x. runWriteEffects msg es s = Done x"
proof (induction es arbitrary: s)
  case (Cons e es)
  have "\<exists>y. (case e of WriteAlive cl \<Rightarrow> runClosure msg cl NoError s
      | WriteFailed cl ec \<Rightarrow> runClosure msg cl ec s | WriteTimedOut cl \<Rightarrow> runClosure msg cl NoError s
      | WriteStarted b \<Rightarrow> Done s | WriteHandled h \<Rightarrow> Done s | WriteFailLogged ec \<Rightarrow> Done s) = Done y"
    using Cons.prems by (cases e) (simp_all add: runClosure_Done)
  then obtain y where y: "(case e of WriteAlive cl \<Rightarrow> runClosure msg cl NoError s
      | WriteFailed cl ec \<Rightarrow> runClosure msg cl ec s | WriteTimedOut cl \<Rightarrow> runClosure msg cl NoError s
      | WriteStarted b \<Rightarrow> Done s | WriteHandled h \<Rightarrow> Done s | WriteFailLogged ec \<Rightarrow> Done s) = Done y" ..
  moreover have "\<exists>x. runWriteEffects msg es y = Done x" by (rule Cons.IH) (use Cons.prems in auto)
  ultimately show ?case by simp
qed simp

lemma afterRead_Done:
  assumes "closures_typed s" and "closures_set s" and "read_frame (se_reader s) r"
  shows "\<exists>x. afterRead msg (Some (Done r)) s = Some (Done x)"
proof -
  from assms(3) obtain es where es: "rd_trace r = rd_trace (se_reader s) @ es"
    "\<forall>c. ReadAlive c \<in> set es \<longrightarrow> rd_aliveCallback (se_reader s) = Fn c"
    "\<forall>c ec. ReadFailed c ec \<in> set es \<longrightarrow> rd_errorHandler (se_reader s) = Fn c"
    by (auto simp: read_frame_def)
  have alive: "rd_aliveCallback (se_reader s) = Fn c \<Longrightarrow> closure_set c" for c
    using assms(1) by (auto simp: closures_typed_def)
  have "\<forall>cl. ReadAlive cl \<in> set es \<longrightarrow> closure_set cl" "\<forall>cl ec. ReadFailed cl ec \<in> set es \<longrightarrow> closure_set cl"
    using es(2,3) alive assms(2) by (auto simp: closures_set_def)
  from runReadEffects_Done [OF this] es(1) show ?thesis by (auto simp: afterRead_def)
qed

lemma afterWrite_Done:
  assumes "closures_typed s" and "closures_set s" and "write_frame (se_writer s) w"
  shows "\<exists>x. afterWrite msg (Done w) s = Done x"
proof -
  from assms(3) obtain es where es: "wr_trace w = wr_trace (se_writer s) @ es"
    "\<forall>c. WriteAlive c \<in> set es \<longrightarrow> wr_aliveCallback (se_writer s) = Fn c"
    "\<forall>c. WriteTimedOut c \<in> set es \<longrightarrow> wr_timeoutHandler (se_writer s) = Fn c"
    "\<forall>c ec. WriteFailed c ec \<in> set es \<longrightarrow> wr_errorHandler (se_writer s) = Fn c"
    by (auto simp: write_frame_def)
  have "\<forall>cl. WriteAlive cl \<in> set es \<longrightarrow> closure_set cl" "\<forall>cl. WriteTimedOut cl \<in> set es \<longrightarrow> closure_set cl"
    "\<forall>cl ec. WriteFailed cl ec \<in> set es \<longrightarrow> closure_set cl"
    using es(2-4) assms(1,2) by (auto simp: closures_set_def closures_typed_def)
  from runWriteEffects_Done [OF this] es(1) show ?thesis by (auto simp: afterWrite_def)
qed

text \<open>A handler of the reader or the writer of a session that does not return normally.\<close>

fun io_bad ::
  "('h, 'u) handlers \<Rightarrow> (byte list \<Rightarrow> byte list list) \<Rightarrow> (error_code \<Rightarrow> string) \<Rightarrow>
   ('ctx, 'h, 'w, 'c, 'u) io_system \<Rightarrow> ('h, 'w, 'c) io_event \<Rightarrow> bool" where
  "io_bad H bufs msg s RunRead =
     (0 < rd_posted (se_reader (io_session s)) \<and> (\<forall>x. sessionRunRead msg H bufs (io_session s) \<noteq> Some (Done x)))"
| "io_bad H bufs msg s (CompleteRead i) =
     (case take_op i (rd_reads (se_reader (io_session s))) of
        None \<Rightarrow> False
      | Some ((k, ec), ops) \<Rightarrow> \<forall>x. sessionReadDone msg H bufs ec
          ((io_session s)\<lparr>se_reader := (se_reader (io_session s))\<lparr>rd_reads := ops\<rparr>\<rparr>) \<noteq> Some (Done x))"
| "io_bad H bufs msg s (RunWrite i) =
     (i < length (wr_posted (se_writer (io_session s))) \<and>
      (\<forall>x. sessionRunWrite msg (ss_now (io_sys s)) i (io_session s) \<noteq> Done x))"
| "io_bad H bufs msg s (CompleteWrite i) =
     (case take_op i (wr_writes (se_writer (io_session s))) of
        None \<Rightarrow> False
      | Some ((payload, ec), ops) \<Rightarrow> \<forall>x. sessionWriteDone msg ec
          ((io_session s)\<lparr>se_writer := (se_writer (io_session s))\<lparr>wr_writes := ops\<rparr>\<rparr>) \<noteq> Done x)"
| "io_bad H bufs msg s (CompleteDeadline i) =
     (case take_op i (wr_waits (se_writer (io_session s))) of
        None \<Rightarrow> False
      | Some ((k, ec), ops) \<Rightarrow> \<forall>x. sessionDeadline msg ec
          ((io_session s)\<lparr>se_writer := (se_writer (io_session s))\<lparr>wr_waits := ops\<rparr>\<rparr>) \<noteq> Done x)"
| "io_bad H bufs msg s e = False"

lemma closures_of_parts [simp]:
  "closures_typed (s\<lparr>se_reader := (se_reader s)\<lparr>rd_reads := q\<rparr>\<rparr>) = closures_typed s"
  "closures_set (s\<lparr>se_reader := (se_reader s)\<lparr>rd_reads := q\<rparr>\<rparr>) = closures_set s"
  "closures_typed (s\<lparr>se_writer := (se_writer s)\<lparr>wr_writes := v\<rparr>\<rparr>) = closures_typed s"
  "closures_set (s\<lparr>se_writer := (se_writer s)\<lparr>wr_writes := v\<rparr>\<rparr>) = closures_set s"
  "closures_typed (s\<lparr>se_writer := (se_writer s)\<lparr>wr_waits := u\<rparr>\<rparr>) = closures_typed s"
  "closures_set (s\<lparr>se_writer := (se_writer s)\<lparr>wr_waits := u\<rparr>\<rparr>) = closures_set s"
  by (simp_all add: closures_typed_def closures_set_def)

lemma io_writes_return:
  assumes "reachable io_init (io_step H bufs msg) s" and "closures_set (io_session s)"
  shows "\<not> io_bad H bufs msg s (RunWrite i)" and "\<not> io_bad H bufs msg s (CompleteWrite i)"
    and "\<not> io_bad H bufs msg s (CompleteDeadline i)"
proof -
  note typed = reachable_typed [OF assms(1)]
  note frames = session_writer_frame [OF session_writer.part_inv [OF assms(1)]]
  show "\<not> io_bad H bufs msg s (RunWrite i)"
    using frames(1) [of i "ss_now (io_sys s)"] afterWrite_Done [OF typed assms(2)]
    by (fastforce simp: sessionRunWrite_def)
  show "\<not> io_bad H bufs msg s (CompleteWrite i)"
  proof (cases "take_op i (wr_writes (se_writer (io_session s)))")
    case (Some a)
    then obtain payload ec ops where op: "take_op i (wr_writes (se_writer (io_session s))) = Some ((payload, ec), ops)"
      by (cases a) auto
    with frames(2) [OF op] afterWrite_Done [of "(io_session s)\<lparr>se_writer := (se_writer (io_session s))\<lparr>wr_writes := ops\<rparr>\<rparr>"]
      typed assms(2) show ?thesis by (fastforce simp: sessionWriteDone_def)
  qed simp
  show "\<not> io_bad H bufs msg s (CompleteDeadline i)"
  proof (cases "take_op i (wr_waits (se_writer (io_session s)))")
    case (Some a)
    then obtain k ec ops where op: "take_op i (wr_waits (se_writer (io_session s))) = Some ((k, ec), ops)"
      by (cases a) auto
    with frames(3) [of ec ops] afterWrite_Done [of "(io_session s)\<lparr>se_writer := (se_writer (io_session s))\<lparr>wr_waits := ops\<rparr>\<rparr>"]
      typed assms(2) show ?thesis by (fastforce simp: sessionDeadline_def)
  qed simp
qed

context read_handlers
begin

lemma session_read_inv: "reachable io_init (io_step H bufs msg) s \<Longrightarrow> read_inv H (reader_of s)"
  by (rule session_reader.part_inv)

lemma io_reads_return:
  assumes "reachable io_init (io_step H bufs msg) s" and "closures_set (io_session s)"
  shows "\<not> io_bad H bufs msg s RunRead" and "\<not> io_bad H bufs msg s (CompleteRead i)"
proof -
  note typed = reachable_typed [OF assms(1)]
  have inv: "read_inv H (reader_of s)" using assms(1) by (rule session_read_inv)
  show "\<not> io_bad H bufs msg s RunRead"
  proof
    assume bad: "io_bad H bufs msg s RunRead"
    then obtain r where "runPostedRead H bufs (se_reader (io_session s)) = Some (Done r)"
      using run_posted_returns [OF inv] by (auto simp: reader_of_def)
    with runPostedRead_frame [OF this, of r] afterRead_Done [OF typed assms(2), of r msg] bad show False
      by (auto simp: sessionRunRead_def)
  qed
  show "\<not> io_bad H bufs msg s (CompleteRead i)"
  proof (cases "take_op i (rd_reads (se_reader (io_session s)))")
    case (Some a)
    then obtain k ec ops where op: "take_op i (rd_reads (se_reader (io_session s))) = Some ((k, ec), ops)"
      by (cases a) auto
    then obtain r where r: "readDone H bufs ec ((se_reader (io_session s))\<lparr>rd_reads := ops\<rparr>) = Some (Done r)"
      using read_completed_returns [OF inv, of i k ec ops] by (auto simp: reader_of_def)
    from readDone_frame [OF r, of r]
      afterRead_Done [of "(io_session s)\<lparr>se_reader := (se_reader (io_session s))\<lparr>rd_reads := ops\<rparr>\<rparr>" r msg]
      typed assms(2) r op show ?thesis by (auto simp: sessionReadDone_def)
  qed simp
qed

lemma io_handlers_return:
  assumes "reachable io_init (io_step H bufs msg) s" and "closures_set (io_session s)"
  shows "\<not> io_bad H bufs msg s e"
  using io_reads_return [OF assms] io_writes_return [OF assms] by (cases e) auto

end

end
