(* ===== verification/Session_Properties.thy ===== *)
theory Session_Properties
  imports Session_Machine Writer_Machine
begin

section \<open>Properties of the session\<close>

subsection \<open>A concrete run\<close>

text \<open>A server session whose monitoring is started with a period of 100, which sends two pongs, hears a
  pong of its peer and is closed.\<close>

type_synonym example_session = "(nat, unit, nat, nat, unit) session_system"

definition suggested0 :: "role_type \<Rightarrow> ws_timeout" where
  "suggested0 role = \<lparr>handshake_timeout = 30000, idle_timeout = Some 300000, keep_alive_pings = (role = server_role)\<rparr>"

definition ssystem0 :: example_session where
  "ssystem0 = \<lparr>ss_session = new_Session suggested0 () (Some 5) server_role ''::1'' 7420, ss_now = 0,
     ss_starts = 0, ss_pongFailed = False, ss_closing = []\<rparr>"

lemma ssystem0_init: "session_init ssystem0"
  unfolding session_init_def ssystem0_def by blast

definition pong_payload :: string where
  "pong_payload = ''ping from server''"

definition sevents1 :: "nat session_event list" where
  "sevents1 = [StartMonitoring (Fn 1) 100, FinishPong 0 NoError, PongCompleted 0, PassTime 120,
     ExpireHeartbeat 0, HeartbeatCompleted 0, ControlFrame pong_frame]"

definition session1 :: "(nat, unit, nat, nat, unit) session" where
  "session1 = \<lparr>se_role = server_role, se_connectionAliveCallback = Fn 1,
     se_reader = setConnectionAliveHandler_r (Fn (AliveClosure 1)) (new_AsyncReader ()),
     se_writer = new_AsyncWriter, se_userContext = Some 5, se_heartbeatPeriod = 100,
     se_endpointAddress = ''::1'', se_endpointPortNumber = 7420, se_tcpExpires = False, se_binary = True,
     se_timeout = Some \<lparr>handshake_timeout = 3000, idle_timeout = Some 300000, keep_alive_pings = True\<rparr>,
     se_controlCallback = True, se_open = True, se_exists = True, se_waits = [],
     se_pongs = [(pong_payload, Running)], se_closes = [],
     se_trace = [PongSent 0 pong_payload, PongSent 120 pong_payload, AliveCalled 1]\<rparr>"

definition ssystem1 :: example_session where
  "ssystem1 = \<lparr>ss_session = session1, ss_now = 120, ss_starts = 1, ss_pongFailed = False, ss_closing = []\<rparr>"

lemmas session_run_defs =
  session_step_simps session_ops alive_closure_def controlCallback_def closeHandler_def
  setConnectionAliveHandler_r_def start_op_def cancel_ops_def finish_op_def take_op_def Let_def

lemma run_sevents1: "run session_step ssystem0 sevents1 ssystem1"
  by (simp add: sevents1_def ssystem0_def ssystem1_def session1_def suggested0_def pong_payload_def
      defaultHeartbeatPeriod_def session_run_defs)

lemma reachable_ssystem1: "reachable session_init session_step ssystem1"
  by (rule run_reachable [OF reachable_init [of session_init, OF ssystem0_init] run_sevents1])

definition sevents2 :: "nat session_event list" where
  "sevents2 = [CloseSession (Fn 2), CloseSession NoOpFn, FinishClose 0 NoError, StreamClosed, CloseCompleted 0]"

definition ssystem2 :: example_session where
  "ssystem2 = ssystem1\<lparr>ss_session := session1\<lparr>se_open := False, se_closes := [(NoOpFn, Running)],
       se_trace := se_trace session1 @ [ClosedCalled 2 NoError]\<rparr>, ss_closing := [Fn 2, NoOpFn]\<rparr>"

lemma run_sevents2: "run session_step ssystem1 sevents2 ssystem2"
  by (simp add: sevents2_def ssystem2_def ssystem1_def session1_def session_run_defs)

lemma reachable_ssystem2: "reachable session_init session_step ssystem2"
  by (rule run_reachable [OF reachable_ssystem1 run_sevents2])

subsection \<open>The next pong\<close>

text \<open>The expiry of a wait that was not cancelled leads to the next pong.\<close>

lemma ready_wait_sends_pong:
  assumes "(d, Ready NoError) \<in> set (se_waits (ss_session s))"
    and "se_open (ss_session s)" and "se_exists (ss_session s)"
  shows "\<exists>e t. session_step s e t \<and> pong_times (ss_session t) = pong_times (ss_session s) @ [ss_now s]"
proof -
  from assms(1) obtain i where i: "i < length (se_waits (ss_session s))"
    "se_waits (ss_session s) ! i = (d, Ready NoError)" by (auto simp: in_set_conv_nth)
  then obtain ops where "take_op i (se_waits (ss_session s)) = Some ((d, NoError), ops)"
    by (simp add: take_op_def)
  from heartbeat_completed [OF this] have
    "session_step s (HeartbeatCompleted i)
       (s\<lparr>ss_session := heartbeatHandler (ss_now s) NoError ((ss_session s)\<lparr>se_waits := ops\<rparr>)\<rparr>)"
    (is "session_step s ?e ?t") .
  with assms(2,3) show ?thesis
    by (intro exI [of _ ?e] exI [of _ ?t]) (simp add: heartbeatHandler_def schedulePong_times)
qed

lemma running_wait_expires:
  assumes "(d, Running) \<in> set (se_waits (ss_session s))"
  shows "\<exists>es t. run session_step s es t \<and> (d, Ready NoError) \<in> set (se_waits (ss_session t)) \<and>
     se_open (ss_session t) = se_open (ss_session s) \<and> se_exists (ss_session t) = se_exists (ss_session s) \<and>
     pong_times (ss_session t) = pong_times (ss_session s)"
proof -
  from assms obtain i where i: "i < length (se_waits (ss_session s))"
    "se_waits (ss_session s) ! i = (d, Running)" by (auto simp: in_set_conv_nth)
  let ?u = "s\<lparr>ss_now := ss_now s + d\<rparr>"
  from i have f: "finish_op i NoError (se_waits (ss_session ?u)) = Some ((se_waits (ss_session s))[i := (d, Ready NoError)])"
    by (simp add: finish_op_def)
  have "session_step ?u (ExpireHeartbeat i)
      (?u\<lparr>ss_session := (ss_session ?u)\<lparr>se_waits := (se_waits (ss_session s))[i := (d, Ready NoError)]\<rparr>\<rparr>)"
    (is "session_step _ _ ?t") using i f by (intro expire_heartbeat) simp_all
  with pass_time [of s d] have "run session_step s [PassTime d, ExpireHeartbeat i] ?t" by auto
  then show ?thesis
    using i by (intro exI [of _ "[PassTime d, ExpireHeartbeat i]"] exI [of _ ?t])
      (simp add: set_update_memI)
qed

lemma outstanding_pong_restarts:
  assumes inv: "session_inv s" and op: "(p, st) \<in> set (se_pongs (ss_session s))"
    and ok: "\<not> ss_pongFailed s" "se_exists (ss_session s)"
  shows "\<exists>es t d. run session_step s es t \<and> (d, Running) \<in> set (se_waits (ss_session t)) \<and>
     se_open (ss_session t) = se_open (ss_session s) \<and> se_exists (ss_session t) \<and>
     pong_times (ss_session t) = pong_times (ss_session s)"
proof -
  from op obtain i where i: "i < length (se_pongs (ss_session s))"
    "se_pongs (ss_session s) ! i = (p, st)" by (auto simp: in_set_conv_nth)
  have "\<exists>es u. run session_step s es u \<and> i < length (se_pongs (ss_session u)) \<and>
     se_pongs (ss_session u) ! i = (p, Ready NoError) \<and>
     se_open (ss_session u) = se_open (ss_session s) \<and> se_exists (ss_session u) \<and>
     pong_times (ss_session u) = pong_times (ss_session s)"
  proof (cases st)
    case Running
    with i have "finish_op i NoError (se_pongs (ss_session s)) = Some ((se_pongs (ss_session s))[i := (p, Ready NoError)])"
      by (simp add: finish_op_def)
    from finish_pong [OF this] have "run session_step s [FinishPong i NoError]
        (s\<lparr>ss_session := (ss_session s)\<lparr>se_pongs := (se_pongs (ss_session s))[i := (p, Ready NoError)]\<rparr>,
           ss_pongFailed := ss_pongFailed s \<or> failed NoError\<rparr>)" (is "run _ _ ?es ?u")
      by simp
    with i ok show ?thesis by (intro exI [of _ ?es] exI [of _ ?u]) simp
  next
    case (Ready ec)
    with inv op ok have "ec = NoError"
      by (auto simp: session_inv_def heartbeat_goes_on_def failed_def)
    with Ready i ok show ?thesis by (intro exI [of _ "[]"] exI [of _ s]) simp
  qed
  then obtain es u where u: "run session_step s es u" "i < length (se_pongs (ss_session u))"
    "se_pongs (ss_session u) ! i = (p, Ready NoError)" "se_open (ss_session u) = se_open (ss_session s)"
    "se_exists (ss_session u)" "pong_times (ss_session u) = pong_times (ss_session s)" by blast
  then obtain ops where "take_op i (se_pongs (ss_session u)) = Some ((p, NoError), ops)"
    by (simp add: take_op_def)
  from pong_completed [OF this] have
    "session_step u (PongCompleted i) (u\<lparr>ss_session := restartHeartbeatTimer (ss_now u) ((ss_session u)\<lparr>se_pongs := ops\<rparr>)\<rparr>)"
    (is "session_step _ _ ?t") using u(5) by (simp add: pongHandler_def)
  with u(1) have "run session_step s (es @ [PongCompleted i]) ?t" by (auto simp: run_append)
  moreover have "(ss_now u + se_heartbeatPeriod (ss_session u), Running) \<in> set (se_waits (ss_session ?t))"
    by (simp add: restartHeartbeatTimer_def start_op_def)
  ultimately show ?thesis using u(4-6)
    by (intro exI [of _ "es @ [PongCompleted i]"] exI [of _ ?t] exI) (simp, assumption?)
qed

subsection \<open>Closures\<close>

text \<open>The handlers of write tasks and started writes call no closure of the session.\<close>

lemma runWriteEffects_handled [simp]:
  "runWriteEffects msg (map WriteHandled hs @ es) x = runWriteEffects msg es x"
  by (induction hs) simp_all

lemma runWriteEffects_started: "set es \<subseteq> range WriteStarted \<Longrightarrow> runWriteEffects msg es x = Done x"
  by (induction es) auto

subsection \<open>A dropped session\<close>

definition silent_since :: "'c session_effect list \<Rightarrow> ('ctx, 'h, 'w, 'c, 'u) session_system \<Rightarrow> bool" where
  "silent_since tr s \<longleftrightarrow> \<not> se_exists (ss_session s) \<and>
     (\<exists>cs. se_trace (ss_session s) = tr @ map (\<lambda>c. ClosedCalled c NoError) cs)"

lemma silent_step: "session_step s e t \<Longrightarrow> silent_since tr s \<Longrightarrow> silent_since tr t"
proof (induction rule: session_step.induct)
  case (control_frame kind s t)
  from controlCallback_cases [OF this(1)] this(2) show ?case
    by (auto simp: silent_since_def)
next
  case (close_completed i s cb ec ops t)
  from closeHandler_cases [OF this(2)] show ?case
  proof
    assume "t = (ss_session s)\<lparr>se_closes := ops\<rparr> \<and> callback_list cb = []"
    with close_completed(3) show ?thesis by (simp add: silent_since_def)
  next
    assume "\<exists>c ec'. cb = Fn c \<and> t = session_emit (ClosedCalled c ec') ((ss_session s)\<lparr>se_closes := ops\<rparr>) \<and>
      ec' = (if se_exists ((ss_session s)\<lparr>se_closes := ops\<rparr>) \<and> se_open ((ss_session s)\<lparr>se_closes := ops\<rparr>) then ec else NoError)"
    then obtain c ec' where t: "t = session_emit (ClosedCalled c ec') ((ss_session s)\<lparr>se_closes := ops\<rparr>)"
      "ec' = (if se_exists (ss_session s) \<and> se_open (ss_session s) then ec else NoError)" by auto
    from close_completed(3) obtain cs where "\<not> se_exists (ss_session s)"
      "se_trace (ss_session s) = tr @ map (\<lambda>c. ClosedCalled c NoError) cs" by (auto simp: silent_since_def)
    with t have "\<not> se_exists t \<and> se_trace t = tr @ map (\<lambda>c. ClosedCalled c NoError) (cs @ [c])"
      by (simp add: session_emit_def)
    then show ?thesis unfolding silent_since_def by (intro conjI exI [of _ "cs @ [c]"]) simp_all
  qed
qed (auto simp: silent_since_def pongHandler_def heartbeatHandler_def)

interpretation silent: invariant_system "silent_since tr" session_step "silent_since tr" for tr
  by unfold_locales (auto intro: silent_step)

lemma paced_span: "paced p (t # ts) \<Longrightarrow> t + p * length ts \<le> last (t # ts)"
proof (induction ts arbitrary: t)
  case (Cons u us)
  then have "t + p \<le> u" and "u + p * length us \<le> last (u # us)" by simp_all
  then show ?case by simp
qed simp

subsection \<open>Properties\<close>

text \<open>C16: The heartbeat never stops on a healthy connection and never doubles: once the monitoring was
  started, while the session exists, its stream is open and no pong has failed, a pong or an
  uncancelled wait is outstanding; and at no time is more than one wait of the timer running, however
  often the monitoring is started.\<close>

theorem heartbeat_goes_on_once:
  assumes "reachable session_init session_step s"
  shows "length (running (se_waits (ss_session s))) \<le> 1 \<and>
     (0 < ss_starts s \<and> se_open (ss_session s) \<and> se_exists (ss_session s) \<and> \<not> ss_pongFailed s \<longrightarrow>
        se_pongs (ss_session s) \<noteq> [] \<or>
        (\<exists>d st. (d, st) \<in> set (se_waits (ss_session s)) \<and> (st = Running \<or> st = Ready NoError)))"
  using monitoring.reachable_inv [OF assms]
  by (simp add: session_inv_def one_heartbeat_def heartbeat_goes_on_def chain_alive_def)

theorem heartbeat_goes_on_once_witness:
  "length (running (se_waits (ss_session ssystem1))) \<le> 1 \<and> se_pongs (ss_session ssystem1) \<noteq> []"
  using heartbeat_goes_on_once [OF reachable_ssystem1] by (simp add: ssystem1_def session1_def)

text \<open>C21: From every state of a healthy monitored session the next pong can be sent: completing what is
  outstanding and letting time pass leads to it.\<close>

theorem next_pong_is_sent:
  assumes "reachable session_init session_step s" and "0 < ss_starts s" and "se_open (ss_session s)"
    and "se_exists (ss_session s)" and "\<not> ss_pongFailed s"
  shows "\<exists>es t now. run session_step s es t \<and>
     pong_times (ss_session t) = pong_times (ss_session s) @ [now]"
proof -
  have inv: "session_inv s" using assms(1) by (rule monitoring.reachable_inv)
  let ?same = "\<lambda>u. se_open (ss_session u) \<and> se_exists (ss_session u) \<and>
     pong_times (ss_session u) = pong_times (ss_session s)"
  have "\<exists>es u d st. run session_step s es u \<and> ?same u \<and> (d, st) \<in> set (se_waits (ss_session u)) \<and>
     (st = Running \<or> st = Ready NoError)"
  proof (cases "se_pongs (ss_session s) = []")
    case True
    with inv assms(2-5) obtain d st where "(d, st) \<in> set (se_waits (ss_session s))"
      "st = Running \<or> st = Ready NoError"
      by (auto simp: session_inv_def heartbeat_goes_on_def chain_alive_def)
    with assms(3,4) show ?thesis
      by (intro exI [of _ "[]"] exI [of _ s] exI [of _ d] exI [of _ st]) simp
  next
    case False
    then obtain p st where "(p, st) \<in> set (se_pongs (ss_session s))"
      by (cases "se_pongs (ss_session s)") auto
    from outstanding_pong_restarts [OF inv this assms(5,4)] assms(3) show ?thesis by auto
  qed
  then obtain es u d st where u: "run session_step s es u" "?same u" "(d, st) \<in> set (se_waits (ss_session u))"
    "st = Running \<or> st = Ready NoError" by blast
  have "\<exists>fs v. run session_step u fs v \<and> ?same v \<and> (d, Ready NoError) \<in> set (se_waits (ss_session v))"
    using u(4)
  proof
    assume "st = Running"
    with u(2,3) running_wait_expires [of d u] show ?thesis by auto
  next
    assume "st = Ready NoError"
    with u(2,3) show ?thesis by (intro exI [of _ "[]"] exI [of _ u]) simp
  qed
  then obtain fs v where v: "run session_step u fs v" "?same v" "(d, Ready NoError) \<in> set (se_waits (ss_session v))"
    by blast
  with ready_wait_sends_pong [of d v] obtain e t where "session_step v e t"
    "pong_times (ss_session t) = pong_times (ss_session s) @ [ss_now v]" by auto
  moreover from this(1) u(1) v(1) have "run session_step s ((es @ fs) @ [e]) t" by (auto simp: run_append)
  ultimately show ?thesis by blast
qed

theorem next_pong_is_sent_witness:
  "\<exists>es t now. run session_step ssystem1 es t \<and> pong_times (ss_session t) = [0, 120, now]"
  using next_pong_is_sent [OF reachable_ssystem1]
  by (simp add: ssystem1_def session1_def pong_times_def)

text \<open>C22: When the monitoring was started once, pongs are at least a heartbeat period apart: no more are
  sent than fit in the time since the first.\<close>

theorem pongs_are_paced:
  assumes "reachable session_init session_step s" and "ss_starts s = 1"
    and "pong_times (ss_session s) = t # ts"
  shows "paced (se_heartbeatPeriod (ss_session s)) (t # ts) \<and>
     t + se_heartbeatPeriod (ss_session s) * length ts \<le> ss_now s"
proof -
  have hp: "heartbeat_paced s" using monitoring.reachable_inv [OF assms(1)] by (simp add: session_inv_def)
  then have p: "paced (se_heartbeatPeriod (ss_session s)) (t # ts)"
    using paced_once(2) assms by fastforce
  moreover have "last (t # ts) \<le> ss_now s"
    using paced_once(3) [OF hp, of "last (t # ts)"] assms(2,3) by simp
  ultimately show ?thesis using paced_span [OF p] by simp
qed

theorem pongs_are_paced_witness: "paced 100 [0, 120] \<and> 0 + 100 * length [120::nat] \<le> (120::nat)"
  using pongs_are_paced [OF reachable_ssystem1, of 0 "[120]"]
  by (simp add: ssystem1_def session1_def pong_times_def)

text \<open>C20: The callback of every closing handshake is called exactly once, when it completes: the callbacks
  given to \<open>close\<close> are those still outstanding and those called.\<close>

theorem close_callbacks_called_once:
  assumes "reachable session_init session_step s"
  shows "mset (concat (map callback_list (ss_closing s))) =
     mset (concat (map callback_list (op_keys (se_closes (ss_session s))))) + mset (closed_calls (ss_session s))"
  using monitoring.reachable_inv [OF assms] by (simp only: session_inv_def closes_ok_def)

theorem close_callbacks_called_once_witness:
  "mset (concat (map callback_list (ss_closing ssystem2))) = {#2#} \<and>
   mset (closed_calls (ss_session ssystem2)) = {#2#}"
  using close_callbacks_called_once [OF reachable_ssystem2]
  by (simp add: ssystem2_def ssystem1_def session1_def)

text \<open>A closing handshake reports its error only while the session exists and its stream is still
  open; a stream that is closed, or a session that is gone, counts as success.\<close>

theorem close_reports_error_only_if_open:
  shows "closeHandler (Fn c) ec s =
     Done (session_emit (ClosedCalled c (if se_exists s \<and> se_open s then ec else NoError)) s)"
  by (simp add: closeHandler_def)

text \<open>As far as the events of \<open>Session_Machine\<close> go, a dropped session calls nothing but the callbacks of
  outstanding closing handshakes, with success.\<close>

theorem dropped_session_is_silent:
  assumes "\<not> se_exists (ss_session s)" and "run session_step s es t"
  shows "\<exists>cs. se_trace (ss_session t) = se_trace (ss_session s) @ map (\<lambda>c. ClosedCalled c NoError) cs"
proof -
  have "silent_since (se_trace (ss_session s)) s"
    using assms(1) by (auto simp: silent_since_def intro: exI [of _ "[]"])
  then have "silent_since (se_trace (ss_session s)) t" using assms(2) by (rule silent.run_inv)
  then show ?thesis by (simp add: silent_since_def)
qed

definition dropped :: example_session where
  "dropped = ssystem1\<lparr>ss_session := destroy_Session (close (Fn 3) session1)\<rparr>"

theorem dropped_session_is_silent_witness:
  "\<exists>t cs. run session_step dropped [PongCompleted 0, ControlFrame pong_frame, CloseCompleted 0] t \<and>
     se_trace (ss_session t) = se_trace session1 @ map (\<lambda>c. ClosedCalled c NoError) cs"
proof -
  have "\<exists>t. run session_step dropped [PongCompleted 0, ControlFrame pong_frame, CloseCompleted 0] t"
    by (simp add: dropped_def ssystem1_def session1_def session_run_defs)
  then obtain t where t: "run session_step dropped [PongCompleted 0, ControlFrame pong_frame, CloseCompleted 0] t" ..
  from dropped_session_is_silent [OF _ t] t show ?thesis
    by (auto simp: dropped_def session_ops Let_def)
qed

text \<open>A failed read is reported to the read error callback of the session with the message of the error,
  once, while the session exists; afterwards it is dropped without calling anything.\<close>

theorem read_failure_reported:
  assumes "failed ec"
  shows "\<exists>t. sessionReadDone msg H bufs ec (setErrorHandlers wcb (Fn c) s) = Some (Done t) \<and>
     se_trace t = se_trace s @ (if se_exists s then [ReadErrorCalled c (msg ec)] else [])"
  using assms
  by (simp add: sessionReadDone_def afterRead_def readDone.simps setErrorHandlers_def setErrorHandler_r_def read_emit_def
      runClosure_def session_emit_def)

theorem read_failure_reported_witness:
  "\<exists>t. sessionReadDone (\<lambda>ec. ''aborted'') (\<lambda>h d n u. (ReadTask_default, u)) (\<lambda>b. [b]) OperationAborted
         (setErrorHandlers NullFn (Fn 8) session1) = Some (Done t) \<and>
     se_trace t = se_trace session1 @ [ReadErrorCalled 8 ''aborted'']"
  using read_failure_reported [of OperationAborted "\<lambda>ec. ''aborted''" "\<lambda>h d n u. (ReadTask_default, u)"
      "\<lambda>b. [b]" NullFn 8 session1]
  by (simp add: session1_def)

text \<open>C40: A failed write of a session releases the buffers of its batch and is reported to the write error
  callback with the message of the error, while the session exists; an empty callback is called all
  the same and throws out of the completion handler.\<close>

theorem write_failure_reported:
  assumes "failed ec" and "wr_tasksQueue (se_writer s) = front # rest"
    and "\<forall>t \<in> set (fst front). WriteTask_asserts t" and "se_exists s" and "wr_aliveCallback (se_writer s) \<noteq> NullFn"
  shows "\<exists>t. sessionWriteDone msg ec (setErrorHandlers cb rcb s) =
       (case cb of NullFn \<Rightarrow> Thrown BadFunctionCall t | _ \<Rightarrow> Done t) \<and>
     wr_handled (se_writer t) = wr_handled (se_writer s) @ batch_handlers (fst front) \<and>
     se_trace t = se_trace s @ (case cb of Fn c \<Rightarrow> [WriteErrorCalled c (msg ec)] | _ \<Rightarrow> [])"
proof -
  let ?w = "setErrorHandler_w (Fn (WriteErrorClosure cb)) (se_writer s)"
  have "writeDone ec ?w = Done (written ec ?w)"
    using assms(2,3,5) by (intro writeDone_Done) (simp_all add: setErrorHandler_w_def)
  then show ?thesis
    using assms(1,2,4)
    by (cases cb)
       (simp_all add: sessionWriteDone_def afterWrite_def setErrorHandlers_def written_def setErrorHandler_w_def
         runClosure_def session_emit_def wr_handled_def Let_def)
qed

definition writing_session :: "(nat, unit, nat, nat, unit) session" where
  "writing_session = session1\<lparr>se_writer := new_AsyncWriter\<lparr>wr_tasksQueue := [([WriteTask [1] (Fn 10)], None)]\<rparr>\<rparr>"

theorem write_failure_reported_witness:
  "\<exists>t. sessionWriteDone (\<lambda>ec. ''reset'') (OtherError 1) (setErrorHandlers (Fn 6) NullFn writing_session) = Done t \<and>
     wr_handled (se_writer t) = [10] \<and> se_trace t = se_trace session1 @ [WriteErrorCalled 6 ''reset'']"
  using write_failure_reported [of "OtherError 1" writing_session "([WriteTask [1] (Fn 10)], None)" "[]"
      "\<lambda>ec. ''reset''" "Fn 6" NullFn]
  by (simp add: writing_session_def session1_def new_AsyncWriter_def WriteTask_def WriteTask_asserts_def
      wr_handled_def batch_handlers_def)

text \<open>The alive callback is called for a read but not for a write: a successful write of a monitored
  session calls nothing but the handlers of its tasks.\<close>

theorem successful_write_not_reported_alive:
  assumes "wr_tasksQueue (se_writer s) = front # rest" and "\<forall>t \<in> set (fst front). WriteTask_asserts t"
    and "wr_aliveCallback (se_writer s) = NoOpFn"
  shows "\<exists>t. sessionWriteDone msg NoError (startConnectionActivityMonitoring now (Fn c) period s) = Done t \<and>
     se_trace t = se_trace (startConnectionActivityMonitoring now (Fn c) period s) \<and>
     rd_aliveCallback (se_reader t) = Fn (AliveClosure c)"
proof -
  let ?s = "startConnectionActivityMonitoring now (Fn c) period s"
  have same: "se_writer ?s = se_writer s" "rd_aliveCallback (se_reader ?s) = Fn (AliveClosure c)"
    by (simp_all add: startConnectionActivityMonitoring_def schedulePong_def session_emit_def Let_def
        setConnectionAliveHandler_r_def alive_closure_def)
  have "writeDone NoError (se_writer ?s) = Done (written NoError (se_writer ?s))"
    using assms by (intro writeDone_Done [of _ front rest]) (simp_all add: same)
  moreover have "\<exists>es. wr_trace (written NoError (se_writer ?s))
      = wr_trace (se_writer ?s) @ map WriteHandled (batch_handlers (fst front)) @ es \<and> set es \<subseteq> range WriteStarted"
    using assms by (auto simp: same written_def started_def Let_def split: list.splits)
  then obtain es where "wr_trace (written NoError (se_writer ?s))
      = wr_trace (se_writer ?s) @ map WriteHandled (batch_handlers (fst front)) @ es" "set es \<subseteq> range WriteStarted"
    by blast
  ultimately show ?thesis by (simp add: sessionWriteDone_def afterWrite_def runWriteEffects_started same(2))
qed

theorem successful_write_not_reported_alive_witness:
  "\<exists>t. sessionWriteDone (\<lambda>ec. []) NoError (startConnectionActivityMonitoring 150 (Fn 1) 100 writing_session) = Done t \<and>
     se_trace t = se_trace session1 @ [PongSent 150 pong_payload]"
  using successful_write_not_reported_alive [of writing_session "([WriteTask [1] (Fn 10)], None)" "[]"
      "\<lambda>ec. []" 150 1 100]
  by (auto simp: writing_session_def session1_def new_AsyncWriter_def WriteTask_def WriteTask_asserts_def
      startConnectionActivityMonitoring_def schedulePong_def session_emit_def pong_payload_def Let_def)

end
