(* ===== verification/Framing.thy ===== *)
theory Framing
  imports Reader_Machine
begin

section \<open>Message framing over the reader\<close>

text \<open>
  The read handlers of \<open>test/test_messages.cpp\<close>: a message is an eight byte size in little
  endian order and then that many bytes of payload; \<open>onReadHeader\<close> reads the size,
  \<open>onReadPayload\<close> stores the payload and asks for the next header until the expected number of
  messages was received. They are a client of the reader: they satisfy the contract
  \<open>read_handlers\<close>, and reading a concatenation of framed messages yields the messages.

  \<open>memcpy\<close> of eight bytes is modelled on the bytes the handler was told of, eight whenever the
  handler is used.
\<close>

datatype frame_handler = OnReadHeader | OnReadPayload

record frame_vars =
  received :: "byte list list"
  recvCounter :: nat
  toSend_size :: nat

fun le_value :: "byte list \<Rightarrow> nat" where
  "le_value [] = 0"
| "le_value (b # bs) = unat b + 256 * le_value bs"

fun le_bytes :: "nat \<Rightarrow> nat \<Rightarrow> byte list" where
  "le_bytes 0 v = []"
| "le_bytes (Suc k) v = of_nat v # le_bytes k (v div 256)"

fun pointed :: "byte list option \<Rightarrow> nat \<Rightarrow> byte list" where
  "pointed None n = []"
| "pointed (Some b) n = take n b"

fun frame_handlers :: "(frame_handler, frame_vars) handlers" where
  "frame_handlers OnReadHeader d n u =
     (let nextPayloadSize = le_value (take 8 (pointed d n))
      in (ReadTask (Some OnReadPayload) nextPayloadSize, u))"
| "frame_handlers OnReadPayload d n u =
     (let u' = u\<lparr>received := received u @ [pointed d n], recvCounter := Suc (recvCounter u)\<rparr>
      in if recvCounter u' = toSend_size u' then (ReadTask_default, u')
         else (ReadTask (Some OnReadHeader) 8, u'))"

fun frame_rank :: "frame_handler \<Rightarrow> nat" where
  "frame_rank OnReadHeader = 1"
| "frame_rank OnReadPayload = 0"

definition frame :: "byte list \<Rightarrow> byte list" where
  "frame p = le_bytes 8 (length p) @ p"

abbreviation read_header :: "frame_handler read_task" where
  "read_header \<equiv> ReadTask (Some OnReadHeader) 8"

lemmas read_task_defs = ReadTask_def ReadTask_default_def

interpretation framing: read_handlers frame_handlers frame_rank "\<lambda>b. [b]"
proof (unfold_locales, goal_cases)
  case (1 n b h u) then show ?case by (cases h) simp_all
next
  case (2 h d n u h') then show ?case by (cases h) (auto simp: Let_def read_task_defs split: if_splits)
next
  case 3 show ?case by simp
qed

subsection \<open>Sizes\<close>

lemma length_le_bytes [simp]: "length (le_bytes k v) = k"
  by (induction k v rule: le_bytes.induct) simp_all

lemma le_value_le_bytes: "le_value (le_bytes k v) = v mod 256 ^ k"
proof (induction k v rule: le_bytes.induct)
  case (2 k v)
  have "unat (of_nat v :: byte) = v mod 256"
    by (simp add: unat_of_nat)
  moreover have "v mod 256 + 256 * (v div 256 mod 256 ^ k) = v mod (256 * 256 ^ k)"
    by (simp add: mod_mult2_eq)
  ultimately show ?case using 2 by simp
qed simp

lemma length_frame: "length (frame p) = 8 + length p"
  by (simp add: frame_def)

subsection \<open>Reading framed messages\<close>

lemma read_one_frame:
  assumes "length p < 256 ^ 8"
  shows "read_stream frame_handlers read_header u (frame p @ rest) calls =
     read_stream frame_handlers
       (if Suc (recvCounter u) = toSend_size u then ReadTask_default else read_header)
       (u\<lparr>received := received u @ [p], recvCounter := Suc (recvCounter u)\<rparr>) rest
       (calls @ [(OnReadHeader, le_bytes 8 (length p)), (OnReadPayload, p)])"
proof -
  have size: "le_value (le_bytes 8 (length p)) = length p"
    using assms by (simp add: le_value_le_bytes)
  have "read_stream frame_handlers read_header u (frame p @ rest) calls =
     read_stream frame_handlers (ReadTask (Some OnReadPayload) (length p)) u (p @ rest)
       (calls @ [(OnReadHeader, le_bytes 8 (length p))])"
    by (subst read_stream_go [where h = OnReadHeader])
       (simp_all add: ReadTask_def frame_def size)
  also have "\<dots> = read_stream frame_handlers
       (if Suc (recvCounter u) = toSend_size u then ReadTask_default else read_header)
       (u\<lparr>received := received u @ [p], recvCounter := Suc (recvCounter u)\<rparr>) rest
       (calls @ [(OnReadHeader, le_bytes 8 (length p)), (OnReadPayload, p)])"
    by (subst read_stream_go [where h = OnReadPayload])
       (simp_all add: ReadTask_def Let_def)
  finally show ?thesis .
qed

lemma read_frames:
  assumes "ps \<noteq> []" and "\<forall>p \<in> set ps. length p < 256 ^ 8"
    and "recvCounter u + length ps = toSend_size u"
  shows "\<exists>calls'. read_stream frame_handlers read_header u (concat (map frame ps) @ rest) calls =
     Some (ReadTask_default,
           u\<lparr>received := received u @ ps, recvCounter := recvCounter u + length ps\<rparr>, rest, calls')"
  using assms
proof (induction ps arbitrary: u calls)
  case Nil
  then show ?case by simp
next
  case (Cons p ps)
  let ?u = "u\<lparr>received := received u @ [p], recvCounter := Suc (recvCounter u)\<rparr>"
  show ?case
  proof (cases "ps = []")
    case True
    with Cons.prems show ?thesis
      by (simp add: read_one_frame read_stream_stop ReadTask_default_def)
  next
    case False
    with Cons.prems have "Suc (recvCounter u) \<noteq> toSend_size u" by (cases ps) auto
    with False Cons.prems Cons.IH [of ?u] show ?thesis
      by (simp add: read_one_frame)
  qed
qed

text \<open>Received messages are only ever appended.\<close>

lemma frame_handlers_append:
  "prefix (received u) (received (snd (frame_handlers h d n u)))"
  by (cases h) (simp_all add: Let_def)

lemma read_stream_appends:
  assumes "read_stream frame_handlers t u b calls = Some q"
  shows "prefix (received u) (received (fst (snd q)))"
proof -
  have "H = frame_handlers \<longrightarrow> prefix (received u) (received (fst (snd q)))"
    if "read_stream H t u b calls = Some q" for H t u b calls q
  proof (rule read_stream.raw_induct [where P = "\<lambda>H t u b calls q. H = frame_handlers \<longrightarrow>
          prefix (received u) (received (fst (snd q)))", OF _ that])
    fix f H t u b calls q
    assume IH: "\<And>H t u b calls q. f H t u b calls = Some q \<Longrightarrow>
        H = frame_handlers \<longrightarrow> prefix (received u) (received (fst (snd q)))"
      and eq: "(case rt_handler t of None \<Rightarrow> Some (t, u, b, calls)
        | Some h \<Rightarrow> if rt_size t \<le> length b
            then f H (fst (H h (Some (take (rt_size t) b)) (rt_size t) u))
                   (snd (H h (Some (take (rt_size t) b)) (rt_size t) u))
                   (drop (rt_size t) b) (calls @ [(h, take (rt_size t) b)])
            else Some (t, u, b, calls)) = Some q"
    show "H = frame_handlers \<longrightarrow> prefix (received u) (received (fst (snd q)))"
    proof
      assume H: "H = frame_handlers"
      show "prefix (received u) (received (fst (snd q)))"
      proof (cases "\<exists>h. rt_handler t = Some h \<and> rt_size t \<le> length b")
        case True
        then obtain h where h: "rt_handler t = Some h" "rt_size t \<le> length b" by blast
        with eq H IH have "prefix (received (snd (frame_handlers h (Some (take (rt_size t) b)) (rt_size t) u)))
            (received (fst (snd q)))" by auto
        with frame_handlers_append show ?thesis by (rule prefix_order.trans)
      next
        case False
        with eq show ?thesis by (auto split: option.splits)
      qed
    qed
  qed
  with assms show ?thesis by blast
qed

text \<open>What has been received of a stream of frames of which any part has come in.\<close>

lemma read_frames_prefix:
  assumes "ps \<noteq> []" and "\<forall>p \<in> set ps. length p < 256 ^ 8"
    and "recvCounter u + length ps = toSend_size u"
    and "prefix b (concat (map frame ps))"
    and "read_stream frame_handlers read_header u b calls = Some (t', u', b', calls')"
  shows "prefix (received u') (received u @ ps) \<and>
     (b = concat (map frame ps) \<longrightarrow> t' = ReadTask_default \<and> b' = [] \<and> received u' = received u @ ps)"
proof -
  obtain x where x: "concat (map frame ps) = b @ x" using assms(4) by (rule prefixE)
  obtain cs where all: "read_stream frame_handlers read_header u (b @ x) calls =
      Some (ReadTask_default,
            u\<lparr>received := received u @ ps, recvCounter := recvCounter u + length ps\<rparr>, [], cs)"
    using read_frames [OF assms(1-3), of "[]" calls] x by auto
  with read_stream_more [OF assms(5), of x]
  have "read_stream frame_handlers t' u' (b' @ x) calls' =
      Some (ReadTask_default,
            u\<lparr>received := received u @ ps, recvCounter := recvCounter u + length ps\<rparr>, [], cs)" by simp
  from read_stream_appends [OF this] have "prefix (received u') (received u @ ps)" by simp
  moreover have "t' = ReadTask_default \<and> b' = [] \<and> received u' = received u @ ps"
    if "b = concat (map frame ps)"
    using that all x assms(5) by auto
  ultimately show ?thesis by blast
qed

text \<open>A reader of frames never waits for more than the rest of the frames.\<close>

lemma frames_complete_task:
  assumes "ps \<noteq> []" and "\<forall>p \<in> set ps. length p < 256 ^ 8"
    and "recvCounter u + length ps = toSend_size u"
    and "b @ x = concat (map frame ps)"
    and "read_stream frame_handlers read_header u b calls = Some (t', u', b', calls')"
    and "rt_handler t' \<noteq> None"
  shows "rt_size t' \<le> length b' + length x"
proof (rule ccontr)
  assume "\<not> rt_size t' \<le> length b' + length x"
  then have "read_stream frame_handlers t' u' (b' @ x) calls' = Some (t', u', b' @ x, calls')"
    by (intro read_stream_stop) simp
  with read_stream_more [OF assms(5), of x]
  have "read_stream frame_handlers read_header u (b @ x) calls = Some (t', u', b' @ x, calls')" by simp
  moreover obtain cs where "read_stream frame_handlers read_header u (b @ x) calls =
      Some (ReadTask_default,
            u\<lparr>received := received u @ ps, recvCounter := recvCounter u + length ps\<rparr>, [], cs)"
    using read_frames [OF assms(1-3), of "[]" calls] assms(4) by auto
  ultimately show False using assms(6) by (auto simp: ReadTask_default_def)
qed

end
