(* ===== verification/Reader_Properties.thy ===== *)
theory Reader_Properties
  imports Framing
begin

section \<open>Properties of the reader\<close>

text \<open>
  The properties of \<open>AsyncReader\<close> under any environment, over the machine of \<open>Reader_Machine\<close>, with
  the framing handlers of \<open>Framing\<close> as the concrete handlers of the witnesses.
\<close>

subsection \<open>A concrete run\<close>

text \<open>\<open>readDone\<close> unfolded for evaluation: no recursive call under a lambda.\<close>

lemma readDone_eval:
  "readDone H bufs ec r =
     (if failed ec
      then (if rd_errorHandler r \<noteq> NullFn
            then Some (invoke (rd_errorHandler r) (\<lambda>c. read_emit (ReadFailed c ec)) r)
            else Some (Done (read_emit (ReadFailLogged ec) r)))
      else (case callReadHandler H bufs r of
              Done r1 \<Rightarrow>
                if rt_handler (rd_pendingTask r1) = None then Some (Done r1)
                else if rt_size (rd_pendingTask r1) \<le> length (rd_buffer r1)
                then readDone H bufs NoError r1
                else Some (Done (r1\<lparr>rd_reads :=
                       start_op (rt_size (rd_pendingTask r1) - length (rd_buffer r1)) (rd_reads r1)\<rparr>))
            | Thrown x r1 \<Rightarrow> Some (Thrown x r1)
            | Undefined \<Rightarrow> Some Undefined))"
  by (subst readDone.simps) (auto simp: read_def bufferSize_def Let_def split: outcome.splits)

lemma doRead_eval:
  "doRead H bufs n r =
     (if n \<le> length (rd_buffer r) then readDone H bufs NoError r
      else Some (Done (r\<lparr>rd_reads := start_op (n - length (rd_buffer r)) (rd_reads r)\<rparr>)))"
  by (simp add: doRead_def read_def bufferSize_def)

definition vars0 :: frame_vars where
  "vars0 = \<lparr>received = [], recvCounter = 0, toSend_size = 1\<rparr>"

definition system0 :: "(frame_handler, nat, frame_vars) read_system" where
  "system0 = \<lparr>rs_reader = setErrorHandler_r NullFn (setConnectionAliveHandler_r NoOpFn (new_AsyncReader vars0)),
              rs_entry = ReadTask_default, rs_user = vars0, rs_calls = [], rs_input = []\<rparr>"

text \<open>A message of two bytes arrives in two pieces, cut in the middle of the payload.\<close>

definition events0 :: "frame_handler read_event list" where
  "events0 = [ScheduleRead read_header, RunPostedRead,
              ReceiveBytes 0 NoError [2, 0, 0, 0, 0, 0, 0, 0, 7], ReadCompleted 0,
              ReceiveBytes 0 NoError [9], ReadCompleted 0]"

definition reader1 :: "(frame_handler, nat, frame_vars) reader" where
  "reader1 = \<lparr>rd_buffer = [], rd_pendingTask = ReadTask_default, rd_errorHandler = NullFn,
      rd_aliveCallback = NoOpFn,
      rd_user = \<lparr>received = [[7, 9]], recvCounter = 1, toSend_size = 1\<rparr>,
      rd_posted = 0, rd_reads = [],
      rd_trace = [ReadHandled OnReadHeader [2, 0, 0, 0, 0, 0, 0, 0], ReadHandled OnReadPayload [7, 9]]\<rparr>"

definition system1 :: "(frame_handler, nat, frame_vars) read_system" where
  "system1 = \<lparr>rs_reader = reader1, rs_entry = read_header, rs_user = vars0, rs_calls = [],
              rs_input = [2, 0, 0, 0, 0, 0, 0, 0, 7, 9]\<rparr>"

lemma run_events0: "run (read_step frame_handlers (\<lambda>b. [b])) system0 events0 system1"
  by (simp add: events0_def read_step_simps system0_def system1_def vars0_def reader1_def
      read_setup_defs ReadTask_asserts_def ReadTask_def ReadTask_default_def runPostedRead_def
      doRead_eval readDone_eval callReadHandler_def read_emit_def data_def consume_def
      start_op_def handled_def Let_def)

lemma reachable_system1: "reachable read_init (read_step frame_handlers (\<lambda>b. [b])) system1"
proof (rule run_reachable [OF reachable_init run_events0])
  show "read_init system0"
    unfolding read_init_def system0_def by blast
qed

lemma zero_size_loop:
  assumes loop: "\<And>d n u. H h d n u = (ReadTask (Some h) 0, u)"
    and start: "rd_pendingTask r = ReadTask (Some h) 0" "rd_aliveCallback r \<noteq> NullFn"
  shows "readDone H bufs NoError r = None"
proof (rule ccontr)
  let ?loops = "\<lambda>H' ec r. H' = H \<and> ec = NoError \<and> rd_pendingTask r = ReadTask (Some h) 0 \<and>
      rd_aliveCallback r \<noteq> NullFn"
  assume "readDone H bufs NoError r \<noteq> None"
  then obtain m where "readDone H bufs NoError r = Some m" by blast
  then have "\<not> ?loops H NoError r"
  proof (rule readDone.raw_induct [where P = "\<lambda>H' bufs ec r m. \<not> ?loops H' ec r", rotated])
    fix f H' bufs ec r m
    assume IH: "\<And>H' bufs ec r m. f H' bufs ec r = Some m \<Longrightarrow> \<not> ?loops H' ec r"
      and eq: "(if \<not> failed ec
         then continue (callReadHandler H' bufs r)
               (\<lambda>r. if rt_handler (rd_pendingTask r) \<noteq> None
                    then read (rt_size (rd_pendingTask r)) (\<lambda>ec size. f H' bufs ec) r
                    else Some (Done r))
         else if rd_errorHandler r \<noteq> NullFn
              then Some (invoke (rd_errorHandler r) (\<lambda>c. read_emit (ReadFailed c ec)) r)
              else Some (Done (read_emit (ReadFailLogged ec) r))) = Some m"
    show "\<not> ?loops H' ec r"
    proof
      assume l: "?loops H' ec r"
      then obtain r' where "callReadHandler H' bufs r = Done r'" "rd_pendingTask r' = ReadTask (Some h) 0"
        "rd_aliveCallback r' \<noteq> NullFn"
        using loop
        by (cases "rd_aliveCallback r")
           (auto simp: callReadHandler_def read_emit_def consume_def ReadTask_def Let_def)
      then show False
        using eq l IH [of H' bufs NoError r' m] by (simp add: read_def ReadTask_def)
    qed
  qed
  with start show False by simp
qed

text \<open>A sequence that waits for bytes or has ended has done what the reference does.\<close>

lemma quiet_reader:
  assumes "read_inv H s"
    and "rt_handler (rd_pendingTask (rs_reader s)) = None \<or> (\<exists>k. rd_reads (rs_reader s) = [(k, Running)])"
  shows "read_stream H (rs_entry s) (rs_user s) (rs_input s) (rs_calls s)
           = Some (rd_pendingTask (rs_reader s), rd_user (rs_reader s), rd_buffer (rs_reader s),
                   handled (rs_reader s))"
proof -
  from assms have "rt_handler (rd_pendingTask (rs_reader s)) = None
      \<or> length (rd_buffer (rs_reader s)) < rt_size (rd_pendingTask (rs_reader s))"
    by (auto simp: read_inv_def Let_def read_op_ok_def)
  then show ?thesis
    using assms(1) by (simp add: read_inv_def Let_def read_stream_stop)
qed

subsection \<open>Properties\<close>

text \<open>C4: However the network cuts the stream into pieces, the handlers see what the reference sees:
  whenever a sequence waits for bytes or has ended, the handler calls, the variables of the
  handlers, the pending task and the unread bytes are those of reading the tasks one after the
  other off everything received since the sequence began.\<close>

theorem reader_segmentation_independent:
  assumes "read_handlers H rank bufs" and "reachable read_init (read_step H bufs) s"
    and "rt_handler (rd_pendingTask (rs_reader s)) = None \<or> (\<exists>k. rd_reads (rs_reader s) = [(k, Running)])"
  shows "read_stream H (rs_entry s) (rs_user s) (rs_input s) (rs_calls s)
           = Some (rd_pendingTask (rs_reader s), rd_user (rs_reader s), rd_buffer (rs_reader s),
                   handled (rs_reader s))"
  using quiet_reader [OF read_handlers.read_reachable_inv [OF assms(1,2)] assms(3)] .

theorem reader_segmentation_independent_witness:
  "read_stream frame_handlers (rs_entry system1) (rs_user system1) (rs_input system1) (rs_calls system1)
     = Some (rd_pendingTask (rs_reader system1), rd_user (rs_reader system1),
             rd_buffer (rs_reader system1), handled (rs_reader system1))
   \<and> received (rd_user (rs_reader system1)) = [[7, 9]]"
proof
  show "read_stream frame_handlers (rs_entry system1) (rs_user system1) (rs_input system1) (rs_calls system1)
     = Some (rd_pendingTask (rs_reader system1), rd_user (rs_reader system1),
             rd_buffer (rs_reader system1), handled (rs_reader system1))"
    by (rule reader_segmentation_independent [OF framing.read_handlers_axioms reachable_system1])
       (simp_all add: system1_def reader1_def ReadTask_default_def)
  show "received (rd_user (rs_reader system1)) = [[7, 9]]"
    by (simp add: system1_def reader1_def)
qed

text \<open>At most one read of the stream is outstanding at any time, and while it is running it asks
  for exactly the bytes that the pending task still misses.\<close>

theorem reader_single_read:
  assumes "read_handlers H rank bufs" and "reachable read_init (read_step H bufs) s"
  shows "length (rd_reads (rs_reader s)) + rd_posted (rs_reader s) \<le> 1 \<and>
     (\<forall>k. (k, Running) \<in> set (rd_reads (rs_reader s)) \<longrightarrow>
        0 < k \<and> length (rd_buffer (rs_reader s)) + k = rt_size (rd_pendingTask (rs_reader s)))"
  using read_handlers.read_reachable_inv [OF assms]
  by (auto simp: read_inv_def Let_def read_op_ok_def)

theorem reader_single_read_witness:
  "length (rd_reads (rs_reader system1)) + rd_posted (rs_reader system1) \<le> 1"
  using reader_single_read [OF framing.read_handlers_axioms reachable_system1] by blast

text \<open>C15: Every handler of the reader returns, and without an exception: in no reachable state does
  running the posted read or completing a read recurse for ever, throw or do something
  undefined.\<close>

theorem reader_always_returns:
  assumes "read_handlers H rank bufs" and "reachable read_init (read_step H bufs) s"
  shows "\<not> read_bad H bufs s e"
  using assms by (rule read_handlers.read_reachable_safe)

theorem reader_always_returns_witness:
  "\<not> read_bad frame_handlers (\<lambda>b. [b]) system1 (ReadCompleted 0)"
  by (rule reader_always_returns [OF framing.read_handlers_axioms reachable_system1])

text \<open>C17: Asked to run a task, the reader returns after finitely many handler calls, having done what
  the reference does on the bytes it has buffered, and reads on only if the next task misses
  bytes.\<close>

theorem doRead_refines_read_stream:
  assumes "read_handlers H rank bufs" and "rd_aliveCallback r \<noteq> NullFn"
    and "rt_handler (rd_pendingTask r) \<noteq> None"
  shows "\<exists>r'. doRead H bufs (rt_size (rd_pendingTask r)) r = Some (Done r') \<and> same_setup r r' \<and>
           read_stream H (rd_pendingTask r) (rd_user r) (rd_buffer r) (handled r)
             = Some (rd_pendingTask r', rd_user r', rd_buffer r', handled r') \<and>
           (if rt_handler (rd_pendingTask r') = None then rd_reads r' = rd_reads r
            else length (rd_buffer r') < rt_size (rd_pendingTask r') \<and>
                 rd_reads r' = start_op (rt_size (rd_pendingTask r') - length (rd_buffer r')) (rd_reads r))"
  using assms by (rule read_handlers.doRead_spec)

definition reader0 :: "(frame_handler, nat, frame_vars) reader" where
  "reader0 = (scheduleRead read_header (new_AsyncReader vars0))\<lparr>rd_buffer := [1, 0, 0, 0, 0, 0, 0, 0]\<rparr>"

theorem doRead_refines_read_stream_witness:
  "\<exists>r'. doRead frame_handlers (\<lambda>b. [b]) 8 reader0 = Some (Done r') \<and>
     read_stream frame_handlers read_header vars0 [1, 0, 0, 0, 0, 0, 0, 0] []
       = Some (rd_pendingTask r', rd_user r', rd_buffer r', handled r')"
  using doRead_refines_read_stream [OF framing.read_handlers_axioms, of reader0]
  by (auto simp: reader0_def scheduleRead_def new_AsyncReader_def ReadTask_def handled_def)

text \<open>The assertion in the constructor of \<open>ReadTask\<close> matters: without it, a handler that keeps
  asking for zero bytes makes the reader recurse for ever.\<close>

theorem zero_size_tasks_diverge:
  assumes "\<And>d n u. H h d n u = (ReadTask (Some h) 0, u)"
    and "rd_pendingTask r = ReadTask (Some h) 0" and "rd_aliveCallback r \<noteq> NullFn"
  shows "doRead H bufs (rt_size (rd_pendingTask r)) r = None"
  using zero_size_loop [of H h r bufs] assms by (simp add: doRead_eval ReadTask_def)

theorem zero_size_tasks_diverge_witness:
  "doRead (\<lambda>h d n u. (ReadTask (Some h) 0, u)) (\<lambda>b. [b]) 0
     (scheduleRead (ReadTask (Some ()) 0) (new_AsyncReader ()) :: (unit, unit, unit) reader) = None"
  using zero_size_tasks_diverge [of "\<lambda>h d n u. (ReadTask (Some h) 0, u)" "()"
      "scheduleRead (ReadTask (Some ()) 0) (new_AsyncReader ()) :: (unit, unit, unit) reader" "\<lambda>b. [b]"]
  by (simp add: scheduleRead_def new_AsyncReader_def ReadTask_def)

text \<open>A failed read ends the sequence: no read handler is called, nothing is consumed, no further
  read is started, and the error handler, if one is set, is told the error.\<close>

theorem failed_read_ends_sequence:
  assumes "failed ec"
  shows "readDone H bufs ec r = Some (Done (r\<lparr>rd_trace := rd_trace r @
           (case rd_errorHandler r of
              NullFn \<Rightarrow> [ReadFailLogged ec] | NoOpFn \<Rightarrow> [] | Fn c \<Rightarrow> [ReadFailed c ec])\<rparr>))"
  using assms by (cases "rd_errorHandler r") (simp_all add: readDone_eval read_emit_def)

theorem failed_read_ends_sequence_witness:
  "readDone frame_handlers (\<lambda>b. [b]) OperationAborted reader1
     = Some (Done (reader1\<lparr>rd_trace := rd_trace reader1 @ [ReadFailLogged OperationAborted]\<rparr>))"
  using failed_read_ends_sequence [of OperationAborted frame_handlers "\<lambda>b. [b]" reader1]
  by (simp add: reader1_def)

text \<open>Scheduling a sequence while another has not begun loses the first task and starts two reads
  of the same stream for the second.\<close>

theorem overlapping_sequences:
  assumes "length (rd_buffer r) < rt_size t" and "rd_posted r = 0"
  shows "\<exists>r1 r2. runPostedRead H bufs (scheduleRead t (scheduleRead lost r)) = Some (Done r1) \<and>
     runPostedRead H bufs r1 = Some (Done r2) \<and> rd_pendingTask r2 = t \<and>
     running (rd_reads r2) = running (rd_reads r) @ [rt_size t - length (rd_buffer r), rt_size t - length (rd_buffer r)]"
  using assms by (simp add: runPostedRead_def doRead_eval scheduleRead_def Let_def)

theorem overlapping_sequences_witness:
  "\<exists>r1 r2. runPostedRead frame_handlers (\<lambda>b. [b]) (scheduleRead read_header (scheduleRead read_header reader1))
       = Some (Done r1) \<and> runPostedRead frame_handlers (\<lambda>b. [b]) r1 = Some (Done r2) \<and>
     rd_pendingTask r2 = read_header \<and> running (rd_reads r2) = [8, 8]"
  using overlapping_sequences [of reader1 read_header frame_handlers "\<lambda>b. [b]" read_header]
  by (simp add: reader1_def ReadTask_def)

end
