(* ===== verification/Writer_Properties.thy ===== *)
theory Writer_Properties
  imports Writer_Machine
begin

section \<open>Properties of the writer\<close>

subsection \<open>Concrete runs\<close>

definition task :: "byte list \<Rightarrow> nat \<Rightarrow> nat write_task" where
  "task b h = WriteTask b (Fn h)"

definition wsystem0 :: "(nat, nat) write_system" where
  "wsystem0 = \<lparr>ws_writer = setErrorHandler_w NullFn (setConnectionAliveHandler_w NoOpFn
                 (setWriteTimedOutHandler_w (Fn 99) new_AsyncWriter)),
              ws_now = 0, ws_deadlines = [], ws_accepted = [], ws_completed = [], ws_wire = [],
              ws_failed = False\<rparr>"

lemma wsystem0_init: "write_init wsystem0"
  unfolding write_init_def wsystem0_def by blast

lemmas write_run_defs =
  write_step_simps wsystem0_def writer_defs task_def WriteTask_def WriteTask_asserts_def
  runPostedWrite_def queueBatchWrite_def setupDeadlineTimer_def doWrite_def writeDone_def
  cancelTimer_def deadlineHandler_def onTimeoutReached_def write_emit_def batch_bytes_def
  start_op_def cancel_ops_def finish_op_def take_op_def pushed_def Let_def

text \<open>Two batches, the second with a deadline, written one after the other.\<close>

definition wevents1 :: "nat write_event list" where
  "wevents1 = [ScheduleWrite [task [1, 2] 10, task [3] 11] None, ScheduleWrite [task [4] 12] (Some 5),
     RunPostedWrite 0, RunPostedWrite 0, FinishWrite 0 NoError 3, WriteCompleted 0]"

definition wsystem1 :: "(nat, nat) write_system" where
  "wsystem1 = \<lparr>ws_writer =
       \<lparr>wr_timeoutReached = False, wr_tasksQueue = [([task [4] 12], Some 0)], wr_errorHandler = NullFn,
        wr_timeoutHandler = Fn 99, wr_aliveCallback = NoOpFn, wr_posted = [],
        wr_writes = [([4], Running)], wr_waits = [((0, 5), Running)], wr_nextTimer = 1,
        wr_trace = [WriteStarted [1, 2, 3], WriteHandled 10, WriteHandled 11, WriteStarted [4]]\<rparr>,
      ws_now = 0, ws_deadlines = [5],
      ws_accepted = [[task [1, 2] 10, task [3] 11], [task [4] 12]],
      ws_completed = [[task [1, 2] 10, task [3] 11]], ws_wire = [1, 2, 3], ws_failed = False\<rparr>"

lemma run_wevents1: "run write_step wsystem0 wevents1 wsystem1"
  by (simp add: wevents1_def wsystem1_def write_run_defs)

text \<open>The deadline of the second batch passes while it is being written.\<close>

definition wevents2 :: "nat write_event list" where
  "wevents2 = [Tick 7, ExpireTimer 0, TimerCompleted 0]"

definition wsystem2 :: "(nat, nat) write_system" where
  "wsystem2 = wsystem1\<lparr>ws_now := 7, ws_writer := (ws_writer wsystem1)\<lparr>
      wr_timeoutReached := True, wr_waits := [],
      wr_trace := wr_trace (ws_writer wsystem1) @ [WriteTimedOut 99]\<rparr>\<rparr>"

lemma run_wevents2: "run write_step wsystem1 wevents2 wsystem2"
  by (simp add: wevents2_def wsystem2_def wsystem1_def write_run_defs)

text \<open>The write of the first of two batches fails.\<close>

definition wevents3 :: "nat write_event list" where
  "wevents3 = [ScheduleWrite [task [1] 10] None, ScheduleWrite [task [2] 11] None, RunPostedWrite 0,
     RunPostedWrite 0, FinishWrite 0 (OtherError 1) 0]"

definition wsystem3 :: "(nat, nat) write_system" where
  "wsystem3 = \<lparr>ws_writer =
       \<lparr>wr_timeoutReached = False, wr_tasksQueue = [([task [1] 10], None), ([task [2] 11], None)],
        wr_errorHandler = NullFn, wr_timeoutHandler = Fn 99, wr_aliveCallback = NoOpFn, wr_posted = [],
        wr_writes = [([1], Ready (OtherError 1))], wr_waits = [], wr_nextTimer = 0,
        wr_trace = [WriteStarted [1]]\<rparr>,
      ws_now = 0, ws_deadlines = [], ws_accepted = [[task [1] 10], [task [2] 11]],
      ws_completed = [], ws_wire = [], ws_failed = True\<rparr>"

lemma run_wevents3: "run write_step wsystem0 wevents3 wsystem3"
  by (simp add: wevents3_def wsystem3_def write_run_defs)

lemma reachable_wsystem1: "reachable write_init write_step wsystem1"
  by (rule run_reachable [OF reachable_init [of write_init, OF wsystem0_init] run_wevents1])

lemma reachable_wsystem2: "reachable write_init write_step wsystem2"
  by (rule run_reachable [OF reachable_wsystem1 run_wevents2])

lemma reachable_wsystem3: "reachable write_init write_step wsystem3"
  by (rule run_reachable [OF reachable_init [of write_init, OF wsystem0_init] run_wevents3])

subsection \<open>The abstract writer\<close>

text \<open>What the writer promises: a first-in first-out channel of batches that can be shut. Its state is
  the batches passed on, those waiting, and whether it is shut; then it takes no more.\<close>

record 'h fifo =
  ff_passed :: "'h batch list"
  ff_waiting :: "'h batch list"
  ff_shut :: bool

datatype 'h fifo_event = Push "'h batch" | Pop | Shut

inductive fifo_step :: "'h fifo \<Rightarrow> 'h fifo_event \<Rightarrow> 'h fifo \<Rightarrow> bool" where
  fifo_push: "\<not> ff_shut q \<Longrightarrow> fifo_step q (Push b) (q\<lparr>ff_waiting := ff_waiting q @ [b]\<rparr>)"
| fifo_pop: "ff_waiting q = b # bs \<Longrightarrow>
     fifo_step q Pop (q\<lparr>ff_passed := ff_passed q @ [b], ff_waiting := bs\<rparr>)"
| fifo_shut: "\<not> ff_shut q \<Longrightarrow> fifo_step q Shut (q\<lparr>ff_shut := True\<rparr>)"

inductive_simps fifo_step_simps:
  "fifo_step q (Push b) r"
  "fifo_step q Pop r"
  "fifo_step q Shut r"

definition fifo_init :: "'h fifo \<Rightarrow> bool" where
  "fifo_init q \<longleftrightarrow> q = \<lparr>ff_passed = [], ff_waiting = [], ff_shut = False\<rparr>"

definition fifo_of :: "('h, 'c) write_system \<Rightarrow> 'h fifo" where
  "fifo_of s = \<lparr>ff_passed = ws_completed s, ff_waiting = map fst (wr_tasksQueue (ws_writer s)),
     ff_shut = wr_timeoutReached (ws_writer s)\<rparr>"

text \<open>What an event of the writer is for the channel: a batch that gets its turn is pushed, unless its
  deadline has passed, which shuts the channel, as a deadline timer does.\<close>

fun channel_event :: "('h, 'c) write_system \<Rightarrow> 'h write_event \<Rightarrow> 'h fifo_event option" where
  "channel_event s (RunPostedWrite i) =
     (let (tasks, deadline) = wr_posted (ws_writer s) ! i
      in if wr_timeoutReached (ws_writer s) then None
         else case deadline of
                None \<Rightarrow> Some (Push tasks)
              | Some d \<Rightarrow> if d < ws_now s then Some Shut else Some (Push tasks))"
| "channel_event s (WriteCompleted i) = Some Pop"
| "channel_event s (TimerCompleted i) =
     (case take_op i (wr_waits (ws_writer s)) of
        Some ((k, ec), ops) \<Rightarrow> if failed ec \<or> wr_timeoutReached (ws_writer s) then None else Some Shut
      | None \<Rightarrow> None)"
| "channel_event s e = None"

definition fifo_follows :: "'h fifo \<Rightarrow> 'h fifo_event option \<Rightarrow> 'h fifo \<Rightarrow> bool" where
  "fifo_follows q a r \<longleftrightarrow> (case a of None \<Rightarrow> r = q | Some a \<Rightarrow> fifo_step q a r)"

lemma fifo_follows_simps [simp]:
  "fifo_follows q None r \<longleftrightarrow> r = q" "fifo_follows q (Some a) r \<longleftrightarrow> fifo_step q a r"
  by (simp_all add: fifo_follows_def)

lemma written_queue: "wr_tasksQueue (written ec w) = tl (wr_tasksQueue w)"
  by (auto simp: written_def started_def Let_def split: list.splits)

lemma written_shut: "wr_timeoutReached (written ec w) = wr_timeoutReached w"
  by (auto simp: written_def started_def Let_def split: list.splits)

lemma enqueued_fields:
  "wr_tasksQueue (enqueued tasks d w) = wr_tasksQueue w @ [(tasks, d)]"
  "wr_timeoutReached (enqueued tasks d w) = wr_timeoutReached w"
  by (simp_all add: enqueued_def started_def Let_def)

lemma setupDeadlineTimer_fields:
  "wr_tasksQueue (snd (setupDeadlineTimer v w)) = wr_tasksQueue w"
  "wr_timeoutReached (snd (setupDeadlineTimer v w)) = wr_timeoutReached w"
  by (simp_all add: setupDeadlineTimer_def Let_def)

lemma timed_out_fields:
  "wr_tasksQueue (timed_out w) = wr_tasksQueue w" "wr_timeoutReached (timed_out w)"
  by (simp_all add: timed_out_def)

lemma write_step_refines_fifo:
  assumes "write_step s e t" and inv: "write_inv s"
  shows "fifo_follows (fifo_of s) (channel_event s e) (fifo_of t)"
  using assms
proof (induction rule: write_step.induct)
  case (run_posted_write i s w)
  obtain tasks d where at: "wr_posted (ws_writer s) ! i = (tasks, d)" by fastforce
  with run_posted_write have "w = queued (ws_now s) tasks d
      ((ws_writer s)\<lparr>wr_posted := take i (wr_posted (ws_writer s)) @ drop (Suc i) (wr_posted (ws_writer s))\<rparr>)"
    by (simp add: write_inv_def runPostedWrite_Done)
  then show ?case
    by (simp add: at fifo_of_def queued_def fifo_step_simps enqueued_fields setupDeadlineTimer_fields timed_out_fields
        split: option.split)
next
  case (write_completed i s payload ec ops w)
  then obtain front rest where "wr_tasksQueue (ws_writer s) = front # rest"
    by (blast elim: write_completed_front)
  moreover have "w = written ec ((ws_writer s)\<lparr>wr_writes := ops\<rparr>)"
    using write_completed by (simp add: write_completed_Done)
  ultimately show ?case
    by (simp add: fifo_of_def written_queue written_shut fifo_step_simps)
next
  case (timer_completed i s k ec ops w)
  then have "w = (if failed ec then (ws_writer s)\<lparr>wr_waits := ops\<rparr> else timed_out ((ws_writer s)\<lparr>wr_waits := ops\<rparr>))"
    by (simp add: deadlineHandler_Done write_inv_def writer_ok_def)
  with timer_completed(1) show ?case
    by (simp add: fifo_of_def fifo_step_simps timed_out_fields)
qed (simp_all add: fifo_of_def writer_defs)

lemma fifo_of_init: "write_init s \<Longrightarrow> fifo_init (fifo_of s)"
  by (auto simp: write_init_def fifo_init_def fifo_of_def writer_defs)

interpretation channel: simulation write_init write_step write_inv fifo_init fifo_step fifo_of
proof
  show "fifo_of t = fifo_of s \<or> (\<exists>a. fifo_step (fifo_of s) a (fifo_of t))"
    if "write_inv s" "write_step s e t" for s t :: "('h, 'c) write_system" and e
    using write_step_refines_fifo [OF that(2,1)] by (cases "channel_event s e") auto
qed (rule fifo_of_init)

subsection \<open>Draining and dying\<close>

text \<open>A healthy writer writes out its whole queue when the stream completes the writes; nothing else need
  happen.\<close>

fun stream_event :: "'h write_event \<Rightarrow> bool" where
  "stream_event (FinishWrite i ec n) \<longleftrightarrow> True"
| "stream_event (WriteCompleted i) \<longleftrightarrow> True"
| "stream_event _ \<longleftrightarrow> False"

lemma write_one_batch:
  assumes inv: "write_inv s" and "\<not> ws_failed s" and "\<not> wr_timeoutReached (ws_writer s)"
    and q: "wr_tasksQueue (ws_writer s) = front # rest"
  shows "\<exists>es t. run write_step s es t \<and> (\<forall>e \<in> set es. stream_event e) \<and>
           wr_tasksQueue (ws_writer t) = rest \<and> \<not> ws_failed t \<and> \<not> wr_timeoutReached (ws_writer t) \<and> ws_accepted t = ws_accepted s"
proof -
  let ?p = "batch_bytes (fst front)"
  from assms obtain st where w: "wr_writes (ws_writer s) = [(?p, st)]" and st: "st = Running \<or> st = Ready NoError"
    by (auto simp: write_inv_def write_in_flight_def writer_busy_def wire_ok_def)
  from st have "\<exists>es u. run write_step s es u \<and> (\<forall>e \<in> set es. stream_event e) \<and> wr_writes (ws_writer u) = [(?p, Ready NoError)] \<and>
    wr_tasksQueue (ws_writer u) = front # rest \<and> \<not> ws_failed u \<and> \<not> wr_timeoutReached (ws_writer u) \<and>
    ws_accepted u = ws_accepted s"
  proof
    assume "st = Running"
    with w have "finish_op 0 NoError (wr_writes (ws_writer s)) = Some [(?p, Ready NoError)]" by simp
    then have "write_step s (FinishWrite 0 NoError (length ?p))
       (s\<lparr>ws_writer := (ws_writer s)\<lparr>wr_writes := [(?p, Ready NoError)]\<rparr>,
          ws_wire := ws_wire s @ take (length ?p) (fst (wr_writes (ws_writer s) ! 0)),
          ws_failed := ws_failed s \<or> failed NoError\<rparr>)" (is "write_step s ?e ?u")
      by (rule finish_write) (simp add: w)
    then have "run write_step s [?e] ?u" by simp
    then show ?thesis using assms(2,3) q by (intro exI [of _ "[?e]"] exI [of _ ?u]) simp
  next
    assume "st = Ready NoError"
    then show ?thesis using w assms(2,3) q by (intro exI [of _ "[]"] exI [of _ s]) simp
  qed
  then obtain es u where u: "run write_step s es u" "wr_writes (ws_writer u) = [(?p, Ready NoError)]"
    and es: "\<forall>e \<in> set es. stream_event e"
    and rest: "wr_tasksQueue (ws_writer u) = front # rest" "\<not> ws_failed u" "\<not> wr_timeoutReached (ws_writer u)"
    "ws_accepted u = ws_accepted s" by blast
  from inv u(1) have "write_inv u" by (rule writing.run_inv)
  moreover have take: "take_op 0 (wr_writes (ws_writer u)) = Some ((?p, NoError), [])" using u(2) by simp
  ultimately have "writeDone NoError ((ws_writer u)\<lparr>wr_writes := []\<rparr>)
      = Done (written NoError ((ws_writer u)\<lparr>wr_writes := []\<rparr>))"
    by (rule write_completed_Done)
  then have "write_step u (WriteCompleted 0)
      (u\<lparr>ws_writer := written NoError ((ws_writer u)\<lparr>wr_writes := []\<rparr>),
         ws_completed := ws_completed u @ [fst (hd (wr_tasksQueue (ws_writer u)))]\<rparr>)"
    by (intro write_completed [OF take]) simp
  then have "run write_step s (es @ [WriteCompleted 0])
      (u\<lparr>ws_writer := written NoError ((ws_writer u)\<lparr>wr_writes := []\<rparr>),
         ws_completed := ws_completed u @ [fst (hd (wr_tasksQueue (ws_writer u)))]\<rparr>)"
    (is "run write_step s ?es ?t")
    using u(1) by (auto simp: run_append)
  moreover have "\<not> wr_timeoutReached (written NoError ((ws_writer u)\<lparr>wr_writes := []\<rparr>))"
    using rest(3) by (auto simp: written_def started_def Let_def split: list.splits)
  ultimately show ?thesis
    using u rest es by (intro exI [of _ ?es] exI [of _ ?t]) (simp add: written_queue)
qed

lemma write_all_batches:
  assumes "write_inv s" and "\<not> ws_failed s" and "\<not> wr_timeoutReached (ws_writer s)"
  shows "\<exists>es t. run write_step s es t \<and> (\<forall>e \<in> set es. stream_event e) \<and>
           wr_tasksQueue (ws_writer t) = [] \<and> \<not> ws_failed t \<and>
           ws_accepted t = ws_accepted s"
  using assms
proof (induction "wr_tasksQueue (ws_writer s)" arbitrary: s)
  case Nil
  then show ?case by (intro exI [of _ "[]"] exI [of _ s]) simp
next
  case (Cons front rest)
  obtain es u where u: "run write_step s es u" "wr_tasksQueue (ws_writer u) = rest" "\<not> ws_failed u"
    "\<not> wr_timeoutReached (ws_writer u)" "ws_accepted u = ws_accepted s" "\<forall>e \<in> set es. stream_event e"
    using write_one_batch [OF Cons.prems Cons.hyps(2) [symmetric]] by blast
  from Cons.prems(1) u(1) have "write_inv u" by (rule writing.run_inv)
  with Cons.hyps(1) [of u] u obtain fs t where t: "run write_step u fs t" "wr_tasksQueue (ws_writer t) = []"
    "\<not> ws_failed t" "ws_accepted t = ws_accepted u" "\<forall>e \<in> set fs. stream_event e" by auto
  with u(1) have "run write_step s (es @ fs) t" by (auto simp: run_append)
  with u t show ?case by (intro exI [of _ "es @ fs"] exI [of _ t]) auto
qed

subsection \<open>What never changes again\<close>

lemma started_dead: "wr_timeoutReached w \<Longrightarrow> started b w = w"
  by (simp add: started_def)

lemma queued_dead: "wr_timeoutReached w \<Longrightarrow> queued now tasks d w = w"
  by (simp add: queued_def)

lemma written_dead:
  "wr_timeoutReached w \<Longrightarrow> wr_started (written ec w) = wr_started w \<and> wr_timeoutReached (written ec w)"
  by (auto simp: written_def started_def wr_started_def Let_def split: list.splits callback.splits)

lemma timed_out_dead: "wr_timeoutReached w \<Longrightarrow> timed_out w = w"
  by (simp add: timed_out_def)

text \<open>A timed out writer has started what it will ever start and accepted what it will ever accept.\<close>

definition dead_since :: "byte list list \<Rightarrow> 'h batch list \<Rightarrow> ('h, 'c) write_system \<Rightarrow> bool" where
  "dead_since k acc s \<longleftrightarrow> write_inv s \<and> wr_timeoutReached (ws_writer s) \<and>
     wr_started (ws_writer s) = k \<and> ws_accepted s = acc"

lemma dead_step: "dead_since k acc s \<Longrightarrow> write_step s e t \<Longrightarrow> dead_since k acc t"
  unfolding dead_since_def
proof (intro conjI; (elim conjE)?)
  assume s: "write_inv s" "write_step s e t" "wr_timeoutReached (ws_writer s)"
    "wr_started (ws_writer s) = k" "ws_accepted s = acc"
  show "write_inv t" using s(1,2) by (blast intro: write_inv_step)
  have all: "wr_timeoutReached (ws_writer t) \<and> wr_started (ws_writer t) = wr_started (ws_writer s) \<and>
      ws_accepted t = ws_accepted s"
    using s(2,1,3)
  proof (induction rule: write_step.induct)
    case (run_posted_write i s w)
    then show ?case
      by (auto simp: write_inv_def runPostedWrite_Done queued_dead pushed_def wr_started_def)
  next
    case (write_completed i s payload ec ops w)
    then have "w = written ec ((ws_writer s)\<lparr>wr_writes := ops\<rparr>)"
      by (simp add: write_completed_Done)
    then show ?case
      using write_completed written_dead [of "(ws_writer s)\<lparr>wr_writes := ops\<rparr>" ec]
      by (simp add: wr_started_def)
  next
    case (timer_completed i s k ec ops w)
    then show ?case
      by (auto simp: deadlineHandler_Done write_inv_def writer_ok_def timed_out_dead wr_started_def split: if_splits)
  qed (auto simp: writer_defs wr_started_def)
  then show "wr_timeoutReached (ws_writer t)" and "wr_started (ws_writer t) = k" and "ws_accepted t = acc"
    using s by simp_all
qed

interpretation dead: invariant_system "dead_since k acc" write_step "dead_since k acc" for k acc
  by unfold_locales (auto intro: dead_step)

text \<open>A writer with batches queued and no write outstanding starts none any more.\<close>

definition stalled_since :: "byte list list \<Rightarrow> ('h, 'c) write_system \<Rightarrow> bool" where
  "stalled_since k s \<longleftrightarrow> write_inv s \<and> wr_tasksQueue (ws_writer s) \<noteq> [] \<and> wr_writes (ws_writer s) = [] \<and>
     wr_started (ws_writer s) = k"

lemma queued_stalled:
  "wr_tasksQueue w \<noteq> [] \<Longrightarrow>
   wr_tasksQueue (queued now tasks d w) \<noteq> [] \<and> wr_writes (queued now tasks d w) = wr_writes w \<and>
   wr_started (queued now tasks d w) = wr_started w"
  by (auto simp: queued_def enqueued_def timed_out_def setupDeadlineTimer_def wr_started_def Let_def
      split: option.splits callback.splits)

lemma stalled_step: "stalled_since k s \<Longrightarrow> write_step s e t \<Longrightarrow> stalled_since k t"
  unfolding stalled_since_def
proof (elim conjE, intro conjI)
  assume s: "write_step s e t" "write_inv s" "wr_tasksQueue (ws_writer s) \<noteq> []"
    "wr_writes (ws_writer s) = []" "wr_started (ws_writer s) = k"
  show "write_inv t" using s(1,2) by (blast intro: write_inv_step)
  have all: "wr_tasksQueue (ws_writer t) \<noteq> [] \<and> wr_writes (ws_writer t) = [] \<and>
      wr_started (ws_writer t) = wr_started (ws_writer s)"
    using s(1-4)
  proof (induction rule: write_step.induct)
    case (run_posted_write i s w)
    then show ?case
      using queued_stalled [of "(ws_writer s)\<lparr>wr_posted := take i (wr_posted (ws_writer s)) @
              drop (Suc i) (wr_posted (ws_writer s))\<rparr>" "ws_now s" "fst (wr_posted (ws_writer s) ! i)"
            "snd (wr_posted (ws_writer s) ! i)"]
      by (simp add: write_inv_def runPostedWrite_Done wr_started_def)
  next
    case (timer_completed i s k ec ops w)
    then show ?case
      by (auto simp: deadlineHandler_Done write_inv_def writer_ok_def timed_out_def wr_started_def
          split: if_splits)
  qed (auto simp: writer_defs wr_started_def take_op_def finish_op_def)
  then show "wr_tasksQueue (ws_writer t) \<noteq> []" "wr_writes (ws_writer t) = []" "wr_started (ws_writer t) = k"
    using s by simp_all
qed

interpretation stalled: invariant_system "stalled_since k" write_step "stalled_since k" for k
  by unfold_locales (auto intro: stalled_step)

text \<open>What has been written, and what has been accepted, only grows.\<close>

interpretation wire: growing_output write_step ws_wire
  by unfold_locales (erule write_step.cases; simp)

interpretation accepted: growing_output write_step ws_accepted
  by unfold_locales (erule write_step.cases; simp)

text \<open>What the invariant says of the bytes on the wire.\<close>

lemma wire_in_order:
  assumes "write_inv s" and "\<not> ws_failed s"
  shows "prefix (concat (map batch_bytes (ws_completed s))) (ws_wire s) \<and>
     prefix (ws_wire s) (concat (map batch_bytes (ws_accepted s)))"
proof -
  have "write_in_flight (ws_writer s)" "fifo_ok s" "wire_ok s"
    using assms(1) by (simp_all add: write_inv_def)
  then show ?thesis
    using assms(2)
    by (auto simp: write_in_flight_def fifo_ok_def wire_ok_def split: op_status.splits error_code.splits)
qed

lemma empty_queue_wire:
  assumes "write_inv s" and "\<not> ws_failed s" and "wr_tasksQueue (ws_writer s) = []"
  shows "ws_wire s = concat (map batch_bytes (ws_accepted s)) \<and>
     wr_handled (ws_writer s) = concat (map batch_handlers (ws_accepted s))"
  using assms by (auto simp: write_inv_def fifo_ok_def wire_ok_def write_in_flight_def)

subsection \<open>Properties\<close>

text \<open>C19: Batches are handled first in, first out, and none is lost or handled twice: what was accepted
  is what was completed followed by what is queued, and the handlers called so far are those of the
  tasks of the completed batches, in order.\<close>

theorem writer_fifo:
  assumes "reachable write_init write_step s"
  shows "ws_accepted s = ws_completed s @ map fst (wr_tasksQueue (ws_writer s)) \<and>
     wr_handled (ws_writer s) = concat (map batch_handlers (ws_completed s))"
  using writing.reachable_inv [OF assms] by (simp add: write_inv_def fifo_ok_def)

theorem writer_fifo_witness:
  "ws_accepted wsystem1 = ws_completed wsystem1 @ map fst (wr_tasksQueue (ws_writer wsystem1)) \<and>
   wr_handled (ws_writer wsystem1) = [10, 11]"
  using writer_fifo [OF reachable_wsystem1]
  by (simp add: wsystem1_def batch_handlers_def task_def WriteTask_def)

text \<open>C6: As long as no write fails, the bytes on the wire are those of the batches in the order they
  were accepted: all of the completed batches, and nothing beyond the accepted ones.\<close>

theorem wire_carries_batches_in_order:
  assumes "reachable write_init write_step s" and "\<not> ws_failed s"
  shows "prefix (concat (map batch_bytes (ws_completed s))) (ws_wire s) \<and>
     prefix (ws_wire s) (concat (map batch_bytes (ws_accepted s)))"
  using writing.reachable_inv [OF assms(1)] assms(2) by (rule wire_in_order)

theorem wire_carries_batches_in_order_witness:
  "prefix [1, 2, 3] (ws_wire wsystem1) \<and> prefix (ws_wire wsystem1) [1, 2, 3, 4]"
  using wire_carries_batches_in_order [OF reachable_wsystem1]
  by (simp add: wsystem1_def batch_bytes_def task_def WriteTask_def)

text \<open>At most one write of the stream is outstanding at any time, and it writes the buffers of the
  front batch of the queue, one after the other.\<close>

theorem writer_single_write:
  assumes "reachable write_init write_step s"
  shows "length (wr_writes (ws_writer s)) \<le> 1 \<and>
     (\<forall>payload st. (payload, st) \<in> set (wr_writes (ws_writer s)) \<longrightarrow>
        wr_tasksQueue (ws_writer s) \<noteq> [] \<and>
        payload = batch_bytes (fst (hd (wr_tasksQueue (ws_writer s)))))"
  using writing.reachable_inv [OF assms] by (auto simp: write_inv_def write_in_flight_def)

theorem writer_single_write_witness:
  "length (wr_writes (ws_writer wsystem1)) \<le> 1"
  using writer_single_write [OF reachable_wsystem1] by blast

text \<open>Every handler of the writer returns without an exception: the completion handler of a write
  always finds a batch at the front of the queue, and no empty callback is called.\<close>

theorem writer_always_returns:
  assumes "reachable write_init write_step s"
  shows "\<not> write_bad s e"
  using assms by (rule writing.reachable_safe)

theorem writer_always_returns_witness: "\<not> write_bad wsystem1 (WriteCompleted 0)"
  by (rule writer_always_returns [OF reachable_wsystem1])

text \<open>C5: The writer implements a first-in first-out channel: a batch that gets its turn is pushed, a
  write that completes pops its batch, a deadline that has passed shuts the channel, a batch for a
  shut channel is dropped, and nothing else the writer, its stream or its timers do shows in the
  channel. So every run of the writer is a run of the channel.\<close>

theorem writer_refines_fifo:
  assumes "reachable write_init write_step s"
  shows "(\<forall>e t. write_step s e t \<longrightarrow> fifo_follows (fifo_of s) (channel_event s e) (fifo_of t)) \<and>
     (\<forall>es t. run write_step s es t \<longrightarrow> (\<exists>as. run fifo_step (fifo_of s) as (fifo_of t)))"
  using write_step_refines_fifo [OF _ writing.reachable_inv [OF assms]]
    channel.run_abs [OF writing.reachable_inv [OF assms]] by blast

text \<open>A write completes, then the deadline of the next batch passes.\<close>

theorem writer_refines_fifo_witness:
  "fifo_step (fifo_of (wsystem1\<lparr>ws_now := 7, ws_writer := (ws_writer wsystem1)\<lparr>wr_waits := [((0, 5), Ready NoError)]\<rparr>\<rparr>))
     Shut (fifo_of wsystem2) \<and>
   (\<exists>as. run fifo_step (fifo_of wsystem1) as (fifo_of wsystem2))"
proof
  show "\<exists>as. run fifo_step (fifo_of wsystem1) as (fifo_of wsystem2)"
    using writer_refines_fifo [OF reachable_wsystem1] run_wevents2 by blast
  let ?u = "wsystem1\<lparr>ws_now := 7, ws_writer := (ws_writer wsystem1)\<lparr>wr_waits := [((0, 5), Ready NoError)]\<rparr>\<rparr>"
  have u: "run write_step wsystem1 [Tick 7, ExpireTimer 0] ?u" "write_step ?u (TimerCompleted 0) wsystem2"
    by (simp_all add: wsystem2_def wsystem1_def write_run_defs)
  moreover have "channel_event ?u (TimerCompleted 0) = Some Shut" by (simp add: wsystem1_def)
  ultimately show "fifo_step (fifo_of ?u) Shut (fifo_of wsystem2)"
    using writer_refines_fifo [OF run_reachable [OF reachable_wsystem1 u(1)]] by fastforce
qed

text \<open>C18: A timeout is reported at most once, exactly when the writer has stopped because of it, and only
  after a deadline that the user gave has come.\<close>

theorem timeout_reported_once:
  assumes "reachable write_init write_step s"
  shows "wr_timeouts (ws_writer s) =
       (if wr_timeoutReached (ws_writer s) then callback_list (wr_timeoutHandler (ws_writer s)) else []) \<and>
     (wr_timeoutReached (ws_writer s) \<longrightarrow> (\<exists>d \<in> set (ws_deadlines s). d \<le> ws_now s))"
  using writing.reachable_inv [OF assms] by (simp add: write_inv_def timeouts_once_def deadlines_ok_def)

theorem timeout_reported_once_witness:
  "wr_timeouts (ws_writer wsystem2) = [99] \<and> wr_timeouts (ws_writer wsystem1) = []"
  using timeout_reported_once [OF reachable_wsystem2] timeout_reported_once [OF reachable_wsystem1]
  by (simp add: wsystem2_def wsystem1_def)

text \<open>C13: Once a timeout was reported the writer is dead: it starts no further write and accepts no
  further batch, whatever happens.\<close>

theorem nothing_written_after_timeout:
  assumes "reachable write_init write_step s" and "wr_timeoutReached (ws_writer s)"
    and "run write_step s es t"
  shows "wr_timeoutReached (ws_writer t) \<and> wr_started (ws_writer t) = wr_started (ws_writer s) \<and>
     ws_accepted t = ws_accepted s"
proof -
  have "dead_since (wr_started (ws_writer s)) (ws_accepted s) s"
    using assms(1,2) writing.reachable_inv by (simp add: dead_since_def)
  then have "dead_since (wr_started (ws_writer s)) (ws_accepted s) t"
    using assms(3) by (rule dead.run_inv)
  then show ?thesis by (simp add: dead_since_def)
qed

theorem nothing_written_after_timeout_witness:
  "wr_started (ws_writer (wsystem2\<lparr>ws_now := 8\<rparr>)) = [[1, 2, 3], [4]]"
  using nothing_written_after_timeout [OF reachable_wsystem2, of "[Tick 1]" "wsystem2\<lparr>ws_now := 8\<rparr>"]
  by (simp add: write_step_simps wsystem2_def wsystem1_def wr_started_def)

text \<open>C35: When a write fails and another batch is queued, the writer never writes again: the queue stays
  non-empty, so no later batch starts a write.\<close>

theorem failed_write_stalls_queue:
  assumes "reachable write_init write_step s"
    and "wr_writes (ws_writer s) = [(payload, Ready ec)]" and "failed ec"
    and "1 < length (wr_tasksQueue (ws_writer s))"
    and "run write_step s (WriteCompleted 0 # es) t"
  shows "wr_tasksQueue (ws_writer t) \<noteq> [] \<and> wr_writes (ws_writer t) = [] \<and>
     wr_started (ws_writer t) = wr_started (ws_writer s)"
proof -
  from assms(1) have inv: "write_inv s" by (rule writing.reachable_inv)
  from assms(5) obtain u where u: "write_step s (WriteCompleted 0) u" "run write_step u es t" by auto
  have take: "take_op 0 (wr_writes (ws_writer s)) = Some ((payload, ec), [])" using assms(2) by simp
  have "ws_writer u = written ec ((ws_writer s)\<lparr>wr_writes := []\<rparr>)"
    using u(1) take write_completed_Done [OF inv take] by (auto simp: write_step_simps)
  moreover have "tl (wr_tasksQueue (ws_writer s)) \<noteq> []"
    using assms(4) by (cases "wr_tasksQueue (ws_writer s)") auto
  ultimately have "stalled_since (wr_started (ws_writer s)) u"
    using assms(3) write_inv_step [OF u(1) inv]
    by (auto simp: stalled_since_def written_def wr_started_def Let_def split: callback.splits)
  then have "stalled_since (wr_started (ws_writer s)) t" using u(2) by (rule stalled.run_inv)
  then show ?thesis by (simp add: stalled_since_def)
qed

theorem failed_write_stalls_queue_witness:
  "\<exists>t. run write_step wsystem3 [WriteCompleted 0] t \<and>
     wr_tasksQueue (ws_writer t) \<noteq> [] \<and> wr_writes (ws_writer t) = [] \<and> wr_started (ws_writer t) = [[1]]"
proof -
  have "\<exists>t. run write_step wsystem3 [WriteCompleted 0] t"
    by (simp add: wsystem3_def write_run_defs)
  then obtain t where t: "run write_step wsystem3 (WriteCompleted 0 # []) t" by auto
  from failed_write_stalls_queue [OF reachable_wsystem3 _ _ _ t, of "[1]" "OtherError 1"] t show ?thesis
    by (auto simp: wsystem3_def wr_started_def)
qed

text \<open>C12: A writer that has met neither an error nor a deadline can always be driven, by completing its
  writes, to the point where every accepted batch is on the wire and every handler was called.\<close>

theorem accepted_batches_get_written:
  assumes "reachable write_init write_step s" and "\<not> ws_failed s" and "\<not> wr_timeoutReached (ws_writer s)"
  shows "\<exists>es t. run write_step s es t \<and> ws_accepted t = ws_accepted s \<and>
     ws_wire t = concat (map batch_bytes (ws_accepted s)) \<and>
     wr_handled (ws_writer t) = concat (map batch_handlers (ws_accepted s))"
proof -
  from assms(1) have inv: "write_inv s" by (rule writing.reachable_inv)
  from write_all_batches [OF this assms(2,3)] obtain es t where t: "run write_step s es t"
    "wr_tasksQueue (ws_writer t) = []" "\<not> ws_failed t" "ws_accepted t = ws_accepted s" by blast
  then have "write_inv t" using inv writing.run_inv by blast
  with t empty_queue_wire [of t] show ?thesis by auto
qed

theorem accepted_batches_get_written_witness:
  "\<exists>es t. run write_step wsystem1 es t \<and> ws_wire t = [1, 2, 3, 4] \<and> wr_handled (ws_writer t) = [10, 11, 12]"
  using accepted_batches_get_written [OF reachable_wsystem1]
  by (simp add: wsystem1_def batch_bytes_def batch_handlers_def task_def WriteTask_def) blast

text \<open>A deadline that already lies in the past when the batch is taken over times the writer out at
  once: the batch is dropped without its handlers being called, and nothing is queued or started.\<close>

theorem past_deadline_drops_batch:
  assumes "d < now" and "\<not> wr_timeoutReached w" and "wr_timeoutHandler w = Fn c"
  shows "queueBatchWrite now tasks (Some d) w =
     Done (w\<lparr>wr_timeoutReached := True, wr_trace := wr_trace w @ [WriteTimedOut c]\<rparr>)"
  using assms by (simp add: queueBatchWrite_def onTimeoutReached_def write_emit_def)

theorem past_deadline_drops_batch_witness:
  "queueBatchWrite 7 [task [5] 13] (Some 3) (ws_writer wsystem1) =
     Done ((ws_writer wsystem1)\<lparr>wr_timeoutReached := True,
             wr_trace := wr_trace (ws_writer wsystem1) @ [WriteTimedOut 99]\<rparr>)"
  using past_deadline_drops_batch [of 3 7 "ws_writer wsystem1" 99 "[task [5] 13]"]
  by (simp add: wsystem1_def)

end
