(* ===== verification/Session_Io_Properties.thy ===== *)
theory Session_Io_Properties
  imports Session_Closures Session_Properties Reader_Properties Writer_Properties
begin

section \<open>Properties of the whole session\<close>

subsection \<open>A concrete run\<close>

text \<open>A monitored session reads framed messages; it is dropped when the header of the first message has
  come in but its handler has not run.\<close>

type_synonym example_io = "(nat, frame_handler, nat, nat, frame_vars) io_system"

definition new0 :: "(nat, frame_handler, nat, nat, frame_vars) session" where
  "new0 = new_Session suggested0 vars0 (Some 5) server_role ''::1'' 7420"

definition iosystem0 :: example_io where
  "iosystem0 = \<lparr>io_sys = \<lparr>ss_session = new0, ss_now = 0, ss_starts = 0, ss_pongFailed = False, ss_closing = []\<rparr>,
     io_entry = ReadTask_default, io_user = vars0, io_calls = [], io_input = [], io_deadlines = [],
     io_accepted = [], io_completed = [], io_wire = [], io_failed = False\<rparr>"

abbreviation example_io_step :: "example_io \<Rightarrow> (frame_handler, nat, nat) io_event \<Rightarrow> example_io \<Rightarrow> bool" where
  "example_io_step \<equiv> io_step frame_handlers (\<lambda>b. [b]) (\<lambda>ec. ''error'')"

lemma iosystem0_init: "io_init iosystem0"
  unfolding io_init_def session_init_def iosystem0_def
  by (simp add: new0_def new_Session_def setOptions_def new_AsyncReader_def Let_def) blast

definition ioevents1 :: "(frame_handler, nat, nat) io_event list" where
  "ioevents1 = [Control (StartMonitoring (Fn 1) 100), SessionRead read_header, RunRead,
     Receive 0 NoError [2, 0, 0, 0, 0, 0, 0, 0], Drop 0]"

lemmas io_run_defs =
  io_step_simps put_session_def session_step_simps session_ops session_io_ops afterRead_def afterWrite_def
  runClosure_def alive_closure_def runPostedRead_def doRead_eval readDone_eval callReadHandler_def
  read_emit_def data_def consume_def read_setup_defs ReadTask_asserts_def ReadTask_def ReadTask_default_def
  handled_def start_op_def cancel_ops_def finish_op_def take_op_def Let_def

text \<open>The session when it has been dropped, and after its reader has gone on to the end.\<close>

definition dropped_io :: example_io where
  "dropped_io = \<lparr>io_sys = \<lparr>ss_session = new0\<lparr>se_connectionAliveCallback := Fn 1,
        se_reader := \<lparr>rd_buffer = [2, 0, 0, 0, 0, 0, 0, 0], rd_pendingTask = read_header, rd_errorHandler = NullFn,
           rd_aliveCallback = Fn (AliveClosure 1), rd_user = vars0, rd_posted = 0,
           rd_reads = [(8, Ready NoError)], rd_trace = []\<rparr>,
        se_heartbeatPeriod := 100, se_controlCallback := True, se_exists := False,
        se_pongs := [(pong_payload, Ready OperationAborted)], se_trace := [PongSent 0 pong_payload]\<rparr>,
      ss_now = 0, ss_starts = 1, ss_pongFailed = False, ss_closing = []\<rparr>,
     io_entry = read_header, io_user = vars0, io_calls = [], io_input = [2, 0, 0, 0, 0, 0, 0, 0], io_deadlines = [],
     io_accepted = [], io_completed = [], io_wire = [], io_failed = False\<rparr>"

lemma run_ioevents1: "run example_io_step iosystem0 ioevents1 dropped_io"
  by (simp add: ioevents1_def iosystem0_def dropped_io_def new0_def vars0_def suggested0_def pong_payload_def
      new_AsyncWriter_def running_def io_run_defs)

lemma reachable_dropped_io: "reachable io_init example_io_step dropped_io"
  by (rule run_reachable [OF reachable_init [of io_init, OF iosystem0_init] run_ioevents1])

subsection \<open>The closures of a dropped session\<close>

definition alive_only :: "('ctx, 'h, 'w, 'c, 'u) session \<Rightarrow> ('ctx, 'h, 'w, 'c, 'u) session \<Rightarrow> bool" where
  "alive_only s x \<longleftrightarrow> (\<exists>cs. se_trace x = se_trace s @ map AliveCalled cs)"

lemma alive_only_refl [simp]: "alive_only s s" "alive_only s (s\<lparr>se_reader := r\<rparr>)" "alive_only s (s\<lparr>se_writer := w\<rparr>)"
  by (auto simp: alive_only_def intro: exI [of _ "[]"])

lemma alive_only_emit: "alive_only (session_emit (AliveCalled c) s) x \<Longrightarrow> alive_only s x"
  by (auto simp: alive_only_def session_emit_def intro: exI [of _ "c # cs" for cs])

lemma runClosure_dropped:
  "\<not> se_exists s \<Longrightarrow> runClosure msg cl ec s = Done s \<or> (\<exists>c. runClosure msg cl ec s = Done (session_emit (AliveCalled c) s))"
  by (cases cl) (auto simp: runClosure_def)

lemma and_then_dropped:
  assumes "m = Done s \<or> (\<exists>c. m = Done (session_emit (AliveCalled c) s))" and "\<not> se_exists s"
    and "leaves (and_then m f) x" and "\<And>s. \<not> se_exists s \<Longrightarrow> leaves (f s) x \<Longrightarrow> alive_only s x"
  shows "alive_only s x"
  using assms(1)
proof (elim disjE exE)
  fix c assume "m = Done (session_emit (AliveCalled c) s)"
  with assms(2-4) have "alive_only (session_emit (AliveCalled c) s) x" by simp
  then show ?thesis by (rule alive_only_emit)
qed (use assms in simp)

lemma runReadEffects_dropped:
  "\<not> se_exists s \<Longrightarrow> leaves (runReadEffects msg es s) x \<Longrightarrow> alive_only s x"
proof (induction es arbitrary: s)
  case (Cons e es)
  show ?case
    by (rule and_then_dropped [OF _ Cons.prems(1) Cons.prems(2) [unfolded runReadEffects.simps] Cons.IH])
       (use Cons.prems(1) runClosure_dropped in \<open>cases e; fastforce\<close>)
qed simp

lemma runWriteEffects_dropped:
  "\<not> se_exists s \<Longrightarrow> leaves (runWriteEffects msg es s) x \<Longrightarrow> alive_only s x"
proof (induction es arbitrary: s)
  case (Cons e es)
  show ?case
    by (rule and_then_dropped [OF _ Cons.prems(1) Cons.prems(2) [unfolded runWriteEffects.simps] Cons.IH])
       (use Cons.prems(1) runClosure_dropped in \<open>cases e; fastforce\<close>)
qed simp

lemma alive_only_part: "alive_only (s\<lparr>se_reader := r\<rparr>) x = alive_only s x" "alive_only (s\<lparr>se_writer := w\<rparr>) x = alive_only s x"
  by (simp_all add: alive_only_def)

lemma afterRead_dropped:
  assumes "afterRead msg m s = Some n" and "leaves n x" and "\<not> se_exists s"
  shows "\<not> se_exists x \<and> alive_only s x"
proof -
  from afterRead_leaves [OF assms(1,2)] obtain n' r where m: "m = Some n'"
    and "only_trace (s\<lparr>se_reader := r\<rparr>) x" by blast
  from only_trace_fields(3) [OF this(2)] assms(3) have "\<not> se_exists x" by simp
  moreover have "alive_only s x"
    using m assms runReadEffects_dropped [of "s\<lparr>se_reader := r\<rparr>" msg _ x for r]
    by (cases n') (auto simp: afterRead_def alive_only_part)
  ultimately show ?thesis by blast
qed

lemma afterWrite_dropped:
  assumes "leaves (afterWrite msg m s) x" and "\<not> se_exists s"
  shows "\<not> se_exists x \<and> alive_only s x"
proof -
  from afterWrite_leaves [OF assms(1)] obtain w where "only_trace (s\<lparr>se_writer := w\<rparr>) x" by blast
  from only_trace_fields(3) [OF this] assms(2) have "\<not> se_exists x" by simp
  moreover have "alive_only s x"
    using assms runWriteEffects_dropped [of "s\<lparr>se_writer := w\<rparr>" msg _ x for w]
    by (cases m) (auto simp: afterWrite_def alive_only_part)
  ultimately show ?thesis by blast
qed

text \<open>The effects that a dropped session still has.\<close>

definition harmless :: "'c session_effect \<Rightarrow> bool" where
  "harmless e \<longleftrightarrow> (\<exists>c. e = AliveCalled c) \<or> (\<exists>c. e = ClosedCalled c NoError)"

definition harmless_since :: "'c session_effect list \<Rightarrow> ('ctx, 'h, 'w, 'c, 'u) io_system \<Rightarrow> bool" where
  "harmless_since tr s \<longleftrightarrow> \<not> se_exists (io_session s) \<and>
     (\<exists>es. se_trace (io_session s) = tr @ es \<and> (\<forall>e \<in> set es. harmless e))"

lemma harmless_sinceI:
  assumes "harmless_since tr s" and "\<not> se_exists x" and "se_trace x = se_trace (io_session s) @ fs"
    and "\<forall>e \<in> set fs. harmless e" and "io_session t = x"
  shows "harmless_since tr t"
proof -
  from assms(1) obtain es where "se_trace (io_session s) = tr @ es" "\<forall>e \<in> set es. harmless e"
    by (auto simp: harmless_since_def)
  with assms(2-5) have "se_trace (io_session t) = tr @ es @ fs" "\<forall>e \<in> set (es @ fs). harmless e"
    "\<not> se_exists (io_session t)" by auto
  then show ?thesis unfolding harmless_since_def by blast
qed

lemma harmless_since_alive:
  assumes "harmless_since tr s" and "\<not> se_exists x \<and> alive_only y x" and "se_trace y = se_trace (io_session s)"
    and "io_session t = x"
  shows "harmless_since tr t"
proof -
  from assms(2,3) obtain cs where "se_trace x = se_trace (io_session s) @ map AliveCalled cs"
    by (auto simp: alive_only_def)
  with assms show ?thesis by (intro harmless_sinceI [of tr s x]) (auto simp: harmless_def)
qed

lemma harmless_step: "io_step H bufs msg s e t \<Longrightarrow> harmless_since tr s \<Longrightarrow> harmless_since tr t"
proof (induction rule: io_step.induct)
  case (io_control s e x)
  have "silent_since (se_trace (io_session s)) (io_sys s)"
    using io_control(4) by (auto simp: silent_since_def harmless_since_def intro: exI [of _ "[]"])
  from silent_step [OF io_control(1) this] obtain cs where "\<not> se_exists (ss_session x)"
    "se_trace (ss_session x) = se_trace (io_session s) @ map (\<lambda>c. ClosedCalled c NoError) cs"
    by (auto simp: silent_since_def)
  then show ?case
    by (rule harmless_sinceI [OF io_control(4)]) (auto simp: harmless_def)
next
  case (io_run_read s m x)
  from afterRead_dropped [OF io_run_read(2) [unfolded sessionRunRead_def] io_run_read(3)] io_run_read(4)
  show ?case by (intro harmless_since_alive [OF io_run_read(4)]) (auto simp: harmless_since_def put_session_def alive_only_part)
next
  case (io_read_completed i s k ec ops m x)
  from afterRead_dropped [OF io_read_completed(2) [unfolded sessionReadDone_def] io_read_completed(3)]
    io_read_completed(4)
  show ?case by (intro harmless_since_alive [OF io_read_completed(4)]) (auto simp: harmless_since_def put_session_def alive_only_part)
next
  case (io_run_write i s x)
  from afterWrite_dropped [OF io_run_write(2) [unfolded sessionRunWrite_def]] io_run_write(3)
  show ?case by (intro harmless_since_alive [OF io_run_write(3)]) (auto simp: harmless_since_def put_session_def alive_only_part)
next
  case (io_write_completed i s payload ec ops x)
  from afterWrite_dropped [OF io_write_completed(2) [unfolded sessionWriteDone_def]] io_write_completed(3)
  show ?case by (intro harmless_since_alive [OF io_write_completed(3)]) (auto simp: harmless_since_def put_session_def alive_only_part)
next
  case (io_complete_deadline i s k ec ops x)
  from afterWrite_dropped [OF io_complete_deadline(2) [unfolded sessionDeadline_def]] io_complete_deadline(3)
  show ?case by (intro harmless_since_alive [OF io_complete_deadline(3)]) (auto simp: harmless_since_def put_session_def alive_only_part)
qed (simp_all add: harmless_since_def put_session_def)

interpretation harmless: invariant_system "harmless_since tr" "io_step H bufs msg" "harmless_since tr" for tr H bufs msg
  by unfold_locales (auto intro: harmless_step)

subsection \<open>Properties\<close>

text \<open>C27: Every handler of the reader and the writer of a session returns, without an exception, whatever
  happens to the session, as long as none of the error and timeout callbacks that the user has set
  is empty.\<close>

theorem session_handlers_return:
  assumes "read_handlers H rank bufs" and "reachable io_init (io_step H bufs msg) s"
    and "closures_set (io_session s)"
  shows "\<not> io_bad H bufs msg s e"
  using assms by (rule read_handlers.io_handlers_return)

theorem session_handlers_return_witness:
  "\<not> io_bad frame_handlers (\<lambda>b. [b]) (\<lambda>ec. ''error'') dropped_io (CompleteRead 0)"
  by (rule session_handlers_return [OF framing.read_handlers_axioms reachable_dropped_io])
     (auto simp: closures_set_def dropped_io_def new0_def new_Session_def setOptions_def new_AsyncWriter_def Let_def)

text \<open>C28: What a session installs in its reader and its writer is always of the kind that belongs there, and
  it never installs an alive callback in its writer: a write reports nothing of the connection.\<close>

theorem session_callbacks_typed:
  assumes "reachable io_init (io_step H bufs msg) s"
  shows "(rd_errorHandler (se_reader (io_session s)) = NullFn \<or>
       (\<exists>cb. rd_errorHandler (se_reader (io_session s)) = Fn (ReadErrorClosure cb))) \<and>
     (rd_aliveCallback (se_reader (io_session s)) = NoOpFn \<or>
       (\<exists>c. rd_aliveCallback (se_reader (io_session s)) = Fn (AliveClosure c))) \<and>
     (wr_errorHandler (se_writer (io_session s)) = NullFn \<or>
       (\<exists>cb. wr_errorHandler (se_writer (io_session s)) = Fn (WriteErrorClosure cb))) \<and>
     (wr_timeoutHandler (se_writer (io_session s)) = NoOpFn \<or>
       (\<exists>cb. wr_timeoutHandler (se_writer (io_session s)) = Fn (WriteTimeoutClosure cb))) \<and>
     wr_aliveCallback (se_writer (io_session s)) = NoOpFn"
  using reachable_typed [OF assms] by (simp only: closures_typed_def)

theorem session_callbacks_typed_witness:
  "rd_aliveCallback (se_reader (io_session dropped_io)) = Fn (AliveClosure 1) \<and>
   wr_aliveCallback (se_writer (io_session dropped_io)) = NoOpFn"
  using session_callbacks_typed [OF reachable_dropped_io] by (simp add: dropped_io_def)

text \<open>C26: A dropped session reports no failure and no timeout and sends no pong: whatever is still in
  progress, the user hears of it nothing but completed closes, with success, and the alive callback.\<close>

theorem dropped_session_reports_nothing:
  assumes "\<not> se_exists (io_session s)" and "run (io_step H bufs msg) s es t"
  shows "\<exists>fs. se_trace (io_session t) = se_trace (io_session s) @ fs \<and>
     (\<forall>e \<in> set fs. (\<exists>c. e = AliveCalled c) \<or> (\<exists>c. e = ClosedCalled c NoError))"
proof -
  have "harmless_since (se_trace (io_session s)) s"
    using assms(1) by (auto simp: harmless_since_def)
  then have "harmless_since (se_trace (io_session s)) t" using assms(2) by (rule harmless.run_inv)
  then show ?thesis by (auto simp: harmless_since_def harmless_def)
qed

text \<open>The reads of the dropped session go on.\<close>

definition ioevents2 :: "(frame_handler, nat, nat) io_event list" where
  "ioevents2 = [CompleteRead 0, Receive 0 NoError [7, 9], CompleteRead 0]"

definition read_on_io :: example_io where
  "read_on_io = dropped_io\<lparr>io_sys := (io_sys dropped_io)\<lparr>ss_session := (io_session dropped_io)
      \<lparr>se_reader := \<lparr>rd_buffer = [], rd_pendingTask = ReadTask_default, rd_errorHandler = NullFn,
           rd_aliveCallback = Fn (AliveClosure 1),
           rd_user = \<lparr>received = [[7, 9]], recvCounter = 1, toSend_size = 1\<rparr>, rd_posted = 0, rd_reads = [],
           rd_trace = [ReadAlive (AliveClosure 1), ReadHandled OnReadHeader [2, 0, 0, 0, 0, 0, 0, 0],
             ReadAlive (AliveClosure 1), ReadHandled OnReadPayload [7, 9]]\<rparr>,
        se_trace := [PongSent 0 pong_payload, AliveCalled 1, AliveCalled 1]\<rparr>\<rparr>,
      io_input := [2, 0, 0, 0, 0, 0, 0, 0, 7, 9]\<rparr>"

lemma run_ioevents2: "run example_io_step dropped_io ioevents2 read_on_io"
  by (simp add: ioevents2_def read_on_io_def dropped_io_def new0_def vars0_def pong_payload_def io_run_defs)

theorem dropped_session_reports_nothing_witness:
  "\<exists>fs. [PongSent 0 pong_payload, AliveCalled 1, AliveCalled 1] = [PongSent 0 pong_payload] @ fs \<and>
     (\<forall>e \<in> set fs. (\<exists>c. e = AliveCalled (c :: nat)) \<or> (\<exists>c. e = ClosedCalled c NoError))"
  using dropped_session_reports_nothing [OF _ run_ioevents2]
  by (simp add: dropped_io_def read_on_io_def)

text \<open>Dropping a session does not stop its read sequence when a completed read is queued: the reader
  keeps itself alive, calls the user's read handlers and alive callback, and starts new reads of the
  stream, after the session is gone.\<close>

theorem dropped_session_reads_on:
  "\<exists>(s :: example_io) t es. reachable io_init example_io_step s \<and> \<not> se_exists (io_session s) \<and>
     running (rd_reads (se_reader (io_session s))) = [] \<and> run example_io_step s es t \<and>
     received (rd_user (se_reader (io_session s))) = [] \<and> received (rd_user (se_reader (io_session t))) = [[7, 9]] \<and>
     se_trace (io_session t) = se_trace (io_session s) @ [AliveCalled 1, AliveCalled 1]"
proof -
  have "\<not> se_exists (io_session dropped_io)" "running (rd_reads (se_reader (io_session dropped_io))) = []"
    "received (rd_user (se_reader (io_session dropped_io))) = []"
    "received (rd_user (se_reader (io_session read_on_io))) = [[7, 9]]"
    "se_trace (io_session read_on_io) = se_trace (io_session dropped_io) @ [AliveCalled 1, AliveCalled 1]"
    by (simp_all add: dropped_io_def read_on_io_def running_def vars0_def)
  with reachable_dropped_io run_ioevents2 show ?thesis by blast
qed

end
