(* ===== verification/Session_Link.thy ===== *)
theory Session_Link
  imports Session_Io_Properties
begin

section \<open>Two sessions and the connection between them\<close>

text \<open>
  A session at each end of a connection. Each end goes through any of its own steps; the network
  delivers to it, in pieces of any size and at any time, the bytes that the other end has put on the
  wire, in their order, and never others. \<open>li_to_a\<close> and \<open>li_to_b\<close> are all bytes delivered so far.

  What was proved of one session holds of both ends (interpretations of \<open>component_of\<close>), and what an
  end has read is a part of what the other has written (the invariant \<open>link_inv\<close>).
\<close>

text \<open>What an end brings with it: its read handlers, the chunks of its stream buffer, the texts of its
  error codes.\<close>

record ('h, 'u) endpoint =
  ep_handlers :: "('h, 'u) handlers"
  ep_bufs :: "byte list \<Rightarrow> byte list list"
  ep_msg :: "error_code \<Rightarrow> string"

abbreviation end_step ::
  "('h, 'u) endpoint \<Rightarrow> ('ctx, 'h, 'w, 'c, 'u) io_system \<Rightarrow> ('h, 'w, 'c) io_event \<Rightarrow>
   ('ctx, 'h, 'w, 'c, 'u) io_system \<Rightarrow> bool" where
  "end_step P \<equiv> io_step (ep_handlers P) (ep_bufs P) (ep_msg P)"

record ('a, 'b) link =
  li_a :: 'a
  li_b :: 'b
  li_to_a :: "byte list"
  li_to_b :: "byte list"

fun arrived :: "('h, 'w, 'c) io_event \<Rightarrow> byte list" where
  "arrived (Receive i ec bs) = bs"
| "arrived _ = []"

definition link_init ::
  "(('ca, 'ha, 'wa, 'xa, 'ua) io_system, ('cb, 'hb, 'wb, 'xb, 'ub) io_system) link \<Rightarrow> bool" where
  "link_init s \<longleftrightarrow> io_init (li_a s) \<and> io_init (li_b s) \<and> li_to_a s = [] \<and> li_to_b s = []"

inductive link_step ::
  "('ha, 'ua) endpoint \<Rightarrow> ('hb, 'ub) endpoint \<Rightarrow>
   (('ca, 'ha, 'wa, 'xa, 'ua) io_system, ('cb, 'hb, 'wb, 'xb, 'ub) io_system) link \<Rightarrow>
   ('ha, 'wa, 'xa) io_event + ('hb, 'wb, 'xb) io_event \<Rightarrow>
   (('ca, 'ha, 'wa, 'xa, 'ua) io_system, ('cb, 'hb, 'wb, 'xb, 'ub) io_system) link \<Rightarrow> bool"
  for P :: "('ha, 'ua) endpoint" and Q :: "('hb, 'ub) endpoint"
where
  link_a: "end_step P (li_a s) e a \<Longrightarrow> prefix (li_to_a s @ arrived e) (io_wire (li_b s)) \<Longrightarrow>
     link_step P Q s (Inl e) (s\<lparr>li_a := a, li_to_a := li_to_a s @ arrived e\<rparr>)"
| link_b: "end_step Q (li_b s) e b \<Longrightarrow> prefix (li_to_b s @ arrived e) (io_wire (li_a s)) \<Longrightarrow>
     link_step P Q s (Inr e) (s\<lparr>li_b := b, li_to_b := li_to_b s @ arrived e\<rparr>)"

inductive_simps link_step_simps:
  "link_step P Q s (Inl e) t"
  "link_step P Q s (Inr e) t"

text \<open>A session that was just handed out, in the hands of its user, and two of them linked.\<close>

definition fresh_io :: "('ctx, 'h, 'w, 'c, 'u) session \<Rightarrow> nat \<Rightarrow> ('ctx, 'h, 'w, 'c, 'u) io_system" where
  "fresh_io x now = \<lparr>io_sys = \<lparr>ss_session = x, ss_now = now, ss_starts = 0, ss_pongFailed = False, ss_closing = []\<rparr>,
     io_entry = ReadTask_default, io_user = rd_user (se_reader x), io_calls = [], io_input = [], io_deadlines = [],
     io_accepted = [], io_completed = [], io_wire = [], io_failed = False\<rparr>"

lemma fresh_io_init:
  assumes "x = new_Session suggested u ctx role address port"
  shows "io_init (fresh_io x now)"
proof -
  have "session_init (io_sys (fresh_io x now))"
    unfolding session_init_def fresh_io_def assms by (simp, blast)
  then show ?thesis by (simp add: io_init_def fresh_io_def)
qed

definition fresh_link where
  "fresh_link x now y now' = \<lparr>li_a = fresh_io x now, li_b = fresh_io y now', li_to_a = [], li_to_b = []\<rparr>"

lemma fresh_link_init:
  assumes "x = new_Session suggested u ctx role address port" and "y = new_Session suggested' u' ctx' role' address' port'"
  shows "link_init (fresh_link x now y now')"
  using fresh_io_init [OF assms(1)] fresh_io_init [OF assms(2)] by (simp add: link_init_def fresh_link_def)

subsection \<open>Either end is the other's other end\<close>

definition link_swap :: "('a, 'b) link \<Rightarrow> ('b, 'a) link" where
  "link_swap s = \<lparr>li_a = li_b s, li_b = li_a s, li_to_a = li_to_b s, li_to_b = li_to_a s\<rparr>"

lemma link_swap_fields [simp]:
  "li_a (link_swap s) = li_b s" "li_b (link_swap s) = li_a s" "li_to_a (link_swap s) = li_to_b s"
  "li_to_b (link_swap s) = li_to_a s" "link_swap (link_swap s) = s"
  by (simp_all add: link_swap_def)

definition swap_event :: "'e + 'f \<Rightarrow> 'f + 'e" where
  "swap_event = case_sum Inr Inl"

lemma link_step_swap: "link_step P Q s e t \<Longrightarrow> link_step Q P (link_swap s) (swap_event e) (link_swap t)"
proof (induction rule: link_step.induct)
  case (link_a s e a)
  then show ?case
    using link_step.link_b [of P "link_swap s" e a Q] by (simp add: swap_event_def) (simp add: link_swap_def)
next
  case (link_b s e b)
  then show ?case
    using link_step.link_a [of Q "link_swap s" e b P] by (simp add: swap_event_def) (simp add: link_swap_def)
qed

lemma link_init_swap: "link_init s \<Longrightarrow> link_init (link_swap s)"
  by (simp add: link_init_def)

lemma link_swap_moves:
  "link_step P Q s e t \<Longrightarrow> link_swap t = link_swap s \<or> (\<exists>f. link_step Q P (link_swap s) f (link_swap t))"
  by (blast intro: link_step_swap)

interpretation swapped: simulation link_init "link_step P Q" "\<lambda>s. True" link_init "link_step Q P" link_swap
  for P Q
  by unfold_locales (simp_all add: link_init_swap link_swap_moves)

subsection \<open>The ends are sessions\<close>

lemma link_step_a: "link_step P Q s e t \<Longrightarrow> li_a t = li_a s \<or> (\<exists>f. end_step P (li_a s) f (li_a t))"
  by (induction rule: link_step.induct) auto

lemma link_step_b: "link_step P Q s e t \<Longrightarrow> li_b t = li_b s \<or> (\<exists>f. end_step Q (li_b s) f (li_b t))"
  by (induction rule: link_step.induct) auto

interpretation end_a: component_of link_init "link_step P Q" io_init "end_step P" "\<lambda>a. True" li_a
  for P Q
  by unfold_locales (simp_all add: link_init_def link_step_a)

interpretation end_b: component_of link_init "link_step P Q" io_init "end_step Q" "\<lambda>b. True" li_b
  for P Q
  by unfold_locales (simp_all add: link_init_def link_step_b)

subsection \<open>What comes in was sent\<close>

lemma io_wire_grows: "io_step H bufs msg s e t \<Longrightarrow> prefix (io_wire s) (io_wire t)"
  by (induction rule: io_step.induct) (simp_all add: put_session_def)

text \<open>A new read sequence begins with what is still buffered; otherwise the input only grows.\<close>

lemma io_input_step:
  "io_step H bufs msg s e t \<Longrightarrow>
   io_input t = io_input s @ arrived e \<or> arrived e = [] \<and> io_input t = rd_buffer (se_reader (io_session s))"
  by (induction rule: io_step.induct) (simp_all add: put_session_def)

lemma link_wires: "link_init s \<Longrightarrow> prefix (li_to_b s) (io_wire (li_a s)) \<and> prefix (li_to_a s) (io_wire (li_b s))"
  by (simp add: link_init_def)

lemma link_wires_step:
  assumes "prefix (li_to_b s) (io_wire (li_a s)) \<and> prefix (li_to_a s) (io_wire (li_b s))" and "link_step P Q s e t"
  shows "prefix (li_to_b t) (io_wire (li_a t)) \<and> prefix (li_to_a t) (io_wire (li_b t))"
  using assms(2,1)
proof (induction rule: link_step.induct)
  case (link_a s e a)
  then show ?case using io_wire_grows [OF link_a(1)] by (auto intro: prefix_order.trans)
next
  case (link_b s e b)
  then show ?case using io_wire_grows [OF link_b(1)] by (auto intro: prefix_order.trans)
qed

interpretation delivery: invariant_system link_init "link_step P Q"
  "\<lambda>s. prefix (li_to_b s) (io_wire (li_a s)) \<and> prefix (li_to_a s) (io_wire (li_b s))" for P Q
  by unfold_locales (rule link_wires link_wires_step; assumption)+

context read_handlers
begin

lemma session_buffer_tail:
  assumes "reachable io_init (io_step H bufs msg) s"
  shows "suffix (rd_buffer (se_reader (io_session s))) (io_input s)"
  using buffer_tail [OF session_reader.reachable_part [OF assms]] by (simp add: reader_of_def)

end

text \<open>What the read sequence of an end can read is the end of what was delivered.\<close>

lemma input_was_delivered:
  assumes "read_handlers (ep_handlers Q) rank (ep_bufs Q)" and "reachable link_init (link_step P Q) s"
  shows "suffix (io_input (li_b s)) (li_to_b s)"
  using assms(2)
proof (induction rule: reachable.induct)
  case (reachable_init s)
  then show ?case by (simp add: link_init_def io_init_def)
next
  case (reachable_step s e t)
  from reachable_step(2,1,3) show ?case
  proof (induction rule: link_step.induct)
    case (link_b s e b)
    have tail: "suffix (rd_buffer (se_reader (io_session (li_b s)))) (io_input (li_b s))"
      by (rule read_handlers.session_buffer_tail [OF assms(1) end_b.reachable_part [OF link_b(3)]])
    from io_input_step [OF link_b(1)] show ?case
    proof
      assume "io_input b = io_input (li_b s) @ arrived e"
      then show ?thesis using link_b(4) by simp
    next
      assume "arrived e = [] \<and> io_input b = rd_buffer (se_reader (io_session (li_b s)))"
      then show ?thesis using link_b(4) tail by (auto intro: suffix_order.trans)
    qed
  qed simp
qed

subsection \<open>An end can write out what it has accepted\<close>

lemma leaves_total: "m \<noteq> Undefined \<Longrightarrow> \<exists>x. leaves m x"
  by (cases m) auto

lemma invoke_total: "invoke cb k s \<noteq> Undefined"
  by (cases cb) simp_all

lemma runClosure_total: "runClosure msg cl ec s \<noteq> Undefined"
  by (cases cl) (simp_all add: runClosure_def invoke_total)

lemma and_then_total: "m \<noteq> Undefined \<Longrightarrow> (\<And>s. f s \<noteq> Undefined) \<Longrightarrow> and_then m f \<noteq> Undefined"
  by (cases m) simp_all

lemma runReadEffects_total: "runReadEffects msg es s \<noteq> Undefined"
proof (induction es arbitrary: s)
  case (Cons e es)
  show ?case
    by (cases e) (simp_all add: and_then_total runClosure_total Cons.IH)
qed simp

lemma runWriteEffects_total: "runWriteEffects msg es s \<noteq> Undefined"
proof (induction es arbitrary: s)
  case (Cons e es)
  show ?case
    by (cases e) (simp_all add: and_then_total runClosure_total Cons.IH)
qed simp

text \<open>Whatever the handler of the reader or the writer leaves, the session is left with.\<close>

lemma afterWrite_follows:
  assumes "leaves m w"
  shows "\<exists>x. leaves (afterWrite msg m s) x \<and> se_writer x = w \<and> se_reader x = se_reader s"
proof (cases m)
  case (Done w')
  with assms have m: "m = Done w" by simp
  obtain x where x: "leaves (runWriteEffects msg (drop (length (wr_trace (se_writer s))) (wr_trace w)) (s\<lparr>se_writer := w\<rparr>)) x"
    using leaves_total [OF runWriteEffects_total] by blast
  note fields = only_trace_fields(1,2) [OF runWriteEffects_only_trace [OF x]]
  show ?thesis using x fields by (intro exI [of _ x]) (simp add: m afterWrite_def)
qed (use assms in \<open>simp_all add: afterWrite_def\<close>)

lemma afterRead_follows:
  assumes "leaves m r"
  shows "\<exists>n x. afterRead msg (Some m) s = Some n \<and> leaves n x \<and> se_reader x = r \<and> se_writer x = se_writer s"
proof (cases m)
  case (Done r')
  with assms have m: "m = Done r" by simp
  obtain x where x: "leaves (runReadEffects msg (drop (length (rd_trace (se_reader s))) (rd_trace r)) (s\<lparr>se_reader := r\<rparr>)) x"
    using leaves_total [OF runReadEffects_total] by blast
  note fields = only_trace_fields(1,2) [OF runReadEffects_only_trace [OF x]]
  show ?thesis using x fields by (auto simp: m afterRead_def)
qed (use assms in \<open>simp_all add: afterRead_def\<close>)

text \<open>What the stream can do for the writer, it can do for the session.\<close>

lemma follow_writer:
  assumes "write_step (writer_of s) e w" and "stream_event e"
  shows "\<exists>f t. io_step H bufs msg s f t \<and> writer_of t = w \<and> reader_of t = reader_of s \<and> arrived f = []"
proof (cases e)
  case (FinishWrite i ec n)
  with assms(1) obtain ops where ops: "finish_op i ec (wr_writes (se_writer (io_session s))) = Some ops"
    "\<not> failed ec \<longrightarrow> n = length (fst (wr_writes (se_writer (io_session s)) ! i))"
    and w: "w = (writer_of s)\<lparr>ws_writer := (se_writer (io_session s))\<lparr>wr_writes := ops\<rparr>,
      ws_wire := io_wire s @ take n (fst (wr_writes (se_writer (io_session s)) ! i)),
      ws_failed := io_failed s \<or> failed ec\<rparr>"
    by (auto simp: write_step_simps writer_of_def)
  from io_transmit [OF ops, of H bufs msg] show ?thesis
    by (intro exI [of _ "Transmit i ec n"] exI conjI, assumption) (simp_all add: w io_views)
next
  case (WriteCompleted i)
  with assms(1) obtain payload ec ops wr where take: "take_op i (wr_writes (se_writer (io_session s))) = Some ((payload, ec), ops)"
    and wr: "leaves (writeDone ec ((se_writer (io_session s))\<lparr>wr_writes := ops\<rparr>)) wr"
    and w: "w = (writer_of s)\<lparr>ws_writer := wr,
      ws_completed := io_completed s @ [fst (hd (wr_tasksQueue (se_writer (io_session s))))]\<rparr>"
    by (auto simp: write_step_simps writer_of_def)
  let ?s = "(io_session s)\<lparr>se_writer := (se_writer (io_session s))\<lparr>wr_writes := ops\<rparr>\<rparr>"
  from afterWrite_follows [OF wr, of msg ?s] obtain x where
    x: "leaves (sessionWriteDone msg ec ?s) x" "se_writer x = wr" "se_reader x = se_reader ?s"
    by (auto simp: sessionWriteDone_def)
  from io_write_completed [OF take x(1), of H bufs] show ?thesis
    by (intro exI [of _ "CompleteWrite i"] exI conjI, assumption) (use x(2,3) in \<open>simp_all add: w io_views\<close>)
qed (use assms(2) in simp_all)

lemma follow_writer_run:
  assumes "run write_step (writer_of s) es w" and "\<forall>e \<in> set es. stream_event e"
  shows "\<exists>fs t. run (io_step H bufs msg) s fs t \<and> writer_of t = w \<and> reader_of t = reader_of s \<and>
     (\<forall>f \<in> set fs. arrived f = [])"
  using assms
proof (induction es arbitrary: s)
  case Nil
  then show ?case by (intro exI [of _ "[]"] exI [of _ s]) simp
next
  case (Cons e es)
  then obtain v where v: "write_step (writer_of s) e v" "run write_step v es w" "stream_event e" by auto
  from follow_writer [OF v(1,3)] obtain f u where u: "io_step H bufs msg s f u" "writer_of u = v"
    "reader_of u = reader_of s" "arrived f = []" by blast
  from Cons.IH [of u] v(2) u(2) Cons.prems(2) obtain fs t where t: "run (io_step H bufs msg) u fs t" "writer_of t = w"
    "reader_of t = reader_of u" "\<forall>f \<in> set fs. arrived f = []" by auto
  from u t have "run (io_step H bufs msg) s (f # fs) t" by auto
  with u t show ?case by (intro exI [of _ "f # fs"] exI [of _ t]) auto
qed

text \<open>A session whose writer is healthy can put all it has accepted on the wire.\<close>

lemma session_writes_out:
  assumes "reachable io_init (io_step H bufs msg) s" and "\<not> io_failed s"
    and "\<not> wr_timeoutReached (se_writer (io_session s))"
  shows "\<exists>fs t. run (io_step H bufs msg) s fs t \<and> (\<forall>f \<in> set fs. arrived f = []) \<and>
     io_wire t = concat (map batch_bytes (io_accepted s)) \<and> io_accepted t = io_accepted s \<and> \<not> io_failed t"
proof -
  have inv: "write_inv (writer_of s)" using assms(1) by (rule session_writer.part_inv)
  from write_all_batches [OF this] assms(2,3) obtain es w where w: "run write_step (writer_of s) es w"
    "\<forall>e \<in> set es. stream_event e" "wr_tasksQueue (ws_writer w) = []" "\<not> ws_failed w"
    "ws_accepted w = io_accepted s" by (auto simp: writer_of_def)
  have "ws_wire w = concat (map batch_bytes (ws_accepted w))"
    using empty_queue_wire [OF writing.run_inv [OF inv w(1)] w(4,3)] by blast
  moreover from follow_writer_run [OF w(1,2)] obtain fs t where
    "run (io_step H bufs msg) s fs t" "writer_of t = w" "\<forall>f \<in> set fs. arrived f = []" by blast
  ultimately show ?thesis using w by (intro exI [of _ fs] exI [of _ t]) (auto simp: writer_of_def)
qed

subsection \<open>An end can read what is delivered to it\<close>

context read_handlers
begin

lemma session_reads_on:
  assumes inv: "read_inv H (reader_of s)" and reads: "rd_reads (se_reader (io_session s)) = [(k, Running)]"
    and "k \<le> length bs"
  shows "\<exists>t. run (io_step H bufs msg) s [Receive 0 NoError bs, CompleteRead 0] t \<and> io_input t = io_input s @ bs \<and>
     io_entry t = io_entry s \<and> io_user t = io_user s \<and> writer_of t = writer_of s \<and>
     (rt_handler (rd_pendingTask (se_reader (io_session t))) = None \<or>
      (\<exists>k. rd_reads (se_reader (io_session t)) = [(k, Running)]))"
proof -
  let ?r = "(se_reader (io_session s))\<lparr>rd_buffer := rd_buffer (se_reader (io_session s)) @ bs, rd_reads := [(k, Ready NoError)]\<rparr>"
  let ?u = "(put_session ((io_session s)\<lparr>se_reader := ?r\<rparr>) s)\<lparr>io_input := io_input s @ bs\<rparr>"
  have u: "io_step H bufs msg s (Receive 0 NoError bs) ?u"
    by (rule io_receive) (simp_all add: reads assms(3))
  have "read_inv H (reader_of ?u)"
    using receive_keeps_inv [OF inv, of 0 NoError "[(k, Ready NoError)]" bs] reads assms(3)
    by (simp add: io_views)
  moreover have take: "take_op 0 (rd_reads (rs_reader (reader_of ?u))) = Some ((k, NoError), [])"
    by (simp add: io_views)
  ultimately obtain r where r: "readDone H bufs NoError ((rs_reader (reader_of ?u))\<lparr>rd_reads := []\<rparr>) = Some (Done r)"
    and quiet: "rt_handler (rd_pendingTask r) = None \<or> (\<exists>k. rd_reads r = [(k, Running)])"
    using read_completed_returns [of "reader_of ?u"] read_completed_quiet [of "reader_of ?u"] by metis
  let ?v = "(io_session ?u)\<lparr>se_reader := (se_reader (io_session ?u))\<lparr>rd_reads := []\<rparr>\<rparr>"
  from afterRead_follows [of "Done r" r msg ?v] obtain n x where
    x: "sessionReadDone msg H bufs NoError ?v = Some n" "leaves n x" "se_reader x = r" "se_writer x = se_writer ?v"
    using r by (auto simp: sessionReadDone_def io_views)
  have "io_step H bufs msg ?u (CompleteRead 0) (put_session x ?u)"
    by (rule io_read_completed [OF _ x(1,2)]) (simp add: io_views)
  with u have "run (io_step H bufs msg) s [Receive 0 NoError bs, CompleteRead 0] (put_session x ?u)" by auto
  then show ?thesis
    using quiet x(3,4) by (intro exI [of _ "put_session x ?u"]) (simp add: io_views)
qed

end

subsection \<open>Framed messages over a link\<close>

text \<open>An end that reads frames and is not about to run a handler: it waits for bytes or is done.\<close>

definition reads_frames :: "('ctx, frame_handler, 'w, 'c, frame_vars) io_system \<Rightarrow> nat \<Rightarrow> bool" where
  "reads_frames b n \<longleftrightarrow> io_entry b = read_header \<and> recvCounter (io_user b) + n = toSend_size (io_user b) \<and>
     (rt_handler (rd_pendingTask (se_reader (io_session b))) = None \<or>
      (\<exists>k. rd_reads (se_reader (io_session b)) = [(k, Running)]))"

abbreviation messages_of :: "('ctx, frame_handler, 'w, 'c, frame_vars) io_system \<Rightarrow> byte list list" where
  "messages_of b \<equiv> received (rd_user (se_reader (io_session b)))"

lemma reads_frames_stream:
  assumes "read_inv frame_handlers (reader_of b)" and "reads_frames b n"
  shows "read_stream frame_handlers read_header (io_user b) (io_input b) (io_calls b) =
     Some (rd_pendingTask (se_reader (io_session b)), rd_user (se_reader (io_session b)),
           rd_buffer (se_reader (io_session b)), handled (se_reader (io_session b)))"
  using quiet_reader [OF assms(1)] assms(2) by (simp add: reads_frames_def reader_of_def)

lemma frames_read:
  assumes "read_inv frame_handlers (reader_of b)" and "reads_frames b (length ps)"
    and "ps \<noteq> []" and "\<forall>p \<in> set ps. length p < 256 ^ 8"
    and "prefix (io_input b) (concat (map frame ps))"
  shows "prefix (messages_of b) (received (io_user b) @ ps) \<and>
     (io_input b = concat (map frame ps) \<longrightarrow> messages_of b = received (io_user b) @ ps \<and>
        rd_pendingTask (se_reader (io_session b)) = ReadTask_default \<and> rd_buffer (se_reader (io_session b)) = [])"
proof -
  have "recvCounter (io_user b) + length ps = toSend_size (io_user b)"
    using assms(2) by (simp add: reads_frames_def)
  from read_frames_prefix [OF assms(3,4) this assms(5) reads_frames_stream [OF assms(1,2)]] show ?thesis by blast
qed

text \<open>The network has delivered a part of what the other end has accepted, which is \<open>before\<close>, for
  earlier sequences, and the frames.\<close>

lemma delivered_frames:
  assumes "reachable link_init (link_step P Q) s" and "\<not> io_failed (li_a s)"
    and "concat (map batch_bytes (io_accepted (li_a s))) = before @ concat (map frame ps)"
    and "li_to_b s = before @ io_input (li_b s)"
  shows "prefix (io_input (li_b s)) (concat (map frame ps))"
proof -
  have "write_inv (writer_of (li_a s))" using end_a.reachable_part [OF assms(1)] by (rule session_writer.part_inv)
  with wire_in_order [of "writer_of (li_a s)"] assms(2,3)
  have "prefix (io_wire (li_a s)) (before @ concat (map frame ps))" by (simp add: writer_of_def)
  with delivery.reachable_inv [OF assms(1)] have "prefix (li_to_b s) (before @ concat (map frame ps))"
    by (blast intro: prefix_order.trans)
  with assms(4) show ?thesis by simp
qed

text \<open>What one end does alone.\<close>

lemma run_a_alone:
  assumes "run (end_step P) (li_a s) es a" and "\<forall>e \<in> set es. arrived e = []"
    and "prefix (li_to_a s) (io_wire (li_b s))"
  shows "run (link_step P Q) s (map Inl es) (s\<lparr>li_a := a\<rparr>)"
  using assms
proof (induction es arbitrary: s)
  case (Cons e es)
  then obtain v where v: "end_step P (li_a s) e v" "run (end_step P) v es a" by auto
  have "s\<lparr>li_a := v, li_to_a := li_to_a s\<rparr> = s\<lparr>li_a := v\<rparr>" by (cases s) simp
  then have "link_step P Q s (Inl e) (s\<lparr>li_a := v\<rparr>)"
    using link_a [OF v(1), of Q] Cons.prems(2,3) by simp
  moreover have "run (link_step P Q) (s\<lparr>li_a := v\<rparr>) (map Inl es) (s\<lparr>li_a := v\<rparr>\<lparr>li_a := a\<rparr>)"
    by (rule Cons.IH) (use v(2) Cons.prems(2,3) in simp_all)
  ultimately show ?case by (simp del: link_step_simps) blast
qed simp

text \<open>All that one end has accepted can get to the other.\<close>

lemma frames_get_through:
  assumes Q: "ep_handlers Q = frame_handlers" "ep_bufs Q = (\<lambda>b. [b])"
    and s: "reachable link_init (link_step P Q) s" and ok: "\<not> io_failed (li_a s)"
    "\<not> wr_timeoutReached (se_writer (io_session (li_a s)))"
    and acc: "concat (map batch_bytes (io_accepted (li_a s))) = before @ concat (map frame ps)"
    and to_b: "li_to_b s = before @ io_input (li_b s)"
    and b: "reads_frames (li_b s) (length ps)" and ps: "ps \<noteq> []" "\<forall>p \<in> set ps. length p < 256 ^ 8"
  shows "\<exists>es t. run (link_step P Q) s es t \<and> messages_of (li_b t) = received (io_user (li_b s)) @ ps \<and>
     rd_buffer (se_reader (io_session (li_b t))) = []"
proof -
  have inv: "read_inv frame_handlers (reader_of (li_b s))"
    using read_handlers.session_read_inv [OF framing.read_handlers_axioms] end_b.reachable_part [OF s] Q by metis
  have wires: "prefix (li_to_b s) (io_wire (li_a s))" "prefix (li_to_a s) (io_wire (li_b s))"
    using delivery.reachable_inv [OF s] by blast+
  from session_writes_out [OF end_a.reachable_part [OF s] ok] obtain fs a where
    a: "run (end_step P) (li_a s) fs a" "\<forall>f \<in> set fs. arrived f = []" "io_accepted a = io_accepted (li_a s)"
    and wire: "io_wire a = before @ concat (map frame ps)" using acc by auto
  let ?u = "s\<lparr>li_a := a\<rparr>"
  have u: "run (link_step P Q) s (map Inl fs) ?u" by (rule run_a_alone [OF a(1,2) wires(2)])
  have sent: "prefix (io_input (li_b s)) (concat (map frame ps))" by (rule delivered_frames [OF s ok(1) acc to_b])
  then obtain bs where bs: "concat (map frame ps) = io_input (li_b s) @ bs" by (rule prefixE)
  note stream = reads_frames_stream [OF inv b]
  have count: "recvCounter (io_user (li_b s)) + length ps = toSend_size (io_user (li_b s))"
    using b by (simp add: reads_frames_def)
  show ?thesis
  proof (cases "rt_handler (rd_pendingTask (se_reader (io_session (li_b s)))) = None")
    case True
    obtain cs where "read_stream frame_handlers read_header (io_user (li_b s)) (io_input (li_b s) @ bs) (io_calls (li_b s)) =
        Some (ReadTask_default, (io_user (li_b s))\<lparr>received := received (io_user (li_b s)) @ ps,
          recvCounter := recvCounter (io_user (li_b s)) + length ps\<rparr>, [], cs)"
      using read_frames [OF ps count, of "[]" "io_calls (li_b s)"] bs by auto
    with read_stream_more [OF stream, of bs] True
    have "rd_user (se_reader (io_session (li_b s))) = (io_user (li_b s))\<lparr>received := received (io_user (li_b s)) @ ps,
          recvCounter := recvCounter (io_user (li_b s)) + length ps\<rparr> \<and> rd_buffer (se_reader (io_session (li_b s))) = []"
      by (simp add: read_stream_stop)
    then show ?thesis by (intro exI [of _ "[]"] exI [of _ s]) simp
  next
    case False
    then obtain k where k: "rd_reads (se_reader (io_session (li_b s))) = [(k, Running)]"
      using b by (auto simp: reads_frames_def)
    then have "k = rt_size (rd_pendingTask (se_reader (io_session (li_b s)))) - length (rd_buffer (se_reader (io_session (li_b s))))"
      using inv by (auto simp: read_inv_def read_op_ok_def reader_of_def Let_def)
    moreover have "rt_size (rd_pendingTask (se_reader (io_session (li_b s)))) \<le>
        length (rd_buffer (se_reader (io_session (li_b s)))) + length bs"
      by (rule frames_complete_task [OF ps count bs [symmetric] stream False])
    ultimately have "k \<le> length bs" by simp
    from read_handlers.session_reads_on [OF framing.read_handlers_axioms inv k this, of "ep_msg Q"] obtain c where
      c: "run (end_step Q) (li_b s) [Receive 0 NoError bs, CompleteRead 0] c" "io_input c = io_input (li_b s) @ bs"
        "io_entry c = io_entry (li_b s)" "io_user c = io_user (li_b s)"
      and quiet: "rt_handler (rd_pendingTask (se_reader (io_session c))) = None \<or>
        (\<exists>k. rd_reads (se_reader (io_session c)) = [(k, Running)])" using Q by auto
    then obtain d where d: "end_step Q (li_b s) (Receive 0 NoError bs) d" "end_step Q d (CompleteRead 0) c" by auto
    let ?v = "?u\<lparr>li_b := d, li_to_b := li_to_b s @ bs\<rparr>" and ?t = "?u\<lparr>li_b := c, li_to_b := li_to_b s @ bs\<rparr>"
    have "prefix (li_to_b s @ bs) (io_wire a)" by (simp add: wire to_b bs)
    then have v: "link_step P Q ?u (Inr (Receive 0 NoError bs)) ?v"
      using link_b [of Q ?u "Receive 0 NoError bs" d P] d(1) by simp
    have "link_step P Q ?v (Inr (CompleteRead 0)) ?t"
      using link_b [of Q ?v "CompleteRead 0" c P] d(2) \<open>prefix (li_to_b s @ bs) (io_wire a)\<close> by simp
    with u v have t: "run (link_step P Q) s (map Inl fs @ [Inr (Receive 0 NoError bs), Inr (CompleteRead 0)]) ?t"
      by (auto simp: run_append)
    have "reachable io_init (end_step Q) c"
      using run_reachable [OF end_b.reachable_part [OF s] c(1)] .
    then have "read_inv frame_handlers (reader_of c)"
      using read_handlers.session_read_inv [OF framing.read_handlers_axioms] Q by metis
    moreover have "reads_frames c (length ps)" using b c quiet by (simp add: reads_frames_def)
    ultimately have "messages_of c = received (io_user c) @ ps \<and> rd_buffer (se_reader (io_session c)) = []"
      using frames_read [OF _ _ ps, of c] c(2) bs by simp
    then have "messages_of (li_b ?t) = received (io_user (li_b s)) @ ps \<and> rd_buffer (se_reader (io_session (li_b ?t))) = []"
      using c(4) by simp
    with t show ?thesis by blast
  qed
qed

end
