(* ===== verification/Boost_Interface.thy ===== *)
theory Boost_Interface
  imports NS_Prelude
begin

section \<open>The parts of Boost that the library calls as functions\<close>

text \<open>
  Boost is not part of the repository. What the code calls of it as plain functions is a
  parameter of the model: the fields of the record \<open>boost\<close>. What the code relies on is stated
  as the laws of locales, from the documentation of each function:

  \<^item> \<open>base64_codec\<close>: \<open>boost::beast::detail::base64\<close>;
  \<^item> \<open>tokenizer\<close>: \<open>boost::split\<close> with \<open>token_compress_on\<close>, and \<open>is_space\<close>;
  \<^item> \<open>http_fields\<close>: the container of HTTP fields (\<open>count\<close>, \<open>operator[]\<close>, \<open>set\<close>).

  The laws can hold together: \<open>rfc_boost\<close> is an instance with the Base64 of RFC 4648, a
  tokenizer and fields as an association list; the interpretations at the end discharge the
  laws for it. Witnesses of properties that assume the laws evaluate on this instance.
\<close>

subsection \<open>The interface\<close>

datatype http_field = AuthorizationField | UserAgentField | ServerField | OtherField string

record 'f boost =
  encoded_size :: "nat \<Rightarrow> nat"
  b64_encode :: "string \<Rightarrow> string" \<comment> \<open>the characters \<open>encode\<close> writes\<close>
  decoded_size :: "nat \<Rightarrow> nat"
  b64_decode :: "string \<Rightarrow> string \<times> nat" \<comment> \<open>the bytes \<open>decode\<close> writes, the characters it reads\<close>
  split_compress :: "(char \<Rightarrow> bool) \<Rightarrow> string \<Rightarrow> string list"
  is_space :: "char \<Rightarrow> bool"
  field_count :: "'f \<Rightarrow> http_field \<Rightarrow> nat"
  field_at :: "'f \<Rightarrow> http_field \<Rightarrow> string"
  field_set :: "'f \<Rightarrow> http_field \<Rightarrow> string \<Rightarrow> 'f"
  beast_version :: string

definition is_b64_char :: "char \<Rightarrow> bool" where
  "is_b64_char c =
     (let n = of_char c :: nat
      in 65 \<le> n \<and> n \<le> 90 \<or> 97 \<le> n \<and> n \<le> 122 \<or> 48 \<le> n \<and> n \<le> 57 \<or> n = 43 \<or> n = 47)"

locale base64_codec =
  fixes B :: "'f boost"
  assumes encode_fits: "length (b64_encode B s) \<le> encoded_size B (length s)"
    and encode_chars: "c \<in> set (b64_encode B s) \<Longrightarrow> is_b64_char c \<or> c = CHR ''=''"
    and encode_quads: "4 dvd length (b64_encode B s)"
    and decode_encode: "fst (b64_decode B (b64_encode B s)) = s"
    and decode_fits: "4 dvd length s \<Longrightarrow> length (fst (b64_decode B s)) \<le> decoded_size B (length s)"

locale tokenizer =
  fixes B :: "'f boost"
  assumes split_one: "(\<And>c. c \<in> set s \<Longrightarrow> \<not> P c) \<Longrightarrow> split_compress B P s = [s]"
    and split_more: "(\<And>c. c \<in> set t \<Longrightarrow> \<not> P c) \<Longrightarrow> P c \<Longrightarrow>
          split_compress B P (t @ c # s) = t # split_compress B P (dropWhile P s)"
    and space_is_space: "is_space B (CHR '' '')"
    and b64_not_space: "is_b64_char c \<or> c = CHR ''='' \<Longrightarrow> \<not> is_space B c"
    and letters_not_space: "c \<in> set ''Basic'' \<Longrightarrow> \<not> is_space B c"

locale http_fields =
  fixes B :: "'f boost"
  assumes count_set: "field_count B (field_set B f k v) k = 1"
    and at_set: "field_at B (field_set B f k v) k = v"
    and count_set_other: "k' \<noteq> k \<Longrightarrow> field_count B (field_set B f k v) k' = field_count B f k'"
    and at_set_other: "k' \<noteq> k \<Longrightarrow> field_at B (field_set B f k v) k' = field_at B f k'"

text \<open>The laws that the authentication code needs together.\<close>

locale auth_text = base64_codec B + tokenizer B for B :: "'f boost"

locale auth_http = auth_text B + http_fields B for B :: "'f boost"

subsection \<open>An instance: Base64 of RFC 4648\<close>

definition b64_char :: "nat \<Rightarrow> char" where
  "b64_char n =
     char_of (if n < 26 then 65 + n else if n < 52 then 71 + n else if n < 62 then n - 4
              else if n = 62 then 43 else 47 :: nat)"

definition b64_value :: "char \<Rightarrow> nat" where
  "b64_value c =
     (let n = of_char c
      in if 65 \<le> n \<and> n \<le> 90 then n - 65 else if 97 \<le> n \<and> n \<le> 122 then n - 71
         else if 48 \<le> n \<and> n \<le> 57 then n + 4 else if n = 43 then 62 else 63)"

fun sextets :: "nat list \<Rightarrow> nat list" where
  "sextets (a # b # c # r) =
     a div 4 # ((a mod 4) * 16 + b div 16) # ((b mod 16) * 4 + c div 64) # c mod 64 # sextets r"
| "sextets [a, b] = [a div 4, (a mod 4) * 16 + b div 16, (b mod 16) * 4]"
| "sextets [a] = [a div 4, (a mod 4) * 16]"
| "sextets [] = []"

fun octets :: "nat list \<Rightarrow> nat list" where
  "octets (a # b # c # d # r) =
     (a * 4 + b div 16) # ((b mod 16) * 16 + c div 4) # ((c mod 4) * 64 + d) # octets r"
| "octets [a, b, c] = [a * 4 + b div 16, (b mod 16) * 16 + c div 4]"
| "octets [a, b] = [a * 4 + b div 16]"
| "octets _ = []"

definition padding :: "nat \<Rightarrow> string" where
  "padding n = replicate ((3 - n mod 3) mod 3) (CHR ''='')"

definition rfc_encode :: "string \<Rightarrow> string" where
  "rfc_encode s = map b64_char (sextets (map of_char s)) @ padding (length s)"

definition rfc_decode :: "string \<Rightarrow> string \<times> nat" where
  "rfc_decode s =
     (let t = takeWhile is_b64_char s in (map char_of (octets (map b64_value t)), length t))"

function split_merged :: "(char \<Rightarrow> bool) \<Rightarrow> string \<Rightarrow> string \<Rightarrow> string list" where
  "split_merged P t [] = [t]"
| "split_merged P t (c # s) =
     (if P c then t # split_merged P [] (dropWhile P s) else split_merged P (t @ [c]) s)"
  by pat_completeness auto
termination
  by (relation "measure (\<lambda>(P, t, s). length s)") (auto simp: le_imp_less_Suc length_dropWhile_le)

definition assoc_set :: "('k \<times> 'v) list \<Rightarrow> 'k \<Rightarrow> 'v \<Rightarrow> ('k \<times> 'v) list" where
  "assoc_set f k v = (k, v) # filter (\<lambda>(k', v'). k' \<noteq> k) f"

definition rfc_boost :: "(http_field \<times> string) list boost" where
  "rfc_boost =
     \<lparr>encoded_size = (\<lambda>n. 4 * ((n + 2) div 3)), b64_encode = rfc_encode,
      decoded_size = (\<lambda>n. n div 4 * 3), b64_decode = rfc_decode,
      split_compress = (\<lambda>P s. split_merged P [] s),
      is_space = (\<lambda>c. c \<in> set [CHR '' '', CHR 0x09, CHR 0x0A, CHR 0x0B, CHR 0x0C, CHR 0x0D]),
      field_count = (\<lambda>f k. length (filter (\<lambda>(k', v). k' = k) f)),
      field_at = (\<lambda>f k. case map_of f k of Some v \<Rightarrow> v | None \<Rightarrow> []),
      field_set = assoc_set, beast_version = ''Boost.Beast''\<rparr>"

subsection \<open>The instance satisfies the laws\<close>

lemma is_b64_char_b64_char: "n < 64 \<Longrightarrow> is_b64_char (b64_char n)"
  by (auto simp: is_b64_char_def b64_char_def Let_def)

lemma b64_value_b64_char: "n < 64 \<Longrightarrow> b64_value (b64_char n) = n"
  by (auto simp: b64_value_def b64_char_def Let_def)

lemma sextets_bound: "\<forall>x \<in> set xs. x < 256 \<Longrightarrow> \<forall>y \<in> set (sextets xs). y < 64"
  by (induction xs rule: sextets.induct) auto

lemma octets_sextets: "\<forall>x \<in> set xs. x < 256 \<Longrightarrow> octets (sextets xs) = xs"
proof (induction xs rule: sextets.induct)
  case (1 a b c r)
  then have IH: "octets (sextets r) = r" by simp
  have "a div 4 * 4 + a mod 4 = a" "b div 16 * 16 + b mod 16 = b" "c div 64 * 64 + c mod 64 = c"
    by simp_all
  with 1 IH show ?case by auto
qed auto

lemma length_sextets: "length (sextets xs) = 4 * (length xs div 3) + (if length xs mod 3 = 0 then 0 else length xs mod 3 + 1)"
  by (induction xs rule: sextets.induct) (auto simp: mod_Suc div_Suc)

lemma length_octets: "length (octets xs) = 3 * (length xs div 4) + (length xs mod 4 - 1)"
  by (induction xs rule: octets.induct) (auto simp: div_add_self1)

lemma takeWhile_sextets:
  assumes "\<forall>x \<in> set xs. x < 64"
  shows "takeWhile is_b64_char (map b64_char xs @ padding n) = map b64_char xs"
proof -
  have "\<forall>c \<in> set (map b64_char xs). is_b64_char c"
    using assms by (auto intro: is_b64_char_b64_char)
  moreover have "takeWhile is_b64_char (padding n) = []"
    by (auto simp: padding_def takeWhile_eq_Nil_iff is_b64_char_def hd_replicate split: if_splits)
  ultimately show ?thesis by (simp add: takeWhile_append)
qed

lemma rfc_decode_encode: "fst (rfc_decode (rfc_encode s)) = s"
proof -
  let ?xs = "map of_char s :: nat list"
  have bytes: "\<forall>x \<in> set ?xs. x < 256" by auto
  have small: "\<forall>x \<in> set (sextets ?xs). x < 64" using bytes by (rule sextets_bound)
  have "map b64_value (map b64_char (sextets ?xs)) = sextets ?xs"
    using small by (simp add: b64_value_b64_char cong: map_cong)
  then have "map b64_value (takeWhile is_b64_char (rfc_encode s)) = sextets ?xs"
    using takeWhile_sextets [OF small] by (simp add: rfc_encode_def)
  then show ?thesis
    by (simp add: rfc_decode_def Let_def octets_sextets [OF bytes] map_idI)
qed

lemma length_rfc_encode: "length (rfc_encode s) = 4 * ((length s + 2) div 3)"
proof -
  have "4 * (n div 3) + (if n mod 3 = 0 then 0 else n mod 3 + 1) + (3 - n mod 3) mod 3
        = 4 * ((n + 2) div 3)" for n :: nat
  proof -
    have r: "n mod 3 = 0 \<or> n mod 3 = 1 \<or> n mod 3 = 2" by arith
    have z: "n mod 3 = 0 \<Longrightarrow> (n + 2) div 3 = n div 3"
      and o: "n mod 3 = 1 \<Longrightarrow> (n + 2) div 3 = n div 3 + 1"
      and t: "n mod 3 = 2 \<Longrightarrow> (n + 2) div 3 = n div 3 + 1" by presburger+
    from r z o t show ?thesis by auto
  qed
  note arith = this [of "length s"]
  have "length (rfc_encode s) =
        4 * (length s div 3) + (if length s mod 3 = 0 then 0 else length s mod 3 + 1)
          + (3 - length s mod 3) mod 3"
    by (simp add: rfc_encode_def length_sextets padding_def del: mod_Suc div_Suc)
  then show ?thesis using arith by (rule trans)
qed

lemma rfc_encode_chars: "c \<in> set (rfc_encode s) \<Longrightarrow> is_b64_char c \<or> c = CHR ''=''"
  using sextets_bound [of "map of_char s"]
  by (auto simp: rfc_encode_def padding_def intro: is_b64_char_b64_char)

lemma rfc_decode_fits:
  assumes "4 dvd length s"
  shows "length (fst (rfc_decode s)) \<le> length s div 4 * 3"
proof -
  let ?n = "length (takeWhile is_b64_char s)"
  have "?n \<le> length s" by (rule length_takeWhile_le)
  moreover have "3 * (m div 4) + (m mod 4 - 1) \<le> n div 4 * 3" if "m \<le> n" "4 dvd n" for m n :: nat
  proof -
    from that(2) obtain k where k: "n = 4 * k" ..
    with that(1) have "m div 4 < k \<or> m div 4 = k \<and> m mod 4 = 0" by presburger
    moreover have "m mod 4 - 1 \<le> 3" by arith
    ultimately show ?thesis using k by auto
  qed
  ultimately show ?thesis
    using assms by (simp add: rfc_decode_def Let_def length_octets)
qed

lemma split_merged_one: "(\<And>c. c \<in> set s \<Longrightarrow> \<not> P c) \<Longrightarrow> split_merged P t s = [t @ s]"
  by (induction s arbitrary: t) auto

lemma split_merged_more:
  "(\<And>c. c \<in> set t \<Longrightarrow> \<not> P c) \<Longrightarrow> P c \<Longrightarrow>
   split_merged P u (t @ c # s) = (u @ t) # split_merged P [] (dropWhile P s)"
  by (induction t arbitrary: u) auto

lemma filter_assoc_set_other:
  "k' \<noteq> k \<Longrightarrow> filter (\<lambda>(j, w). j = k') (assoc_set f k v) = filter (\<lambda>(j, w). j = k') f"
  by (induction f) (auto simp: assoc_set_def)

lemma map_of_assoc_set_other: "k' \<noteq> k \<Longrightarrow> map_of (assoc_set f k v) k' = map_of f k'"
  by (induction f) (auto simp: assoc_set_def)

interpretation rfc: auth_http rfc_boost
proof (unfold_locales, goal_cases)
  case 1 show ?case by (simp add: rfc_boost_def length_rfc_encode)
next
  case (2 c s) then show ?case by (simp add: rfc_boost_def rfc_encode_chars)
next
  case 3 show ?case by (simp add: rfc_boost_def length_rfc_encode)
next
  case 4 show ?case by (simp add: rfc_boost_def rfc_decode_encode)
next
  case (5 s) then show ?case by (simp add: rfc_boost_def rfc_decode_fits)
next
  case (6 s P) then show ?case by (simp add: rfc_boost_def split_merged_one)
next
  case (7 t P c s) then show ?case by (simp add: rfc_boost_def split_merged_more)
next
  case 8 show ?case by (simp add: rfc_boost_def)
next
  case (9 c) then show ?case by (auto simp: rfc_boost_def is_b64_char_def Let_def)
next
  case (10 c) then show ?case by (auto simp: rfc_boost_def)
next
  case (11 f k v)
  have "filter (\<lambda>(k', v'). k' = k) (filter (\<lambda>(k', v'). k' \<noteq> k) f) = []"
    by (auto simp: filter_empty_conv)
  then show ?case by (simp add: rfc_boost_def assoc_set_def)
next
  case 12 show ?case by (simp add: rfc_boost_def assoc_set_def)
next
  case 13 then show ?case by (simp add: rfc_boost_def filter_assoc_set_other)
next
  case 14 then show ?case by (simp add: rfc_boost_def map_of_assoc_set_other)
qed

end
