(* ===== verification/Http_Wire.thy ===== *)
theory Http_Wire
  imports Boost_Interface
begin

section \<open>Requests on the wire\<close>

text \<open>
  How a request travels: the client's Beast writes it as bytes (\<open>wire\<close>), the server's Beast parses
  bytes (\<open>parse\<close>, the request and the bytes after it, or \<open>None\<close> when there are too few). The law of
  the locale \<open>http_wire\<close> is that of HTTP: a whole request is parsed as what was written, and no part
  of one is taken for a request.

  The law can hold: requests as lists of fields, written with a mark in front of every field and
  every character, are an instance.
\<close>

locale http_wire =
  fixes parse :: "byte list \<Rightarrow> ('f \<times> byte list) option" and wire :: "'f \<Rightarrow> byte list"
  assumes parse_text: "parse (wire r) = Some (r, [])"
    and parse_part: "strict_prefix p (wire r) \<Longrightarrow> parse p = None"
begin

lemma parse_prefix:
  assumes "prefix p (wire r)" and "parse p = Some (r', rest)"
  shows "r' = r" and "rest = []" and "p = wire r"
proof -
  show p: "p = wire r" using assms parse_part [of p r] by (auto simp: strict_prefix_def)
  show "r' = r" and "rest = []" using assms(2) parse_text [of r] by (simp_all add: p)
qed

end

subsection \<open>An instance\<close>

definition string_text :: "string \<Rightarrow> byte list" where
  "string_text s = concat (map (\<lambda>c. [1, of_nat (of_char c)]) s) @ [0]"

fun name_text :: "http_field \<Rightarrow> byte list" where
  "name_text AuthorizationField = [1]"
| "name_text UserAgentField = [2]"
| "name_text ServerField = [3]"
| "name_text (OtherField s) = 4 # string_text s"

fun fields_text :: "(http_field \<times> string) list \<Rightarrow> byte list" where
  "fields_text [] = [0]"
| "fields_text ((k, v) # fs) = 1 # name_text k @ string_text v @ fields_text fs"

fun parse_string :: "byte list \<Rightarrow> (string \<times> byte list) option" where
  "parse_string [] = None"
| "parse_string [b] = (if b = 0 then Some ([], []) else None)"
| "parse_string (b # c # bs) =
     (if b = 0 then Some ([], c # bs)
      else if b = 1 then map_option (apfst ((#) (char_of (unat c)))) (parse_string bs) else None)"

fun parse_name :: "byte list \<Rightarrow> (http_field \<times> byte list) option" where
  "parse_name [] = None"
| "parse_name (b # bs) =
     (if b = 1 then Some (AuthorizationField, bs) else if b = 2 then Some (UserAgentField, bs)
      else if b = 3 then Some (ServerField, bs)
      else if b = 4 then map_option (apfst OtherField) (parse_string bs) else None)"

lemma parse_string_shorter: "parse_string bs = Some (s, r) \<Longrightarrow> length r < length bs"
  by (induction bs arbitrary: s rule: parse_string.induct) (fastforce split: if_splits)+

lemma parse_name_shorter: "parse_name bs = Some (k, r) \<Longrightarrow> length r < length bs"
  by (cases bs) (auto dest: parse_string_shorter split: if_splits)

function parse_fields :: "byte list \<Rightarrow> ((http_field \<times> string) list \<times> byte list) option" where
  "parse_fields [] = None"
| "parse_fields (b # bs) =
     (if b = 0 then Some ([], bs)
      else if b = 1
      then case parse_name bs of
             None \<Rightarrow> None
           | Some (k, cs) \<Rightarrow>
               (case parse_string cs of
                  None \<Rightarrow> None
                | Some (v, ds) \<Rightarrow> map_option (apfst ((#) (k, v))) (parse_fields ds))
      else None)"
  by pat_completeness auto
termination
  by (relation "measure length") (auto dest!: parse_string_shorter parse_name_shorter)

text \<open>Parsing undoes writing, and only what was written is parsed.\<close>

lemma parse_string_text: "parse_string (string_text s @ r) = Some (s, r)"
proof (induction s)
  case Nil
  show ?case by (cases r) (simp_all add: string_text_def)
next
  case (Cons c s)
  then show ?case by (simp add: string_text_def unat_of_nat)
qed

lemma byte_mod: "of_nat (unat c mod 256) = (c :: byte)"
  using unsigned_less [of c, where ?'a = nat] by simp

lemma parse_string_sound: "parse_string bs = Some (s, r) \<Longrightarrow> bs = string_text s @ r"
proof (induction bs arbitrary: s rule: parse_string.induct)
  case (3 b c bs)
  show ?case
  proof (cases "b = 0")
    case False
    with 3(2) obtain s' where "b = 1" "parse_string bs = Some (s', r)" "s = char_of (unat c) # s'"
      by (auto split: if_splits)
    with 3(1) [OF False] show ?thesis by (simp add: string_text_def byte_mod)
  qed (use 3(2) in \<open>simp add: string_text_def\<close>)
qed (simp_all add: string_text_def split: if_splits)

lemma parse_name_text: "parse_name (name_text k @ r) = Some (k, r)"
  by (cases k) (simp_all add: parse_string_text)

lemma parse_name_sound: "parse_name bs = Some (k, r) \<Longrightarrow> bs = name_text k @ r"
  by (cases bs) (auto dest: parse_string_sound split: if_splits)

lemma parse_fields_text: "parse_fields (fields_text fs @ r) = Some (fs, r)"
  by (induction fs rule: fields_text.induct) (simp_all add: parse_name_text parse_string_text)

lemma parse_fields_sound: "parse_fields bs = Some (fs, r) \<Longrightarrow> bs = fields_text fs @ r"
  by (induction bs arbitrary: fs rule: parse_fields.induct)
     (auto dest!: parse_name_sound parse_string_sound split: if_splits option.splits)

interpretation fields_wire: http_wire parse_fields fields_text
proof
  show whole: "parse_fields (fields_text r) = Some (r, [])" for r
    using parse_fields_text [of r "[]"] by simp
  show "parse_fields p = None" if part: "strict_prefix p (fields_text r)" for p r
  proof (rule ccontr)
    assume "parse_fields p \<noteq> None"
    then obtain r' rest where "parse_fields p = Some (r', rest)" by auto
    then have p: "p = fields_text r' @ rest" by (rule parse_fields_sound)
    obtain q where q: "fields_text r = p @ q" "q \<noteq> []"
      using part by (auto simp: strict_prefix_def prefix_def)
    have "parse_fields (fields_text r) = Some (r', rest @ q)"
      using parse_fields_text [of r' "rest @ q"] by (simp add: q(1) p)
    with whole [of r] q(2) show False by simp
  qed
qed

end
