(* ===== verification/Authentication.thy ===== *)
theory Authentication
  imports Boost_Interface
begin

section \<open>Base64 wrappers and the authentication object\<close>

text \<open>
  \<open>src/utils/base64.cpp\<close> and \<open>src/authentication.cpp\<close>. A result \<open>None\<close> is undefined behaviour
  (a write past the end of a buffer), \<open>Some (Inl x)\<close> a thrown exception.

  The wrappers of Base64 size a buffer, let Beast write into it and cut the buffer to the size
  that was reported; \<open>buffer_write\<close> is the write into the buffer and is undefined when it does
  not fit. The lemmas show when it fits, that the cut buffer is what was written, what parsing
  a generated header gives back for any user name and password (\<open>carried\<close>), namely the credentials
  themselves exactly if neither contains a colon, and which headers are rejected.
\<close>

subsection \<open>Strings and buffers\<close>

text \<open>\<open>std::string::resize\<close>: cuts, or pads with null characters.\<close>

definition resize_string :: "nat \<Rightarrow> string \<Rightarrow> string" where
  "resize_string n s = take n s @ replicate (n - length s) (CHR 0x00)"

text \<open>A library call writes \<open>w\<close> from the start of the buffer \<open>buf\<close>.\<close>

definition buffer_write :: "string \<Rightarrow> string \<Rightarrow> string option" where
  "buffer_write buf w = (if length w \<le> length buf then Some (w @ drop (length w) buf) else None)"

lemma length_resize_string [simp]: "length (resize_string n s) = n"
  by (simp add: resize_string_def)

lemma resize_after_write:
  "buffer_write (resize_string n []) w = Some buf \<Longrightarrow> resize_string (length w) buf = w"
  by (auto simp: buffer_write_def resize_string_def split: if_splits)

lemma buffer_write_None_iff: "buffer_write buf w = None \<longleftrightarrow> length buf < length w"
  by (auto simp: buffer_write_def)

subsection \<open>Base64\<close>

definition Base64_encode :: "'f boost \<Rightarrow> string \<Rightarrow> string option" where
  "Base64_encode B input =
     (let maxSize = encoded_size B (length input);
          buffer = resize_string maxSize [];
          written = b64_encode B input
      in case buffer_write buffer written of
           None \<Rightarrow> None
         | Some buffer' \<Rightarrow> Some (resize_string (length written) buffer'))"

definition Base64_decode :: "'f boost \<Rightarrow> string \<Rightarrow> string option" where
  "Base64_decode B input =
     (let maxSize = decoded_size B (length input);
          buffer = resize_string maxSize [];
          (written, _) = b64_decode B input
      in case buffer_write buffer written of
           None \<Rightarrow> None
         | Some buffer' \<Rightarrow> Some (resize_string (length written) buffer'))"

lemma Base64_encode_eq:
  "Base64_encode B s =
     (if length (b64_encode B s) \<le> encoded_size B (length s) then Some (b64_encode B s) else None)"
  by (auto simp: Base64_encode_def Let_def buffer_write_None_iff resize_after_write
      split: option.splits)
     (auto simp: buffer_write_def split: if_splits)

lemma Base64_decode_eq:
  "Base64_decode B s =
     (if length (fst (b64_decode B s)) \<le> decoded_size B (length s)
      then Some (fst (b64_decode B s)) else None)"
  by (auto simp: Base64_decode_def Let_def buffer_write_None_iff resize_after_write
      split: option.splits prod.splits)
     (auto simp: buffer_write_def split: if_splits)

subsection \<open>The authentication object\<close>

datatype AuthenticationType = Anonymous | Basic

record authentication =
  auth_type :: AuthenticationType
  username :: string
  password :: string

definition Authentication_default :: authentication where
  "Authentication_default = \<lparr>auth_type = Anonymous, username = [], password = []\<rparr>"

definition Authentication_basic :: "string \<Rightarrow> string \<Rightarrow> authentication" where
  "Authentication_basic u p = \<lparr>auth_type = Basic, username = u, password = p\<rparr>"

definition fromHeader :: "'f boost \<Rightarrow> string \<Rightarrow> (exn + authentication) option" where
  "fromHeader B header =
     (let headerParts = split_compress B (is_space B) header
      in if 2 \<le> length headerParts
         then (let authType = headerParts ! 0
               in case Base64_decode B (headerParts ! 1) of
                    None \<Rightarrow> None
                  | Some plain \<Rightarrow>
                      if authType = ''Basic''
                      then (let authParts = split_compress B (\<lambda>c. c = CHR '':'') plain
                            in if length authParts < 2
                               then Some (Inl (RuntimeError ''Invalid basic authorization header''))
                               else Some (Inr (Authentication_basic (authParts ! 0) (authParts ! 1))))
                      else Some (Inl (RuntimeError ''Invalid authorization header'')))
         else Some (Inl (RuntimeError ''Invalid authorization header'')))"

definition getType :: "authentication \<Rightarrow> AuthenticationType" where
  "getType a = auth_type a"

definition getUsername :: "authentication \<Rightarrow> string" where
  "getUsername a = username a"

definition getPassword :: "authentication \<Rightarrow> string" where
  "getPassword a = password a"

fun getEncodedHeader :: "'f boost \<Rightarrow> authentication \<Rightarrow> string option" where
  "getEncodedHeader B a =
     (case auth_type a of
        Basic \<Rightarrow> map_option (\<lambda>e. ''Basic '' @ e) (Base64_encode B (username a @ '':'' @ password a))
      | Anonymous \<Rightarrow> Some [])"

declare getEncodedHeader.simps [simp del]

lemmas authentication_ops =
  Authentication_default_def Authentication_basic_def getType_def getUsername_def getPassword_def

subsection \<open>Parsing a generated header\<close>

text \<open>What a header carries of the credentials it was generated from: user name and password go into it
  as one text with a colon between them, and come out as what is before its first colon, and what is
  between that run of colons and the next one. Anonymous credentials have no header.\<close>

definition carried :: "authentication \<Rightarrow> authentication" where
  "carried a =
     (case auth_type a of
        Anonymous \<Rightarrow> Authentication_default
      | Basic \<Rightarrow>
          (let s = username a @ '':'' @ password a;
               rest = dropWhile (\<lambda>c. c = CHR '':'') (dropWhile (\<lambda>c. c \<noteq> CHR '':'') s)
           in Authentication_basic (takeWhile (\<lambda>c. c \<noteq> CHR '':'') s) (takeWhile (\<lambda>c. c \<noteq> CHR '':'') rest)))"

lemma until_colon:
  assumes "CHR '':'' \<notin> set t"
  shows "takeWhile (\<lambda>c. c \<noteq> CHR '':'') (t @ CHR '':'' # r) = t"
    and "dropWhile (\<lambda>c. c \<noteq> CHR '':'') (t @ CHR '':'' # r) = CHR '':'' # r"
    and "takeWhile (\<lambda>c. c \<noteq> CHR '':'') t = t" and "dropWhile (\<lambda>c. c = CHR '':'') t = t"
proof -
  have clean: "\<forall>c \<in> set t. c \<noteq> CHR '':''" using assms by blast
  then show "takeWhile (\<lambda>c. c \<noteq> CHR '':'') (t @ CHR '':'' # r) = t"
    and "dropWhile (\<lambda>c. c \<noteq> CHR '':'') (t @ CHR '':'' # r) = CHR '':'' # r"
    by (simp_all add: takeWhile_append dropWhile_append)
  show "takeWhile (\<lambda>c. c \<noteq> CHR '':'') t = t" using clean by (simp add: takeWhile_eq_all_conv)
  show "dropWhile (\<lambda>c. c = CHR '':'') t = t" using clean by (cases t) simp_all
qed

lemma carried_default [simp]: "carried Authentication_default = Authentication_default"
  by (simp add: carried_def Authentication_default_def)

lemma carried_clean_user:
  assumes "CHR '':'' \<notin> set u"
  shows "carried (Authentication_basic u p) =
     Authentication_basic u (takeWhile (\<lambda>c. c \<noteq> CHR '':'') (dropWhile (\<lambda>c. c = CHR '':'') p))"
  by (simp add: carried_def Authentication_basic_def until_colon [OF assms])

lemma carried_basic_iff:
  "carried (Authentication_basic u p) = Authentication_basic u p \<longleftrightarrow> CHR '':'' \<notin> set u \<and> CHR '':'' \<notin> set p"
proof
  assume carried: "carried (Authentication_basic u p) = Authentication_basic u p"
  have clean: "CHR '':'' \<notin> set (takeWhile (\<lambda>c. c \<noteq> CHR '':'') s)" for s by (auto dest: set_takeWhileD)
  from carried have "takeWhile (\<lambda>c. c \<noteq> CHR '':'') (u @ '':'' @ p) = u" and
    "takeWhile (\<lambda>c. c \<noteq> CHR '':'')
       (dropWhile (\<lambda>c. c = CHR '':'') (dropWhile (\<lambda>c. c \<noteq> CHR '':'') (u @ '':'' @ p))) = p"
    by (simp_all add: carried_def Authentication_basic_def Let_def)
  then show "CHR '':'' \<notin> set u \<and> CHR '':'' \<notin> set p" using clean by metis
next
  assume "CHR '':'' \<notin> set u \<and> CHR '':'' \<notin> set p"
  then show "carried (Authentication_basic u p) = Authentication_basic u p"
    by (simp add: carried_clean_user until_colon)
qed

text \<open>Everything a header parser sees of a generated header, under the laws of Boost.\<close>

context base64_codec
begin

lemma Base64_encode_total: "Base64_encode B s = Some (b64_encode B s)"
  by (simp add: Base64_encode_eq encode_fits)

lemma Base64_decode_of_encoded: "Base64_decode B (b64_encode B s) = Some s"
  using decode_fits [OF encode_quads [of s]] by (simp add: Base64_decode_eq decode_encode)

lemma wrappers_roundtrip: "Option.bind (Base64_encode B s) (Base64_decode B) = Some s"
  by (simp add: Base64_encode_total Base64_decode_of_encoded)

end

context auth_text
begin

lemma encoded_header:
  "getEncodedHeader B (Authentication_basic u p) = Some (''Basic '' @ b64_encode B (u @ '':'' @ p))"
  by (simp add: getEncodedHeader.simps Base64_encode_total Authentication_basic_def)

lemma split_encoded_header:
  "split_compress B (is_space B) (''Basic'' @ CHR '' '' # b64_encode B s) = [''Basic'', b64_encode B s]"
proof -
  let ?e = "b64_encode B s"
  have nospace: "\<And>c. c \<in> set ?e \<Longrightarrow> \<not> is_space B c"
    using encode_chars b64_not_space by blast
  then have "dropWhile (is_space B) ?e = ?e"
    by (cases ?e) auto
  moreover have "split_compress B (is_space B) ?e = [?e]"
    using nospace by (rule split_one)
  ultimately show ?thesis
    using split_more [of "''Basic''" "is_space B", OF letters_not_space space_is_space, of ?e]
    by (simp only:)
qed

lemma basic_letters: "\<forall>c \<in> set ''Basic''. \<not> is_space B c"
  using letters_not_space by blast

lemma fromHeader_encoded:
  "fromHeader B (''Basic '' @ b64_encode B plain) =
     (let authParts = split_compress B (\<lambda>c. c = CHR '':'') plain
      in if length authParts < 2 then Some (Inl (RuntimeError ''Invalid basic authorization header''))
         else Some (Inr (Authentication_basic (authParts ! 0) (authParts ! 1))))"
  using split_encoded_header [of plain]
  by (simp add: fromHeader_def Base64_decode_of_encoded Let_def)

lemma split_colon:
  "CHR '':'' \<notin> set t \<Longrightarrow>
   split_compress B (\<lambda>c. c = CHR '':'') (t @ CHR '':'' # s) =
     t # split_compress B (\<lambda>c. c = CHR '':'') (dropWhile (\<lambda>c. c = CHR '':'') s)"
  by (rule split_more) auto

lemma split_no_colon: "CHR '':'' \<notin> set t \<Longrightarrow> split_compress B (\<lambda>c. c = CHR '':'') t = [t]"
  by (rule split_one) auto

lemma split_nonempty: "split_compress B P s \<noteq> []"
proof (cases "\<exists>c \<in> set s. P c")
  case True
  then obtain t c r where "s = t @ c # r" "P c" "\<forall>x \<in> set t. \<not> P x"
    using split_list_first_prop [OF True] by blast
  then show ?thesis using split_more [of t P c r] by simp
next
  case False
  then show ?thesis using split_one [of s P] by simp
qed

lemma split_tokens_clean:
  "t \<in> set (split_compress B P s) \<Longrightarrow> c \<in> set t \<Longrightarrow> \<not> P c"
proof (induction s rule: length_induct)
  case (1 s)
  show ?case
  proof (cases "\<exists>c \<in> set s. P c")
    case True
    then obtain u d r where s: "s = u @ d # r" and d: "P d" and u: "\<forall>x \<in> set u. \<not> P x"
      using split_list_first_prop [OF True] by blast
    have "split_compress B P s = u # split_compress B P (dropWhile P r)"
      using split_more [of u P d r] u d s by simp
    moreover have "length (dropWhile P r) < length s"
      using s length_dropWhile_le [of P r] by simp
    ultimately show ?thesis using 1 u by auto
  next
    case False
    then show ?thesis using 1 split_one [of s P] by auto
  qed
qed

lemma split_colon_hd: "split_compress B (\<lambda>c. c = CHR '':'') t ! 0 = takeWhile (\<lambda>c. c \<noteq> CHR '':'') t"
proof (cases "CHR '':'' \<in> set t")
  case True
  then obtain u r where "t = u @ CHR '':'' # r" and "CHR '':'' \<notin> set u" by (meson split_list_first)
  then show ?thesis by (simp add: split_colon until_colon)
qed (simp add: split_no_colon until_colon)

lemma header_carries: "Option.bind (getEncodedHeader B (Authentication_basic u p)) (fromHeader B)
   = Some (Inr (carried (Authentication_basic u p)))"
proof -
  let ?colon = "\<lambda>c. c = CHR '':''" and ?s = "u @ '':'' @ p"
  obtain t r where s: "?s = t @ CHR '':'' # r" and t: "CHR '':'' \<notin> set t"
    using split_list_first [of "CHR '':''" ?s] by auto
  have "takeWhile (\<lambda>c. c \<noteq> CHR '':'') ?s = t" "dropWhile (\<lambda>c. c \<noteq> CHR '':'') ?s = CHR '':'' # r"
    unfolding s by (rule until_colon [OF t])+
  then have carried: "carried (Authentication_basic u p) =
      Authentication_basic t (takeWhile (\<lambda>c. c \<noteq> CHR '':'') (dropWhile ?colon r))"
    by (simp add: carried_def Authentication_basic_def)
  have "split_compress B ?colon ?s = t # split_compress B ?colon (dropWhile ?colon r)"
    unfolding s by (rule split_colon [OF t])
  moreover have "split_compress B ?colon (dropWhile ?colon r) \<noteq> []" by (rule split_nonempty)
  ultimately have "fromHeader B (''Basic '' @ b64_encode B ?s) = Some (Inr (carried (Authentication_basic u p)))"
    unfolding fromHeader_encoded by (auto simp: carried split_colon_hd Let_def Suc_le_eq not_less)
  then show ?thesis by (simp add: encoded_header)
qed

lemma header_roundtrip:
  assumes "CHR '':'' \<notin> set u" and "CHR '':'' \<notin> set p"
  shows "Option.bind (getEncodedHeader B (Authentication_basic u p)) (fromHeader B)
           = Some (Inr (Authentication_basic u p))"
  using assms carried_basic_iff [of u p] by (simp add: header_carries)

lemma split_two_words:
  assumes "\<forall>c \<in> set a. \<not> is_space B c" and "\<forall>c \<in> set b. \<not> is_space B c"
  shows "split_compress B (is_space B) (a @ CHR '' '' # b) = [a, b]"
proof -
  have "dropWhile (is_space B) b = b" using assms(2) by (cases b) auto
  moreover have "split_compress B (is_space B) b = [b]" using assms(2) by (auto intro: split_one)
  ultimately show ?thesis using assms(1) space_is_space by (simp add: split_more)
qed

lemma header_accepted_iff:
  assumes "\<forall>c \<in> set payload. \<not> is_space B c"
  shows "(\<exists>a. fromHeader B (''Basic '' @ payload) = Some (Inr a)) \<longleftrightarrow>
     (\<exists>plain. Base64_decode B payload = Some plain \<and> CHR '':'' \<in> set plain)"
proof (cases "Base64_decode B payload")
  case None
  then show ?thesis using split_two_words [OF basic_letters assms] by (simp add: fromHeader_def Let_def)
next
  case (Some plain)
  have header: "fromHeader B (''Basic '' @ payload) =
     (let authParts = split_compress B (\<lambda>c. c = CHR '':'') plain
      in if length authParts < 2 then Some (Inl (RuntimeError ''Invalid basic authorization header''))
         else Some (Inr (Authentication_basic (authParts ! 0) (authParts ! 1))))"
    using split_two_words [OF basic_letters assms] Some by (simp add: fromHeader_def Let_def)
  show ?thesis
  proof (cases "CHR '':'' \<in> set plain")
    case True
    then obtain t r where "plain = t @ CHR '':'' # r" and "CHR '':'' \<notin> set t" by (meson split_list_first)
    moreover have "split_compress B (\<lambda>c. c = CHR '':'') (dropWhile (\<lambda>c. c = CHR '':'') r) \<noteq> []" by (rule split_nonempty)
    ultimately show ?thesis unfolding header by (auto simp: Some split_colon Let_def Suc_le_eq not_less)
  next
    case False
    then show ?thesis unfolding header by (simp add: Some split_no_colon Let_def)
  qed
qed

lemma accepted_credentials:
  assumes "fromHeader B h = Some (Inr a)"
  shows "\<exists>u p. a = Authentication_basic u p \<and> CHR '':'' \<notin> set u \<and> CHR '':'' \<notin> set p"
proof -
  let ?colon = "\<lambda>c. c = CHR '':''"
  from assms obtain plain where two: "\<not> length (split_compress B ?colon plain) < 2"
    and a: "a = Authentication_basic (split_compress B ?colon plain ! 0) (split_compress B ?colon plain ! 1)"
    by (auto simp: fromHeader_def Let_def split: if_splits option.splits)
  from two have "split_compress B ?colon plain ! 0 \<in> set (split_compress B ?colon plain)"
    and "split_compress B ?colon plain ! 1 \<in> set (split_compress B ?colon plain)"
    by (auto intro!: nth_mem)
  then show ?thesis using a split_tokens_clean by blast
qed

end

subsection \<open>Properties\<close>

text \<open>C31: A header generated from a user name and a password without colons is parsed back to
  exactly those credentials.\<close>

theorem auth_header_roundtrip:
  assumes "auth_text B" and "CHR '':'' \<notin> set u" and "CHR '':'' \<notin> set p"
  shows "Option.bind (getEncodedHeader B (Authentication_basic u p)) (fromHeader B)
           = Some (Inr (Authentication_basic u p))"
  using assms by (rule auth_text.header_roundtrip)

theorem auth_header_roundtrip_witness:
  "getEncodedHeader rfc_boost (Authentication_basic ''jure'' ''jure123'')
     = Some ''Basic anVyZTpqdXJlMTIz''
   \<and> Option.bind (getEncodedHeader rfc_boost (Authentication_basic ''jure'' ''jure123''))
        (fromHeader rfc_boost) = Some (Inr (Authentication_basic ''jure'' ''jure123''))"
proof
  show "getEncodedHeader rfc_boost (Authentication_basic ''jure'' ''jure123'')
          = Some ''Basic anVyZTpqdXJlMTIz''" by code_simp
  show "Option.bind (getEncodedHeader rfc_boost (Authentication_basic ''jure'' ''jure123''))
          (fromHeader rfc_boost) = Some (Inr (Authentication_basic ''jure'' ''jure123''))"
    by (rule auth_header_roundtrip [OF rfc.auth_text_axioms]) simp_all
qed

text \<open>C38: The header generated for any user name and password is accepted again, but RFC 7617 colons are
  lost: it gives the text before the first colon of \<open>user:password\<close> and the text between that run of
  colons and the next colon. So a password with colons after a user name without any comes back
  without its leading colons and cut at its next one, and the credentials come back as they were
  exactly if neither of the two contains a colon.\<close>

theorem auth_header_truncates_password:
  assumes "auth_text B"
  shows "Option.bind (getEncodedHeader B (Authentication_basic u p)) (fromHeader B)
           = Some (Inr (carried (Authentication_basic u p))) \<and>
     (CHR '':'' \<notin> set u \<longrightarrow> carried (Authentication_basic u p) =
        Authentication_basic u (takeWhile (\<lambda>c. c \<noteq> CHR '':'') (dropWhile (\<lambda>c. c = CHR '':'') p))) \<and>
     (carried (Authentication_basic u p) = Authentication_basic u p \<longleftrightarrow> CHR '':'' \<notin> set u \<and> CHR '':'' \<notin> set p)"
  using auth_text.header_carries [OF assms, of u p] carried_clean_user [of u p] carried_basic_iff [of u p] by blast

theorem auth_header_truncates_password_witness:
  "Option.bind (getEncodedHeader rfc_boost (Authentication_basic ''jure'' ''::top:secret'')) (fromHeader rfc_boost) =
     Some (Inr (Authentication_basic ''jure'' ''top''))"
  using auth_header_truncates_password [OF rfc.auth_text_axioms, of "''jure''" "''::top:secret''"] by simp

text \<open>C32: Whatever header is accepted, the credentials it yields are of type Basic and are stable:
  generating their header and parsing it yields the same credentials again.\<close>

theorem accepted_header_normal_form:
  assumes "auth_text B" and "fromHeader B h = Some (Inr a)"
  shows "getType a = Basic \<and> Option.bind (getEncodedHeader B a) (fromHeader B) = Some (Inr a)"
proof -
  from auth_text.accepted_credentials [OF assms] obtain u p where
    a: "a = Authentication_basic u p" and "CHR '':'' \<notin> set u" and "CHR '':'' \<notin> set p"
    by blast
  then show ?thesis
    using auth_text.header_roundtrip [OF assms(1), of u p] by (simp add: authentication_ops)
qed

theorem accepted_header_normal_form_witness:
  "getType (Authentication_basic ''a'' ''b'') = Basic
   \<and> Option.bind (getEncodedHeader rfc_boost (Authentication_basic ''a'' ''b'')) (fromHeader rfc_boost)
       = Some (Inr (Authentication_basic ''a'' ''b''))"
proof (rule accepted_header_normal_form [OF rfc.auth_text_axioms])
  show "fromHeader rfc_boost ''Basic   YTo6Yjpj zzz'' = Some (Inr (Authentication_basic ''a'' ''b''))"
    by code_simp
qed

text \<open>C33: A Basic header, of any payload without white space, canonical or not, is accepted exactly when the
  payload can be decoded into the buffer that was sized for it and what it decodes to contains a colon.\<close>

theorem basic_header_accepted_iff:
  assumes "auth_text B" and "\<forall>c \<in> set payload. \<not> is_space B c"
  shows "(\<exists>a. fromHeader B (''Basic '' @ payload) = Some (Inr a)) =
     (\<exists>plain. Base64_decode B payload = Some plain \<and> CHR '':'' \<in> set plain)"
  using assms by (rule auth_text.header_accepted_iff)

text \<open>A user name and no colon; and what is no encoding: bytes after the padding, which the decoder
  ignores.\<close>

theorem basic_header_accepted_iff_witness:
  "(\<nexists>a. fromHeader rfc_boost (''Basic '' @ ''dXNlcm5hbWU='') = Some (Inr a)) \<and>
   (\<exists>a. fromHeader rfc_boost (''Basic '' @ ''YTpi====?'') = Some (Inr a))"
proof -
  have "Base64_decode rfc_boost ''dXNlcm5hbWU='' = Some ''username''" "Base64_decode rfc_boost ''YTpi====?'' = Some ''a:b''"
    by code_simp+
  then show ?thesis
    using basic_header_accepted_iff [OF rfc.auth_text_axioms, of "''dXNlcm5hbWU=''"]
      basic_header_accepted_iff [OF rfc.auth_text_axioms, of "''YTpi====?''"] by (simp add: rfc_boost_def)
qed

text \<open>The Base64 wrappers are inverse to each other and never write past their buffers on
  text the library encoded itself.\<close>

theorem base64_roundtrip:
  assumes "base64_codec B"
  shows "Option.bind (Base64_encode B s) (Base64_decode B) = Some s"
  using assms by (rule base64_codec.wrappers_roundtrip)

theorem base64_roundtrip_witness:
  "Option.bind (Base64_encode rfc_boost ''hakuna matata'') (Base64_decode rfc_boost) = Some ''hakuna matata''
   \<and> Base64_encode rfc_boost ''hakuna matata'' = Some ''aGFrdW5hIG1hdGF0YQ==''"
proof
  show "Option.bind (Base64_encode rfc_boost ''hakuna matata'') (Base64_decode rfc_boost)
          = Some ''hakuna matata''"
    by (rule base64_roundtrip [OF rfc.base64_codec_axioms])
  show "Base64_encode rfc_boost ''hakuna matata'' = Some ''aGFrdW5hIG1hdGF0YQ==''"
    by code_simp
qed

text \<open>C39: Decoding is memory safe exactly when Beast writes no more than \<open>decoded_size\<close> bytes; a
  header whose second word decodes to more overflows the buffer, whatever its scheme is (the
  payload is decoded before the scheme is looked at).\<close>

theorem oversized_payload_overflows:
  assumes "auth_text B" and "\<forall>c \<in> set scheme. \<not> is_space B c" and "\<forall>c \<in> set s. \<not> is_space B c"
  shows "(fromHeader B (scheme @ '' '' @ s) = None)
           = (decoded_size B (length s) < length (fst (b64_decode B s)))"
  using auth_text.split_two_words [OF assms]
  by (auto simp: fromHeader_def Let_def Base64_decode_eq)

theorem oversized_payload_overflows_witness:
  "(fromHeader rfc_boost (''Bearer'' @ '' '' @ ''QUI'') = None)
     = (decoded_size rfc_boost (length ''QUI'') < length (fst (b64_decode rfc_boost ''QUI'')))
   \<and> decoded_size rfc_boost (length ''QUI'') < length (fst (b64_decode rfc_boost ''QUI''))"
proof
  show "(fromHeader rfc_boost (''Bearer'' @ '' '' @ ''QUI'') = None)
     = (decoded_size rfc_boost (length ''QUI'') < length (fst (b64_decode rfc_boost ''QUI'')))"
    by (rule oversized_payload_overflows [OF rfc.auth_text_axioms]) (simp_all add: rfc_boost_def)
  show "decoded_size rfc_boost (length ''QUI'') < length (fst (b64_decode rfc_boost ''QUI''))"
    by code_simp
qed

end
