(* ===== verification/Client.thy ===== *)
theory Client
  imports Authentication Session
begin

section \<open>Client\<close>

text \<open>
  \<open>src/client.cpp\<close>. A client resolves the server's name, connects, does the websocket handshake
  and hands the user a session; a timer limits the time of the whole attempt. Every phase is an
  asynchronous operation whose handler starts the next one or reports a failure.

  \<open>cl_stream\<close> is the member \<open>websocketStream\<close>: streams are numbers, \<open>cl_streams\<close> holds the settings
  of those made so far. Completion handlers hold the client by a weak pointer: \<open>cl_exists\<close> says
  whether it can be locked. A resolve is known by host and port, a connect by its stream, a
  handshake by its stream and the request it sends. The request that Beast builds before the
  decorator runs is the parameter \<open>upgrade\<close>; which endpoints a connect tries is left to the
  environment. \<open>remote\<close> is what \<open>remote_endpoint()\<close> gives: an exception or address and port.
\<close>

subsection \<open>State\<close>

record ws_settings =
  write_buffer_bytes :: nat
  read_message_max :: nat

record 'f handshake =
  hs_stream :: nat
  hs_host :: string
  hs_target :: string
  hs_request :: 'f

datatype ('c, 'x) client_effect =
    NewSession 'c nat 'x
  | ResolveFailed 'c error_code
  | ConnectFailed 'c error_code
  | HandshakeFailed 'c error_code
  | EndpointUnavailable

record ('c, 'f, 'x) client =
  cl_host :: string
  cl_port :: string
  cl_path :: string
  cl_authentication :: authentication
  cl_stream :: "nat option"
  cl_onNewSession :: "'c callback"
  cl_onResolveFail :: "'c callback"
  cl_onConnectFail :: "'c callback"
  cl_onHandshakeFail :: "'c callback"
  cl_exists :: bool
  cl_streams :: "ws_settings list"
  cl_timers :: "nat ops"
  cl_resolves :: "(string \<times> string) ops"
  cl_connects :: "nat ops"
  cl_handshakes :: "'f handshake ops"
  cl_trace :: "('c, 'x) client_effect list"

definition client_emit :: "('c, 'x) client_effect \<Rightarrow> ('c, 'f, 'x) client \<Rightarrow> ('c, 'f, 'x) client" where
  "client_emit e c = c\<lparr>cl_trace := cl_trace c @ [e]\<rparr>"

definition new_Client ::
  "string \<Rightarrow> string \<Rightarrow> string \<Rightarrow> authentication \<Rightarrow> 'c callback \<Rightarrow> 'c callback \<Rightarrow> 'c callback \<Rightarrow> 'c callback \<Rightarrow>
   ('c, 'f, 'x) client" where
  "new_Client host port path auth onNewSessionCallback onResolveFailCallback onConnectFailCallback onHandshakeFailCallback =
     \<lparr>cl_host = host, cl_port = port, cl_path = path, cl_authentication = auth, cl_stream = None,
      cl_onNewSession = onNewSessionCallback, cl_onResolveFail = onResolveFailCallback,
      cl_onConnectFail = onConnectFailCallback, cl_onHandshakeFail = onHandshakeFailCallback,
      cl_exists = True, cl_streams = [], cl_timers = [], cl_resolves = [], cl_connects = [],
      cl_handshakes = [], cl_trace = []\<rparr>"

definition cancel_timer :: "('c, 'f, 'x) client \<Rightarrow> ('c, 'f, 'x) client" where
  "cancel_timer c = c\<lparr>cl_timers := cancel_ops (\<lambda>k. True) (cl_timers c)\<rparr>"

text \<open>Cancelling the socket of a stream cancels what is outstanding on it.\<close>

definition cancel_stream :: "nat \<Rightarrow> ('c, 'f, 'x) client \<Rightarrow> ('c, 'f, 'x) client" where
  "cancel_stream k c =
     c\<lparr>cl_connects := cancel_ops (\<lambda>j. j = k) (cl_connects c),
       cl_handshakes := cancel_ops (\<lambda>h. hs_stream h = k) (cl_handshakes c)\<rparr>"

text \<open>The destructor cancels the timer; destroying the resolver cancels its operations.\<close>

definition destroy_Client :: "('c, 'f, 'x) client \<Rightarrow> ('c, 'f, 'x) client" where
  "destroy_Client c =
     (cancel_timer c)\<lparr>cl_resolves := cancel_ops (\<lambda>k. True) (cl_resolves c), cl_stream := None, cl_exists := False\<rparr>"

subsection \<open>Connecting\<close>

definition connect :: "nat \<Rightarrow> nat \<Rightarrow> ('c, 'f, 'x) client \<Rightarrow> ('c, 'f, 'x) client" where
  "connect now timeout c =
     (let c1 = cancel_timer c;
          c2 = cancel_timer c1;
          c3 = c2\<lparr>cl_timers := start_op (now + timeout) (cl_timers c2)\<rparr>
      in c3\<lparr>cl_resolves := start_op (cl_host c3, cl_port c3) (cl_resolves c3)\<rparr>)"

definition onConnectionTimeout :: "error_code \<Rightarrow> ('c, 'f, 'x) client \<Rightarrow> ('c, 'f, 'x) client" where
  "onConnectionTimeout ec c =
     (if failed ec then c
      else let c1 = c\<lparr>cl_resolves := cancel_ops (\<lambda>k. True) (cl_resolves c)\<rparr>;
               c2 = (case cl_stream c1 of Some k \<Rightarrow> cancel_stream k c1 | None \<Rightarrow> c1)
           in c2\<lparr>cl_stream := None\<rparr>)"

definition onResolve :: "error_code \<Rightarrow> ('c, 'f, 'x) client \<Rightarrow> ('c, 'f, 'x) client outcome" where
  "onResolve ec c =
     (if failed ec
      then invoke (cl_onResolveFail c) (\<lambda>cb. client_emit (ResolveFailed cb ec)) (cancel_timer c)
      else let k = length (cl_streams c);
               wsStream = \<lparr>write_buffer_bytes = 65536, read_message_max = 0x10000000\<rparr>
           in Done (c\<lparr>cl_streams := cl_streams c @ [wsStream], cl_stream := Some k,
                      cl_connects := start_op k (cl_connects c)\<rparr>))"

text \<open>The decorator of the handshake request.\<close>

definition decorator :: "'f boost \<Rightarrow> authentication \<Rightarrow> 'f \<Rightarrow> 'f option" where
  "decorator B auth req =
     (let req1 = field_set B req UserAgentField (beast_version B @ '' openDAQ-streaming-client'')
      in if getType auth \<noteq> Anonymous
         then map_option (\<lambda>header. field_set B req1 AuthorizationField header) (getEncodedHeader B auth)
         else Some req1)"

text \<open>\<open>boost_compatibility_utils::async_handshake\<close> starts the handshake of a stream.\<close>

definition async_handshake ::
  "nat \<Rightarrow> string \<Rightarrow> string \<Rightarrow> 'f \<Rightarrow> 'f handshake ops \<Rightarrow> 'f handshake ops" where
  "async_handshake stream host target request ops =
     start_op \<lparr>hs_stream = stream, hs_host = host, hs_target = target, hs_request = request\<rparr> ops"

declare async_handshake_def [simp]

definition onConnect ::
  "'f boost \<Rightarrow> (string \<Rightarrow> string \<Rightarrow> 'f) \<Rightarrow> error_code \<Rightarrow> nat \<Rightarrow> ('c, 'f, 'x) client \<Rightarrow> ('c, 'f, 'x) client outcome" where
  "onConnect B upgrade ec wsStream c =
     (if failed ec
      then invoke (cl_onConnectFail c) (\<lambda>cb. client_emit (ConnectFailed cb ec)) (cancel_timer c)
      else case decorator B (cl_authentication c) (upgrade (cl_host c) (cl_path c)) of
             None \<Rightarrow> Undefined
           | Some req \<Rightarrow>
               Done (c\<lparr>cl_handshakes := async_handshake wsStream (cl_host c) (cl_path c) req (cl_handshakes c)\<rparr>))"

definition createSession_c ::
  "(role_type \<Rightarrow> ws_timeout) \<Rightarrow> 'u \<Rightarrow> string \<Rightarrow> 16 word \<Rightarrow> ('c, 'f, 'x) client \<Rightarrow>
   ('ctx, 'h, 'w, 'd, 'u) session \<times> ('c, 'f, 'x) client" where
  "createSession_c suggested u endpointAddress endpointPortNumber c =
     (new_Session suggested u None client_role endpointAddress endpointPortNumber, c\<lparr>cl_stream := None\<rparr>)"

definition onUpgradeConnection_c ::
  "(role_type \<Rightarrow> ws_timeout) \<Rightarrow> 'u \<Rightarrow> exn + string \<times> 16 word \<Rightarrow> error_code \<Rightarrow> nat \<Rightarrow>
   ('c, 'f, ('ctx, 'h, 'w, 'd, 'u) session) client \<Rightarrow> ('c, 'f, ('ctx, 'h, 'w, 'd, 'u) session) client outcome" where
  "onUpgradeConnection_c suggested u remote ec wsStream c =
     (let c = cancel_timer c
      in if failed ec
         then if ec = OperationAborted
              then invoke (cl_onConnectFail c) (\<lambda>cb. client_emit (ConnectFailed cb ec)) c
              else invoke (cl_onHandshakeFail c) (\<lambda>cb. client_emit (HandshakeFailed cb ec)) c
         else case remote of
                Inl x \<Rightarrow> Done (client_emit EndpointUnavailable c)
              | Inr (address, port) \<Rightarrow>
                  let (session, c) = createSession_c suggested u address port c
                  in invoke (cl_onNewSession c) (\<lambda>cb. client_emit (NewSession cb wsStream session)) c)"

subsection \<open>The completion handlers\<close>

definition timeoutHandler :: "error_code \<Rightarrow> ('c, 'f, 'x) client \<Rightarrow> ('c, 'f, 'x) client" where
  "timeoutHandler ec c = (if cl_exists c then onConnectionTimeout ec c else c)"

definition resolveHandler :: "error_code \<Rightarrow> ('c, 'f, 'x) client \<Rightarrow> ('c, 'f, 'x) client outcome" where
  "resolveHandler ec c = (if cl_exists c then onResolve ec c else Done c)"

definition connectHandler ::
  "'f boost \<Rightarrow> (string \<Rightarrow> string \<Rightarrow> 'f) \<Rightarrow> error_code \<Rightarrow> nat \<Rightarrow> ('c, 'f, 'x) client \<Rightarrow> ('c, 'f, 'x) client outcome" where
  "connectHandler B upgrade ec wsStream c = (if cl_exists c then onConnect B upgrade ec wsStream c else Done c)"

definition handshakeHandler ::
  "(role_type \<Rightarrow> ws_timeout) \<Rightarrow> 'u \<Rightarrow> exn + string \<times> 16 word \<Rightarrow> error_code \<Rightarrow> nat \<Rightarrow>
   ('c, 'f, ('ctx, 'h, 'w, 'd, 'u) session) client \<Rightarrow> ('c, 'f, ('ctx, 'h, 'w, 'd, 'u) session) client outcome" where
  "handshakeHandler suggested u remote ec wsStream c =
     (if cl_exists c then onUpgradeConnection_c suggested u remote ec wsStream c else Done c)"

lemmas client_ops =
  client_emit_def new_Client_def cancel_timer_def cancel_stream_def destroy_Client_def connect_def
  onConnectionTimeout_def onResolve_def onConnect_def createSession_c_def onUpgradeConnection_c_def
  timeoutHandler_def resolveHandler_def connectHandler_def handshakeHandler_def

end
