(* ===== verification/Client_Machine.thy ===== *)
theory Client_Machine
  imports Client Session_Machine
begin

section \<open>The client with its operations and its timer\<close>

text \<open>
  The client of \<open>Client\<close> driven by its environment: the user connects and drops the client; resolving,
  connecting and shaking hands complete with any result, the timer expires once its deadline has
  come, the io context calls completion handlers in any order.

  The invariant counts: every attempt is either in one of its three phases or has had exactly one
  outcome. It also says that one timeout is running at most and that the client holds no stream it has
  handed to a session.
\<close>

datatype client_event =
    Connect nat
  | FinishResolve nat error_code
  | ResolveCompleted nat
  | FinishConnect nat error_code
  | ConnectCompleted nat
  | FinishHandshake nat error_code
  | HandshakeCompleted nat "exn + string \<times> 16 word"
  | Elapse nat
  | ExpireTimeout nat
  | TimeoutCompleted nat
  | DropClient

record ('c, 'f, 'x) client_system =
  cs_client :: "('c, 'f, 'x) client"
  cs_now :: nat
  cs_attempts :: nat

definition client_init :: "('c, 'f, 'x) client_system \<Rightarrow> bool" where
  "client_init s \<longleftrightarrow>
     (\<exists>host port path auth ns rf cf hf now.
        s = \<lparr>cs_client = new_Client host port path auth (Fn ns) (Fn rf) (Fn cf) (Fn hf), cs_now = now, cs_attempts = 0\<rparr>)"

inductive client_step ::
  "'f boost \<Rightarrow> (string \<Rightarrow> string \<Rightarrow> 'f) \<Rightarrow> (role_type \<Rightarrow> ws_timeout) \<Rightarrow> 'u \<Rightarrow>
   ('c, 'f, ('ctx, 'h, 'w, 'd, 'u) session) client_system \<Rightarrow> client_event \<Rightarrow>
   ('c, 'f, ('ctx, 'h, 'w, 'd, 'u) session) client_system \<Rightarrow> bool"
  for B :: "'f boost" and upgrade :: "string \<Rightarrow> string \<Rightarrow> 'f" and suggested :: "role_type \<Rightarrow> ws_timeout" and u :: 'u
where
  connect_call: "cl_exists (cs_client s) \<Longrightarrow>
     client_step B upgrade suggested u s (Connect timeout)
       (s\<lparr>cs_client := connect (cs_now s) timeout (cs_client s), cs_attempts := Suc (cs_attempts s)\<rparr>)"
| finish_resolve: "finish_op i ec (cl_resolves (cs_client s)) = Some ops \<Longrightarrow>
     client_step B upgrade suggested u s (FinishResolve i ec) (s\<lparr>cs_client := (cs_client s)\<lparr>cl_resolves := ops\<rparr>\<rparr>)"
| resolve_completed: "take_op i (cl_resolves (cs_client s)) = Some ((k, ec), ops) \<Longrightarrow>
     leaves (resolveHandler ec ((cs_client s)\<lparr>cl_resolves := ops\<rparr>)) c \<Longrightarrow>
     client_step B upgrade suggested u s (ResolveCompleted i) (s\<lparr>cs_client := c\<rparr>)"
| finish_connect: "finish_op i ec (cl_connects (cs_client s)) = Some ops \<Longrightarrow>
     client_step B upgrade suggested u s (FinishConnect i ec) (s\<lparr>cs_client := (cs_client s)\<lparr>cl_connects := ops\<rparr>\<rparr>)"
| connect_completed: "take_op i (cl_connects (cs_client s)) = Some ((k, ec), ops) \<Longrightarrow>
     leaves (connectHandler B upgrade ec k ((cs_client s)\<lparr>cl_connects := ops\<rparr>)) c \<Longrightarrow>
     client_step B upgrade suggested u s (ConnectCompleted i) (s\<lparr>cs_client := c\<rparr>)"
| finish_handshake: "finish_op i ec (cl_handshakes (cs_client s)) = Some ops \<Longrightarrow>
     client_step B upgrade suggested u s (FinishHandshake i ec) (s\<lparr>cs_client := (cs_client s)\<lparr>cl_handshakes := ops\<rparr>\<rparr>)"
| handshake_completed: "take_op i (cl_handshakes (cs_client s)) = Some ((h, ec), ops) \<Longrightarrow>
     leaves (handshakeHandler suggested u remote ec (hs_stream h) ((cs_client s)\<lparr>cl_handshakes := ops\<rparr>)) c \<Longrightarrow>
     client_step B upgrade suggested u s (HandshakeCompleted i remote) (s\<lparr>cs_client := c\<rparr>)"
| elapse: "client_step B upgrade suggested u s (Elapse n) (s\<lparr>cs_now := cs_now s + n\<rparr>)"
| expire_timeout: "i < length (cl_timers (cs_client s)) \<Longrightarrow> fst (cl_timers (cs_client s) ! i) \<le> cs_now s \<Longrightarrow>
     finish_op i NoError (cl_timers (cs_client s)) = Some ops \<Longrightarrow>
     client_step B upgrade suggested u s (ExpireTimeout i) (s\<lparr>cs_client := (cs_client s)\<lparr>cl_timers := ops\<rparr>\<rparr>)"
| timeout_completed: "take_op i (cl_timers (cs_client s)) = Some ((d, ec), ops) \<Longrightarrow>
     client_step B upgrade suggested u s (TimeoutCompleted i)
       (s\<lparr>cs_client := timeoutHandler ec ((cs_client s)\<lparr>cl_timers := ops\<rparr>)\<rparr>)"
| drop_client: "cl_exists (cs_client s) \<Longrightarrow>
     client_step B upgrade suggested u s DropClient (s\<lparr>cs_client := destroy_Client (cs_client s)\<rparr>)"

inductive_simps client_step_simps:
  "client_step B upgrade suggested u s (Connect timeout) t"
  "client_step B upgrade suggested u s (FinishResolve i ec) t"
  "client_step B upgrade suggested u s (ResolveCompleted i) t"
  "client_step B upgrade suggested u s (FinishConnect i ec) t"
  "client_step B upgrade suggested u s (ConnectCompleted i) t"
  "client_step B upgrade suggested u s (FinishHandshake i ec) t"
  "client_step B upgrade suggested u s (HandshakeCompleted i remote) t"
  "client_step B upgrade suggested u s (Elapse n) t"
  "client_step B upgrade suggested u s (ExpireTimeout i) t"
  "client_step B upgrade suggested u s (TimeoutCompleted i) t"
  "client_step B upgrade suggested u s DropClient t"

text \<open>A handler that throws or does something undefined.\<close>

fun client_bad ::
  "'f boost \<Rightarrow> (string \<Rightarrow> string \<Rightarrow> 'f) \<Rightarrow> (role_type \<Rightarrow> ws_timeout) \<Rightarrow> 'u \<Rightarrow>
   ('c, 'f, ('ctx, 'h, 'w, 'd, 'u) session) client_system \<Rightarrow> client_event \<Rightarrow> bool" where
  "client_bad B upgrade suggested u s (ResolveCompleted i) =
     (case take_op i (cl_resolves (cs_client s)) of
        None \<Rightarrow> False
      | Some ((k, ec), ops) \<Rightarrow> \<forall>c. resolveHandler ec ((cs_client s)\<lparr>cl_resolves := ops\<rparr>) \<noteq> Done c)"
| "client_bad B upgrade suggested u s (ConnectCompleted i) =
     (case take_op i (cl_connects (cs_client s)) of
        None \<Rightarrow> False
      | Some ((k, ec), ops) \<Rightarrow> \<forall>c. connectHandler B upgrade ec k ((cs_client s)\<lparr>cl_connects := ops\<rparr>) \<noteq> Done c)"
| "client_bad B upgrade suggested u s (HandshakeCompleted i remote) =
     (case take_op i (cl_handshakes (cs_client s)) of
        None \<Rightarrow> False
      | Some ((h, ec), ops) \<Rightarrow>
          \<forall>c. handshakeHandler suggested u remote ec (hs_stream h) ((cs_client s)\<lparr>cl_handshakes := ops\<rparr>) \<noteq> Done c)"
| "client_bad B upgrade suggested u s e = False"

subsection \<open>The invariant\<close>

definition pending :: "('c, 'f, 'x) client \<Rightarrow> nat" where
  "pending c = length (cl_resolves c) + length (cl_connects c) + length (cl_handshakes c)"

definition callbacks_set :: "('c, 'f, 'x) client \<Rightarrow> bool" where
  "callbacks_set c \<longleftrightarrow>
     (\<exists>ns rf cf hf. cl_onNewSession c = Fn ns \<and> cl_onResolveFail c = Fn rf \<and> cl_onConnectFail c = Fn cf \<and>
        cl_onHandshakeFail c = Fn hf)"

definition attempts_ok :: "('c, 'f, 'x) client_system \<Rightarrow> bool" where
  "attempts_ok s \<longleftrightarrow>
     (if cl_exists (cs_client s) then cs_attempts s = pending (cs_client s) + length (cl_trace (cs_client s))
      else pending (cs_client s) + length (cl_trace (cs_client s)) \<le> cs_attempts s)"

text \<open>The sessions handed out so far, with their streams.\<close>

fun handed :: "('c, 'x) client_effect \<Rightarrow> (nat \<times> 'x) list" where
  "handed (NewSession cb k x) = [(k, x)]"
| "handed _ = []"

definition sessions_of :: "('c, 'f, 'x) client \<Rightarrow> (nat \<times> 'x) list" where
  "sessions_of c = concat (map handed (cl_trace c))"

text \<open>Streams are fresh, and those of sessions belong to the sessions.\<close>

definition streams_ok ::
  "(role_type \<Rightarrow> ws_timeout) \<Rightarrow> 'u \<Rightarrow> ('c, 'f, ('ctx, 'h, 'w, 'd, 'u) session) client \<Rightarrow> bool" where
  "streams_ok suggested u c \<longleftrightarrow>
     (\<forall>k. cl_stream c = Some k \<longrightarrow> k < length (cl_streams c)) \<and>
     (\<forall>k \<in> set (op_keys (cl_connects c)). k < length (cl_streams c)) \<and>
     (\<forall>h \<in> set (op_keys (cl_handshakes c)). hs_stream h < length (cl_streams c)) \<and>
     (\<forall>(k, x) \<in> set (sessions_of c). k < length (cl_streams c) \<and> cl_stream c \<noteq> Some k \<and>
        (\<exists>address port. x = new_Session suggested u None client_role address port))"

text \<open>The request of every handshake is the decorated one.\<close>

definition requests_ok :: "'f boost \<Rightarrow> (string \<Rightarrow> string \<Rightarrow> 'f) \<Rightarrow> ('c, 'f, 'x) client \<Rightarrow> bool" where
  "requests_ok B upgrade c \<longleftrightarrow>
     (\<forall>h \<in> set (op_keys (cl_handshakes c)). hs_host h = cl_host c \<and> hs_target h = cl_path c \<and>
        decorator B (cl_authentication c) (upgrade (cl_host c) (cl_path c)) = Some (hs_request h))"

definition one_timeout :: "('c, 'f, 'x) client \<Rightarrow> bool" where
  "one_timeout c \<longleftrightarrow> length (running (cl_timers c)) \<le> 1"

definition client_inv ::
  "'f boost \<Rightarrow> (string \<Rightarrow> string \<Rightarrow> 'f) \<Rightarrow> (role_type \<Rightarrow> ws_timeout) \<Rightarrow> 'u \<Rightarrow>
   ('c, 'f, ('ctx, 'h, 'w, 'd, 'u) session) client_system \<Rightarrow> bool" where
  "client_inv B upgrade suggested u s \<longleftrightarrow> callbacks_set (cs_client s) \<and> attempts_ok s \<and>
     streams_ok suggested u (cs_client s) \<and> requests_ok B upgrade (cs_client s) \<and>
     one_timeout (cs_client s)"

lemmas client_inv_defs =
  callbacks_set_def attempts_ok_def pending_def streams_ok_def requests_ok_def one_timeout_def
  sessions_of_def

lemma client_inv_init: "client_init s \<Longrightarrow> client_inv B upgrade suggested u s"
  by (auto simp: client_init_def client_inv_def client_inv_defs new_Client_def)

subsection \<open>What the handlers leave\<close>

text \<open>The callbacks being set, every handler returns, in one of the ways listed.\<close>

lemma resolveHandler_cases:
  assumes "callbacks_set c" and "leaves (resolveHandler ec c) c'"
  shows "\<not> cl_exists c \<and> c' = c \<or>
    (\<exists>rf. c' = client_emit (ResolveFailed rf ec) (cancel_timer c) \<and> cl_exists c \<and> failed ec) \<or>
    (\<exists>ws. c' = c\<lparr>cl_streams := cl_streams c @ [ws], cl_stream := Some (length (cl_streams c)),
           cl_connects := start_op (length (cl_streams c)) (cl_connects c)\<rparr> \<and> cl_exists c \<and> \<not> failed ec)"
proof -
  obtain rf where rf: "cl_onResolveFail c = Fn rf" using assms(1) by (auto simp: callbacks_set_def)
  consider "\<not> cl_exists c" | "cl_exists c" "failed ec" | "cl_exists c" "\<not> failed ec" by blast
  then show ?thesis
  proof cases
    case 1
    then show ?thesis using assms(2) by (simp add: resolveHandler_def)
  next
    case 2
    then have "c' = client_emit (ResolveFailed rf ec) (cancel_timer c)"
      using assms(2) rf by (simp add: resolveHandler_def onResolve_def)
    with 2 show ?thesis by blast
  next
    case 3
    then have "c' = c\<lparr>cl_streams := cl_streams c @ [\<lparr>write_buffer_bytes = 65536, read_message_max = 0x10000000\<rparr>],
        cl_stream := Some (length (cl_streams c)), cl_connects := start_op (length (cl_streams c)) (cl_connects c)\<rparr>"
      using assms(2) by (simp add: resolveHandler_def onResolve_def Let_def)
    with 3 show ?thesis by blast
  qed
qed

lemma connectHandler_cases:
  assumes "callbacks_set c" and "leaves (connectHandler B upgrade ec k c) c'"
  shows "\<not> cl_exists c \<and> c' = c \<or>
    (\<exists>cf. c' = client_emit (ConnectFailed cf ec) (cancel_timer c) \<and> cl_exists c \<and> failed ec) \<or>
    (\<exists>req. c' = c\<lparr>cl_handshakes := start_op
           \<lparr>hs_stream = k, hs_host = cl_host c, hs_target = cl_path c, hs_request = req\<rparr> (cl_handshakes c)\<rparr> \<and>
       cl_exists c \<and> \<not> failed ec \<and>
       decorator B (cl_authentication c) (upgrade (cl_host c) (cl_path c)) = Some req)"
proof -
  obtain cf where cf: "cl_onConnectFail c = Fn cf" using assms(1) by (auto simp: callbacks_set_def)
  consider "\<not> cl_exists c" | "cl_exists c" "failed ec" | "cl_exists c" "\<not> failed ec" by blast
  then show ?thesis
  proof cases
    case 1
    then show ?thesis using assms(2) by (simp add: connectHandler_def)
  next
    case 2
    then have "c' = client_emit (ConnectFailed cf ec) (cancel_timer c)"
      using assms(2) cf by (simp add: connectHandler_def onConnect_def)
    with 2 show ?thesis by blast
  next
    case 3
    then obtain req where req: "decorator B (cl_authentication c) (upgrade (cl_host c) (cl_path c)) = Some req"
      using assms(2)
      by (cases "decorator B (cl_authentication c) (upgrade (cl_host c) (cl_path c))")
         (simp_all add: connectHandler_def onConnect_def)
    then have "c' = c\<lparr>cl_handshakes := start_op
         \<lparr>hs_stream = k, hs_host = cl_host c, hs_target = cl_path c, hs_request = req\<rparr> (cl_handshakes c)\<rparr>"
      using 3 assms(2) by (simp add: connectHandler_def onConnect_def)
    with 3 req show ?thesis by blast
  qed
qed

lemma handshakeHandler_cases:
  assumes "callbacks_set c" and "leaves (handshakeHandler suggested u remote ec k c) c'"
  shows "\<not> cl_exists c \<and> c' = c \<or>
    (\<exists>e. c' = client_emit e (cancel_timer c) \<and> cl_exists c \<and> handed e = []) \<or>
    (\<exists>ns address port.
       c' = client_emit (NewSession ns k (new_Session suggested u None client_role address port))
              ((cancel_timer c)\<lparr>cl_stream := None\<rparr>) \<and>
       cl_exists c \<and> \<not> failed ec \<and> remote = Inr (address, port))"
proof -
  obtain ns cf hf where cb: "cl_onNewSession (cancel_timer c) = Fn ns" "cl_onConnectFail (cancel_timer c) = Fn cf"
    "cl_onHandshakeFail (cancel_timer c) = Fn hf"
    using assms(1) by (auto simp: callbacks_set_def cancel_timer_def)
  consider "\<not> cl_exists c" | "cl_exists c" "ec = OperationAborted"
    | "cl_exists c" "failed ec" "ec \<noteq> OperationAborted"
    | x where "cl_exists c" "\<not> failed ec" "remote = Inl x"
    | address port where "cl_exists c" "\<not> failed ec" "remote = Inr (address, port)"
    by (cases remote) auto
  then show ?thesis
  proof cases
    case 1
    then show ?thesis using assms(2) by (simp add: handshakeHandler_def)
  next
    case 2
    then have "c' = client_emit (ConnectFailed cf ec) (cancel_timer c)"
      using assms(2) cb by (simp add: handshakeHandler_def onUpgradeConnection_c_def Let_def)
    with 2 show ?thesis
      by (intro disjI2 [OF disjI1] exI [of _ "ConnectFailed cf ec"]) simp
  next
    case 3
    then have "c' = client_emit (HandshakeFailed hf ec) (cancel_timer c)"
      using assms(2) cb by (simp add: handshakeHandler_def onUpgradeConnection_c_def Let_def)
    with 3 show ?thesis
      by (intro disjI2 [OF disjI1] exI [of _ "HandshakeFailed hf ec"]) simp
  next
    case (4 x)
    then have "c' = client_emit EndpointUnavailable (cancel_timer c)"
      using assms(2) by (simp add: handshakeHandler_def onUpgradeConnection_c_def Let_def)
    with 4 show ?thesis
      by (intro disjI2 [OF disjI1] exI [of _ "EndpointUnavailable"]) simp
  next
    case (5 address port)
    then have "c' = client_emit (NewSession ns k (new_Session suggested u None client_role address port))
              ((cancel_timer c)\<lparr>cl_stream := None\<rparr>)"
      using assms(2) cb
      by (simp add: handshakeHandler_def onUpgradeConnection_c_def createSession_c_def Let_def)
    with 5 show ?thesis by blast
  qed
qed

lemma cancel_timer_fields [simp]:
  "cl_host (cancel_timer c) = cl_host c" "cl_path (cancel_timer c) = cl_path c"
  "cl_authentication (cancel_timer c) = cl_authentication c" "cl_stream (cancel_timer c) = cl_stream c"
  "cl_onNewSession (cancel_timer c) = cl_onNewSession c" "cl_onResolveFail (cancel_timer c) = cl_onResolveFail c"
  "cl_onConnectFail (cancel_timer c) = cl_onConnectFail c"
  "cl_onHandshakeFail (cancel_timer c) = cl_onHandshakeFail c"
  "cl_exists (cancel_timer c) = cl_exists c" "cl_streams (cancel_timer c) = cl_streams c"
  "cl_timers (cancel_timer c) = cancel_ops (\<lambda>k. True) (cl_timers c)"
  "cl_resolves (cancel_timer c) = cl_resolves c" "cl_connects (cancel_timer c) = cl_connects c"
  "cl_handshakes (cancel_timer c) = cl_handshakes c" "cl_trace (cancel_timer c) = cl_trace c"
  "sessions_of (cancel_timer c) = sessions_of c"
  by (simp_all add: cancel_timer_def sessions_of_def)

lemma client_emit_fields [simp]:
  "cl_host (client_emit e c) = cl_host c" "cl_path (client_emit e c) = cl_path c"
  "cl_authentication (client_emit e c) = cl_authentication c" "cl_stream (client_emit e c) = cl_stream c"
  "cl_onNewSession (client_emit e c) = cl_onNewSession c" "cl_onResolveFail (client_emit e c) = cl_onResolveFail c"
  "cl_onConnectFail (client_emit e c) = cl_onConnectFail c"
  "cl_onHandshakeFail (client_emit e c) = cl_onHandshakeFail c"
  "cl_exists (client_emit e c) = cl_exists c" "cl_streams (client_emit e c) = cl_streams c"
  "cl_timers (client_emit e c) = cl_timers c" "cl_resolves (client_emit e c) = cl_resolves c"
  "cl_connects (client_emit e c) = cl_connects c" "cl_handshakes (client_emit e c) = cl_handshakes c"
  "cl_trace (client_emit e c) = cl_trace c @ [e]" "sessions_of (client_emit e c) = sessions_of c @ handed e"
  by (simp_all add: client_emit_def sessions_of_def)

lemma connect_fields [simp]:
  "cl_host (connect now n c) = cl_host c" "cl_path (connect now n c) = cl_path c"
  "cl_authentication (connect now n c) = cl_authentication c" "cl_stream (connect now n c) = cl_stream c"
  "callbacks_set (connect now n c) = callbacks_set c"
  "cl_exists (connect now n c) = cl_exists c" "cl_streams (connect now n c) = cl_streams c"
  "cl_timers (connect now n c) = start_op (now + n) (cancel_ops (\<lambda>k. True) (cl_timers c))"
  "cl_resolves (connect now n c) = start_op (cl_host c, cl_port c) (cl_resolves c)"
  "cl_connects (connect now n c) = cl_connects c"
  "cl_handshakes (connect now n c) = cl_handshakes c" "cl_trace (connect now n c) = cl_trace c"
  "sessions_of (connect now n c) = sessions_of c"
  by (simp_all add: sessions_of_def connect_def cancel_timer_def callbacks_set_def Let_def)

lemma timeout_fields [simp]:
  "cl_host (timeoutHandler ec c) = cl_host c" "cl_path (timeoutHandler ec c) = cl_path c"
  "cl_authentication (timeoutHandler ec c) = cl_authentication c"
  "callbacks_set (timeoutHandler ec c) = callbacks_set c"
  "cl_exists (timeoutHandler ec c) = cl_exists c" "cl_streams (timeoutHandler ec c) = cl_streams c"
  "cl_timers (timeoutHandler ec c) = cl_timers c" "cl_trace (timeoutHandler ec c) = cl_trace c"
  "sessions_of (timeoutHandler ec c) = sessions_of c"
  "length (cl_resolves (timeoutHandler ec c)) = length (cl_resolves c)"
  "op_keys (cl_connects (timeoutHandler ec c)) = op_keys (cl_connects c)"
  "op_keys (cl_handshakes (timeoutHandler ec c)) = op_keys (cl_handshakes c)"
  "length (cl_connects (timeoutHandler ec c)) = length (cl_connects c)"
  "length (cl_handshakes (timeoutHandler ec c)) = length (cl_handshakes c)"
  "cl_stream (timeoutHandler ec c) = (if failed ec \<or> \<not> cl_exists c then cl_stream c else None)"
  by (simp_all add: sessions_of_def timeoutHandler_def onConnectionTimeout_def cancel_stream_def callbacks_set_def Let_def
      split: option.splits)

lemma destroy_client_fields [simp]:
  "cl_host (destroy_Client c) = cl_host c" "cl_path (destroy_Client c) = cl_path c"
  "cl_authentication (destroy_Client c) = cl_authentication c" "cl_stream (destroy_Client c) = None"
  "callbacks_set (destroy_Client c) = callbacks_set c" "cl_exists (destroy_Client c) = False"
  "cl_streams (destroy_Client c) = cl_streams c"
  "cl_timers (destroy_Client c) = cancel_ops (\<lambda>k. True) (cl_timers c)"
  "length (cl_resolves (destroy_Client c)) = length (cl_resolves c)"
  "cl_connects (destroy_Client c) = cl_connects c" "cl_handshakes (destroy_Client c) = cl_handshakes c"
  "cl_trace (destroy_Client c) = cl_trace c" "sessions_of (destroy_Client c) = sessions_of c"
  by (simp_all add: sessions_of_def destroy_Client_def cancel_timer_def callbacks_set_def)

lemma sessions_of_update [simp]:
  "sessions_of (c\<lparr>cl_timers := a\<rparr>) = sessions_of c" "sessions_of (c\<lparr>cl_resolves := b\<rparr>) = sessions_of c"
  "sessions_of (c\<lparr>cl_connects := d\<rparr>) = sessions_of c" "sessions_of (c\<lparr>cl_handshakes := e\<rparr>) = sessions_of c"
  "sessions_of (c\<lparr>cl_stream := k\<rparr>) = sessions_of c" "sessions_of (c\<lparr>cl_streams := l\<rparr>) = sessions_of c"
  by (simp_all add: sessions_of_def)

lemma callbacks_set_update [simp]:
  "callbacks_set (c\<lparr>cl_timers := a\<rparr>) = callbacks_set c" "callbacks_set (c\<lparr>cl_resolves := b\<rparr>) = callbacks_set c"
  "callbacks_set (c\<lparr>cl_connects := d\<rparr>) = callbacks_set c" "callbacks_set (c\<lparr>cl_handshakes := e\<rparr>) = callbacks_set c"
  "callbacks_set (c\<lparr>cl_stream := k\<rparr>) = callbacks_set c" "callbacks_set (cancel_timer c) = callbacks_set c"
  "callbacks_set (client_emit x c) = callbacks_set c"
  by (simp_all add: callbacks_set_def)

subsection \<open>The invariant is kept\<close>

lemma callbacks_step:
  "client_step B upgrade suggested u s e t \<Longrightarrow> callbacks_set (cs_client s) \<Longrightarrow> callbacks_set (cs_client t)"
proof (induction rule: client_step.induct)
  case (resolve_completed i s k ec ops c)
  then have "callbacks_set ((cs_client s)\<lparr>cl_resolves := ops\<rparr>)" by simp
  from resolveHandler_cases [OF this resolve_completed(2)] resolve_completed(3) show ?case
    by (elim disjE exE conjE) (simp_all add: callbacks_set_def)
next
  case (connect_completed i s k ec ops c)
  then have "callbacks_set ((cs_client s)\<lparr>cl_connects := ops\<rparr>)" by simp
  from connectHandler_cases [OF this connect_completed(2)] connect_completed(3) show ?case
    by (elim disjE exE conjE) (simp_all add: callbacks_set_def)
next
  case (handshake_completed i s h ec ops remote c)
  then have "callbacks_set ((cs_client s)\<lparr>cl_handshakes := ops\<rparr>)" by simp
  from handshakeHandler_cases [OF this handshake_completed(2)] handshake_completed(3) show ?case
    by (elim disjE exE conjE) (simp_all add: callbacks_set_def)
qed simp_all

lemma streams_ok_same:
  "streams_ok suggested u (c\<lparr>cl_resolves := r\<rparr>) = streams_ok suggested u c"
  "streams_ok suggested u (cancel_timer c) = streams_ok suggested u c"
  "handed e = [] \<Longrightarrow> streams_ok suggested u (client_emit e c) = streams_ok suggested u c"
  by (auto simp: streams_ok_def)

text \<open>A new stream is not one of those handed to sessions.\<close>

lemma streams_ok_new:
  assumes "streams_ok suggested u c"
  shows "streams_ok suggested u (c\<lparr>cl_resolves := r, cl_streams := cl_streams c @ [ws],
     cl_stream := Some (length (cl_streams c)), cl_connects := start_op (length (cl_streams c)) (cl_connects c)\<rparr>)"
proof -
  have "(length (cl_streams c), x) \<notin> set (sessions_of c)" for x
    using assms by (auto simp: streams_ok_def)
  then show ?thesis using assms by (auto simp: streams_ok_def less_Suc_eq)
qed

lemma attempts_step:
  "client_step B upgrade suggested u s e t \<Longrightarrow> callbacks_set (cs_client s) \<Longrightarrow> attempts_ok s \<Longrightarrow> attempts_ok t"
proof (induction rule: client_step.induct)
  case (resolve_completed i s k ec ops c)
  then have "callbacks_set ((cs_client s)\<lparr>cl_resolves := ops\<rparr>)" by simp
  from resolveHandler_cases [OF this resolve_completed(2)] resolve_completed(4) take_op_length [OF resolve_completed(1)]
  show ?case
    by (elim disjE exE conjE) (simp_all add: attempts_ok_def pending_def split: if_splits)
next
  case (connect_completed i s k ec ops c)
  then have "callbacks_set ((cs_client s)\<lparr>cl_connects := ops\<rparr>)" by simp
  from connectHandler_cases [OF this connect_completed(2)] connect_completed(4) take_op_length [OF connect_completed(1)]
  show ?case
    by (elim disjE exE conjE) (simp_all add: attempts_ok_def pending_def split: if_splits)
next
  case (handshake_completed i s h ec ops remote c)
  then have "callbacks_set ((cs_client s)\<lparr>cl_handshakes := ops\<rparr>)" by simp
  from handshakeHandler_cases [OF this handshake_completed(2)] handshake_completed(4) take_op_length [OF handshake_completed(1)]
  show ?case
    by (elim disjE exE conjE) (simp_all add: attempts_ok_def pending_def split: if_splits)
next
  case (finish_resolve i ec s ops)
  then show ?case using finish_op_length [OF finish_resolve(1)] by (simp add: attempts_ok_def pending_def split: if_splits)
next
  case (finish_connect i ec s ops)
  then show ?case using finish_op_length [OF finish_connect(1)] by (simp add: attempts_ok_def pending_def split: if_splits)
next
  case (finish_handshake i ec s ops)
  then show ?case using finish_op_length [OF finish_handshake(1)] by (simp add: attempts_ok_def pending_def split: if_splits)
qed (simp_all add: attempts_ok_def pending_def split: if_splits)

lemma streams_ok_fewer:
  assumes "streams_ok suggested u c"
  shows "set ks \<subseteq> set (cl_connects c) \<Longrightarrow> streams_ok suggested u (c\<lparr>cl_connects := ks\<rparr>)"
    and "set hs \<subseteq> set (cl_handshakes c) \<Longrightarrow> streams_ok suggested u (c\<lparr>cl_handshakes := hs\<rparr>)"
  using assms by (auto simp: streams_ok_def dest!: subsetD)

lemma streams_ok_shake:
  assumes "streams_ok suggested u c" and "hs_stream h < length (cl_streams c)"
  shows "streams_ok suggested u (c\<lparr>cl_handshakes := start_op h (cl_handshakes c)\<rparr>)"
  using assms by (auto simp: streams_ok_def)

lemma streams_ok_hand:
  assumes "streams_ok suggested u c" and "k < length (cl_streams c)"
  shows "streams_ok suggested u (client_emit (NewSession ns k (new_Session suggested u None client_role address port))
     ((cancel_timer c)\<lparr>cl_stream := None\<rparr>))"
  using assms by (auto simp: streams_ok_def)

lemma streams_step:
  "client_step B upgrade suggested u s e t \<Longrightarrow> callbacks_set (cs_client s) \<Longrightarrow> streams_ok suggested u (cs_client s) \<Longrightarrow> streams_ok suggested u (cs_client t)"
proof (induction rule: client_step.induct)
  case (resolve_completed i s k ec ops c)
  then have "callbacks_set ((cs_client s)\<lparr>cl_resolves := ops\<rparr>)" by simp
  from resolveHandler_cases [OF this resolve_completed(2)] resolve_completed(4) streams_ok_new
  show ?case
    by (elim disjE exE conjE) (simp_all add: streams_ok_same)
next
  case (connect_completed i s k ec ops c)
  then have cb: "callbacks_set ((cs_client s)\<lparr>cl_connects := ops\<rparr>)" by simp
  have ok: "streams_ok suggested u ((cs_client s)\<lparr>cl_connects := ops\<rparr>)"
    using connect_completed(4) take_op_subset [OF connect_completed(1)] by (rule streams_ok_fewer)
  have "k < length (cl_streams (cs_client s))"
    using connect_completed(4) take_op_in [OF connect_completed(1)] by (auto simp: streams_ok_def)
  then show ?case
    using connectHandler_cases [OF cb connect_completed(2)] ok streams_ok_shake [OF ok]
    by (elim disjE exE conjE) (simp_all add: streams_ok_same)
next
  case (handshake_completed i s h ec ops remote c)
  then have cb: "callbacks_set ((cs_client s)\<lparr>cl_handshakes := ops\<rparr>)" by simp
  have ok: "streams_ok suggested u ((cs_client s)\<lparr>cl_handshakes := ops\<rparr>)"
    using handshake_completed(4) take_op_subset [OF handshake_completed(1)] by (rule streams_ok_fewer)
  have "hs_stream h < length (cl_streams (cs_client s))"
    using handshake_completed(4) take_op_in [OF handshake_completed(1)] by (auto simp: streams_ok_def)
  then show ?case
    using handshakeHandler_cases [OF cb handshake_completed(2)] ok streams_ok_hand [OF ok]
    by (elim disjE exE conjE) (simp_all add: streams_ok_same)
next
  case (finish_connect i ec s ops)
  then show ?case using finish_op_keys [OF finish_connect(1)] by (simp add: streams_ok_def)
next
  case (finish_handshake i ec s ops)
  then show ?case using finish_op_keys [OF finish_handshake(1)] by (simp add: streams_ok_def)
next
  case (timeout_completed i s d ec ops)
  then show ?case by (auto simp: streams_ok_def)
next
  case (drop_client s)
  then show ?case by (auto simp: streams_ok_def)
qed (simp_all add: streams_ok_def)

lemma requests_step:
  "client_step B upgrade suggested u s e t \<Longrightarrow> callbacks_set (cs_client s) \<Longrightarrow> requests_ok B upgrade (cs_client s) \<Longrightarrow> requests_ok B upgrade (cs_client t)"
proof (induction rule: client_step.induct)
  case (resolve_completed i s k ec ops c)
  then have "callbacks_set ((cs_client s)\<lparr>cl_resolves := ops\<rparr>)" by simp
  from resolveHandler_cases [OF this resolve_completed(2)] resolve_completed(4) 
  show ?case
    by (elim disjE exE conjE) (simp_all add: requests_ok_def)
next
  case (connect_completed i s k ec ops c)
  then have "callbacks_set ((cs_client s)\<lparr>cl_connects := ops\<rparr>)" by simp
  from connectHandler_cases [OF this connect_completed(2)] connect_completed(4) 
  show ?case
    by (elim disjE exE conjE) (auto simp: requests_ok_def)
next
  case (handshake_completed i s h ec ops remote c)
  then have "callbacks_set ((cs_client s)\<lparr>cl_handshakes := ops\<rparr>)" by simp
  from handshakeHandler_cases [OF this handshake_completed(2)] handshake_completed(4) take_op_subset [OF handshake_completed(1)]
  show ?case
    by (elim disjE exE conjE) ((fastforce simp: requests_ok_def)+)
next
  case (finish_handshake i ec s ops)
  then show ?case using finish_op_keys [OF finish_handshake(1)] by (simp add: requests_ok_def)
qed (simp_all add: requests_ok_def)

lemma one_timeout_step:
  "client_step B upgrade suggested u s e t \<Longrightarrow> callbacks_set (cs_client s) \<Longrightarrow> one_timeout (cs_client s) \<Longrightarrow> one_timeout (cs_client t)"
proof (induction rule: client_step.induct)
  case (resolve_completed i s k ec ops c)
  then have "callbacks_set ((cs_client s)\<lparr>cl_resolves := ops\<rparr>)" by simp
  from resolveHandler_cases [OF this resolve_completed(2)] resolve_completed(4) 
  show ?case
    by (elim disjE exE conjE) (simp_all add: one_timeout_def)
next
  case (connect_completed i s k ec ops c)
  then have "callbacks_set ((cs_client s)\<lparr>cl_connects := ops\<rparr>)" by simp
  from connectHandler_cases [OF this connect_completed(2)] connect_completed(4) 
  show ?case
    by (elim disjE exE conjE) (simp_all add: one_timeout_def)
next
  case (handshake_completed i s h ec ops remote c)
  then have "callbacks_set ((cs_client s)\<lparr>cl_handshakes := ops\<rparr>)" by simp
  from handshakeHandler_cases [OF this handshake_completed(2)] handshake_completed(4) 
  show ?case
    by (elim disjE exE conjE) (simp_all add: one_timeout_def)
next
  case (expire_timeout i s ops)
  then show ?case by (auto simp: one_timeout_def running_def dest!: finish_op_split)
next
  case (timeout_completed i s d ec ops)
  then show ?case using take_op_running [OF timeout_completed(1)] by (simp add: one_timeout_def)
qed (simp_all add: one_timeout_def)

lemma client_inv_step:
  "client_step B upgrade suggested u s e t \<Longrightarrow> client_inv B upgrade suggested u s \<Longrightarrow>
   client_inv B upgrade suggested u t"
  by (simp add: client_inv_def callbacks_step attempts_step streams_step requests_step one_timeout_step)

interpretation connecting: invariant_system client_init "client_step B upgrade suggested u" "client_inv B upgrade suggested u"
  for B upgrade suggested u
  by unfold_locales (rule client_inv_init client_inv_step; assumption)+

text \<open>A session that was handed out is a fresh one, and not the client's any more.\<close>

lemma handed_over_fresh:
  assumes "reachable client_init (client_step B upgrade suggested u) s"
    and "NewSession cb k x \<in> set (cl_trace (cs_client s))"
  shows "cl_stream (cs_client s) \<noteq> Some k \<and>
     (\<exists>address port. x = new_Session suggested u None client_role address port)"
proof -
  have "streams_ok suggested u (cs_client s)"
    using connecting.reachable_inv [OF assms(1)] by (simp add: client_inv_def)
  moreover have "(k, x) \<in> set (sessions_of (cs_client s))"
    using assms(2) by (force simp: sessions_of_def)
  ultimately show ?thesis by (auto simp: streams_ok_def)
qed

end
