(* ===== verification/Client_Serial.thy ===== *)
theory Client_Serial
  imports Client_Machine
begin

section \<open>Attempts one after the other\<close>

text \<open>
  A client whose user connects again only when the attempt before has had its outcome and no expired
  timeout of it is queued any more, as often as he likes. Then at most one attempt is in progress, at
  most one timeout can still act, and while it can, what is outstanding is on the stream that the client
  would cancel. With attempts that overlap none of this holds.

  At the end, what can become of a connect that no timeout watches.
\<close>

definition serial_step ::
  "'f boost \<Rightarrow> (string \<Rightarrow> string \<Rightarrow> 'f) \<Rightarrow> (role_type \<Rightarrow> ws_timeout) \<Rightarrow> 'u \<Rightarrow>
   ('c, 'f, ('ctx, 'h, 'w, 'd, 'u) session) client_system \<Rightarrow> client_event \<Rightarrow>
   ('c, 'f, ('ctx, 'h, 'w, 'd, 'u) session) client_system \<Rightarrow> bool" where
  "serial_step B upgrade suggested u s e t \<longleftrightarrow> client_step B upgrade suggested u s e t \<and>
     (\<forall>timeout. e = Connect timeout \<longrightarrow>
        pending (cs_client s) = 0 \<and> (\<forall>d. (d, Ready NoError) \<notin> set (cl_timers (cs_client s))))"

text \<open>The timeouts that can still act: those that run, and those that have expired.\<close>

definition live :: "'k ops \<Rightarrow> 'k ops" where
  "live ops = filter (\<lambda>(k, st). st = Running \<or> st = Ready NoError) ops"

lemma live_start [simp]: "live (start_op k ops) = live ops @ [(k, Running)]"
  by (simp add: live_def start_op_def)

lemma live_Nil [simp]: "live [] = []"
  by (simp add: live_def)

lemma live_cancel: "live (cancel_ops (\<lambda>k. True) ops) = filter (\<lambda>(k, st). st = Ready NoError) ops"
  by (induction ops) (auto simp: live_def cancel_ops_def split: if_splits)

lemma live_cancel_length: "length (live (cancel_ops (\<lambda>k. True) ops)) \<le> length (live ops)"
  by (induction ops) (auto simp: live_def cancel_ops_def split: if_splits)

lemma live_finish: "finish_op i ec ops = Some ops' \<Longrightarrow> length (live ops') \<le> length (live ops)"
  by (auto simp: live_def dest!: finish_op_split)

lemma live_take:
  "take_op i ops = Some ((k, ec), ops') \<Longrightarrow> length (live ops) = length (live ops') + (if failed ec then 0 else 1)"
  by (auto simp: live_def failed_def dest!: take_op_split)

subsection \<open>The invariant of attempts one after the other\<close>

text \<open>While a timeout can act, what is outstanding is on the client's stream.\<close>

definition on_stream :: "('c, 'f, 'x) client \<Rightarrow> bool" where
  "on_stream c \<longleftrightarrow> live (cl_timers c) \<noteq> [] \<longrightarrow>
     (\<forall>k \<in> set (op_keys (cl_connects c)). cl_stream c = Some k) \<and>
     (\<forall>h \<in> set (op_keys (cl_handshakes c)). cl_stream c = Some (hs_stream h))"

definition serial_ok :: "('c, 'f, 'x) client_system \<Rightarrow> bool" where
  "serial_ok s \<longleftrightarrow> cl_exists (cs_client s) \<longrightarrow> pending (cs_client s) \<le> 1 \<and>
     length (live (cl_timers (cs_client s))) \<le> 1 \<and> on_stream (cs_client s)"

definition deadlines_ok :: "('c, 'f, 'x) client_system \<Rightarrow> bool" where
  "deadlines_ok s \<longleftrightarrow> (\<forall>d. (d, Ready NoError) \<in> set (cl_timers (cs_client s)) \<longrightarrow> d \<le> cs_now s)"

text \<open>A single attempt is in one phase at a time.\<close>

lemma single_phase:
  assumes "pending c \<le> 1"
  shows "take_op i (cl_resolves c) = Some ((q, ec), rs) \<Longrightarrow> rs = [] \<and> cl_connects c = [] \<and> cl_handshakes c = []"
    and "take_op i (cl_connects c) = Some ((k, ec), cs) \<Longrightarrow> cs = [] \<and> cl_resolves c = [] \<and> cl_handshakes c = []"
    and "take_op i (cl_handshakes c) = Some ((h, ec), hs) \<Longrightarrow> hs = [] \<and> cl_resolves c = [] \<and> cl_connects c = []"
  using assms by (auto simp: pending_def dest!: take_op_length)

lemma on_stream_none: "cl_connects c = [] \<Longrightarrow> cl_handshakes c = [] \<Longrightarrow> on_stream c"
  by (simp add: on_stream_def)

lemma serial_step_ok:
  "client_step B upgrade suggested u s e t \<Longrightarrow>
   (\<forall>timeout. e = Connect timeout \<longrightarrow>
      pending (cs_client s) = 0 \<and> (\<forall>d. (d, Ready NoError) \<notin> set (cl_timers (cs_client s)))) \<Longrightarrow>
   callbacks_set (cs_client s) \<Longrightarrow> serial_ok s \<Longrightarrow> serial_ok t"
proof (induction rule: client_step.induct)
  case (connect_call s timeout)
  then have "cl_resolves (cs_client s) = []" "cl_connects (cs_client s) = []" "cl_handshakes (cs_client s) = []"
    "filter (\<lambda>(k, st). st = Ready NoError) (cl_timers (cs_client s)) = []"
    by (auto simp: pending_def filter_empty_conv)
  then show ?case by (simp add: serial_ok_def pending_def live_cancel on_stream_none)
next
  case (finish_resolve i ec s ops)
  then show ?case using finish_op_length [OF finish_resolve(1)] by (simp add: serial_ok_def on_stream_def pending_def)
next
  case (finish_connect i ec s ops)
  then show ?case
    using finish_op_keys [OF finish_connect(1)] finish_op_length [OF finish_connect(1)]
    by (simp add: serial_ok_def on_stream_def pending_def del: set_map)
next
  case (finish_handshake i ec s ops)
  then show ?case
    using finish_op_keys [OF finish_handshake(1)] finish_op_length [OF finish_handshake(1)]
    by (simp add: serial_ok_def on_stream_def pending_def del: set_map)
next
  case (resolve_completed i s q ec ops c)
  from resolve_completed(4) have "callbacks_set ((cs_client s)\<lparr>cl_resolves := ops\<rparr>)" by simp
  note cases = resolveHandler_cases [OF this resolve_completed(2)]
  have phase: "ops = [] \<and> cl_connects (cs_client s) = [] \<and> cl_handshakes (cs_client s) = []"
    if "cl_exists (cs_client s)"
    using that resolve_completed(1,5) single_phase(1) by (fastforce simp: serial_ok_def)
  from cases phase resolve_completed(5) live_cancel_length [of "cl_timers (cs_client s)"] show ?case
    by (elim disjE exE conjE) (auto simp: serial_ok_def pending_def on_stream_none on_stream_def)
next
  case (connect_completed i s k ec ops c)
  from connect_completed(4) have "callbacks_set ((cs_client s)\<lparr>cl_connects := ops\<rparr>)" by simp
  note cases = connectHandler_cases [OF this connect_completed(2)]
  have phase: "ops = [] \<and> cl_resolves (cs_client s) = [] \<and> cl_handshakes (cs_client s) = []"
    if "cl_exists (cs_client s)"
    using that connect_completed(1,5) single_phase(2) by (fastforce simp: serial_ok_def)
  from cases phase connect_completed(5) live_cancel_length [of "cl_timers (cs_client s)"] take_op_in [OF connect_completed(1)]
  show ?case
    by (elim disjE exE conjE) (auto simp: serial_ok_def pending_def on_stream_none on_stream_def)
next
  case (handshake_completed i s h ec ops remote c)
  from handshake_completed(4) have "callbacks_set ((cs_client s)\<lparr>cl_handshakes := ops\<rparr>)" by simp
  note cases = handshakeHandler_cases [OF this handshake_completed(2)]
  have phase: "ops = [] \<and> cl_resolves (cs_client s) = [] \<and> cl_connects (cs_client s) = []"
    if "cl_exists (cs_client s)"
    using that handshake_completed(1,5) single_phase(3) by (fastforce simp: serial_ok_def)
  from cases phase handshake_completed(5) live_cancel_length [of "cl_timers (cs_client s)"] show ?case
    by (elim disjE exE conjE) (auto simp: serial_ok_def pending_def on_stream_none)
next
  case (expire_timeout i s ops)
  from live_finish [OF expire_timeout(3)] expire_timeout(6) show ?case
    by (auto simp: serial_ok_def pending_def on_stream_def)
next
  case (timeout_completed i s d ec ops)
  from live_take [OF timeout_completed(1)] timeout_completed(4) show ?case
    by (auto simp: serial_ok_def pending_def on_stream_def)
next
  case (drop_client s)
  then show ?case by (simp add: serial_ok_def)
qed (simp add: serial_ok_def)

lemma ready_cancel [simp]: "(k, Ready NoError) \<in> set (cancel_ops P ops) \<longleftrightarrow> (k, Ready NoError) \<in> set ops"
  by (force simp: cancel_ops_def split: if_splits)

lemma ready_start [simp]: "(k, Ready ec) \<in> set (start_op k' ops) \<longleftrightarrow> (k, Ready ec) \<in> set ops"
  by (simp add: start_op_def)

lemma deadlines_step:
  "client_step B upgrade suggested u s e t \<Longrightarrow> callbacks_set (cs_client s) \<Longrightarrow> deadlines_ok s \<Longrightarrow> deadlines_ok t"
proof (induction rule: client_step.induct)
  case (resolve_completed i s q ec ops c)
  then have "callbacks_set ((cs_client s)\<lparr>cl_resolves := ops\<rparr>)" by simp
  from resolveHandler_cases [OF this resolve_completed(2)] resolve_completed(4) show ?case
    by (elim disjE exE conjE) (simp_all add: deadlines_ok_def)
next
  case (connect_completed i s k ec ops c)
  then have "callbacks_set ((cs_client s)\<lparr>cl_connects := ops\<rparr>)" by simp
  from connectHandler_cases [OF this connect_completed(2)] connect_completed(4) show ?case
    by (elim disjE exE conjE) (simp_all add: deadlines_ok_def)
next
  case (handshake_completed i s h ec ops remote c)
  then have "callbacks_set ((cs_client s)\<lparr>cl_handshakes := ops\<rparr>)" by simp
  from handshakeHandler_cases [OF this handshake_completed(2)] handshake_completed(4) show ?case
    by (elim disjE exE conjE) (simp_all add: deadlines_ok_def)
next
  case (expire_timeout i s ops)
  obtain d st where at: "cl_timers (cs_client s) ! i = (d, st)" by fastforce
  with expire_timeout(1,3) have "ops = (cl_timers (cs_client s))[i := (d, Ready NoError)]"
    by (auto simp: finish_op_def split: if_splits)
  with expire_timeout(2,5) at show ?case
    by (auto simp: deadlines_ok_def dest!: set_update_subset_insert [THEN subsetD])
next
  case (timeout_completed i s d ec ops)
  with take_op_subset [OF timeout_completed(1)] show ?case by (auto simp: deadlines_ok_def)
next
  case (elapse s n)
  then show ?case by (fastforce simp: deadlines_ok_def)
qed (simp_all add: deadlines_ok_def)

definition serial_inv ::
  "'f boost \<Rightarrow> (string \<Rightarrow> string \<Rightarrow> 'f) \<Rightarrow> (role_type \<Rightarrow> ws_timeout) \<Rightarrow> 'u \<Rightarrow>
   ('c, 'f, ('ctx, 'h, 'w, 'd, 'u) session) client_system \<Rightarrow> bool" where
  "serial_inv B upgrade suggested u s \<longleftrightarrow> client_inv B upgrade suggested u s \<and> serial_ok s \<and> deadlines_ok s"

lemma serial_inv_init: "client_init s \<Longrightarrow> serial_inv B upgrade suggested u s"
  unfolding serial_inv_def
  by (intro conjI client_inv_init)
     (auto simp: client_init_def new_Client_def serial_ok_def deadlines_ok_def pending_def on_stream_def)

lemma serial_inv_step:
  "serial_inv B upgrade suggested u s \<Longrightarrow> serial_step B upgrade suggested u s e t \<Longrightarrow> serial_inv B upgrade suggested u t"
  unfolding serial_inv_def serial_step_def
  by (elim conjE, intro conjI)
     (blast intro: client_inv_step, (simp add: client_inv_def serial_step_ok deadlines_step)+)

interpretation serial: invariant_system client_init "serial_step B upgrade suggested u" "serial_inv B upgrade suggested u"
  for B upgrade suggested u
  by unfold_locales (rule serial_inv_init serial_inv_step; assumption)+

subsection \<open>The timeout of an attempt\<close>

lemma timeout_cancels:
  assumes "serial_ok s" and "cl_exists (cs_client s)"
    and "take_op i (cl_timers (cs_client s)) = Some ((d, NoError), ops)"
    and "t = timeoutHandler NoError ((cs_client s)\<lparr>cl_timers := ops\<rparr>)"
  shows "running (cl_resolves t) = [] \<and> running (cl_connects t) = [] \<and> running (cl_handshakes t) = [] \<and>
     cl_stream t = None"
proof -
  have "live (cl_timers (cs_client s)) \<noteq> []" using live_take [OF assms(3)] by auto
  then have on: "\<forall>k \<in> set (op_keys (cl_connects (cs_client s))). cl_stream (cs_client s) = Some k"
    "\<forall>h \<in> set (op_keys (cl_handshakes (cs_client s))). cl_stream (cs_client s) = Some (hs_stream h)"
    using assms(1,2) by (simp_all add: serial_ok_def on_stream_def del: set_map)
  show ?thesis
  proof (cases "cl_stream (cs_client s)")
    case None
    with on have "set (op_keys (cl_connects (cs_client s))) = {}" "set (op_keys (cl_handshakes (cs_client s))) = {}"
      by auto
    then have "cl_connects (cs_client s) = []" "cl_handshakes (cs_client s) = []" by simp_all
    then show ?thesis
      using None assms(2,4) by (simp add: timeoutHandler_def onConnectionTimeout_def)
  next
    case (Some k)
    have "\<forall>j \<in> set (running (cl_connects (cs_client s))). j = k"
      "\<forall>h \<in> set (running (cl_handshakes (cs_client s))). hs_stream h = k"
      using on Some running_subset by fastforce+
    then show ?thesis
      using Some assms(2,4)
      by (simp add: timeoutHandler_def onConnectionTimeout_def cancel_stream_def filter_empty_conv)
  qed
qed

subsection \<open>A connect that no timeout watches\<close>

definition unwatched :: "nat \<Rightarrow> ('c, 'f, 'x) client \<Rightarrow> bool" where
  "unwatched k c \<longleftrightarrow> cl_connects c = [(k, Running)] \<and> cl_resolves c = [] \<and> cl_handshakes c = [] \<and> live (cl_timers c) = []"

text \<open>Only the network, or another attempt of the user, can change its lot.\<close>

fun left_alone :: "client_event \<Rightarrow> bool" where
  "left_alone (Connect timeout) = False"
| "left_alone (FinishConnect i ec) = False"
| "left_alone e = True"

lemma unwatched_step:
  "client_step B upgrade suggested u s e t \<Longrightarrow> left_alone e \<Longrightarrow> unwatched k (cs_client s) \<Longrightarrow>
   unwatched k (cs_client t) \<and> cl_trace (cs_client t) = cl_trace (cs_client s)"
proof (induction rule: client_step.induct)
  case (connect_completed i s j ec ops c)
  then show ?case by (auto simp: unwatched_def take_op_def split: if_splits)
next
  case (expire_timeout i s ops)
  then have "live ops = []" using live_finish [OF expire_timeout(3)] by (simp add: unwatched_def)
  with expire_timeout show ?case by (simp add: unwatched_def)
next
  case (timeout_completed i s d ec ops)
  then have "failed ec" "live ops = []"
    using live_take [OF timeout_completed(1)] by (auto simp: unwatched_def split: if_splits)
  with timeout_completed show ?case
    by (simp add: unwatched_def timeoutHandler_def onConnectionTimeout_def)
next
  case (drop_client s)
  have "live (cancel_ops (\<lambda>k. True) (cl_timers (cs_client s))) = []"
    using live_cancel_length [of "cl_timers (cs_client s)"] drop_client(3) by (simp add: unwatched_def)
  with drop_client show ?case by (simp add: unwatched_def destroy_Client_def cancel_timer_def)
qed (auto simp: unwatched_def take_op_def finish_op_def)

lemma unwatched_run:
  "run (client_step B upgrade suggested u) s es t \<Longrightarrow> \<forall>e \<in> set es. left_alone e \<Longrightarrow> unwatched k (cs_client s) \<Longrightarrow>
   unwatched k (cs_client t) \<and> cl_trace (cs_client t) = cl_trace (cs_client s)"
proof (induction es arbitrary: s)
  case (Cons e es)
  then obtain v where v: "client_step B upgrade suggested u s e v" "run (client_step B upgrade suggested u) v es t" by auto
  from unwatched_step [OF v(1) _ Cons.prems(3)] Cons.prems(2) Cons.IH [OF v(2)] show ?case by auto
qed simp

text \<open>When the timeout handler runs after the name was resolved and before the handler of the resolver, it
  finds nothing to cancel.\<close>

lemma timeout_before_resolve_handler:
  assumes s: "serial_ok s" and "cl_exists (cs_client s)"
    and "take_op m (cl_timers (cs_client s)) = Some ((d, NoError), ops)"
    and "i < length (cl_resolves (cs_client s))" and "cl_resolves (cs_client s) ! i = (q, Ready NoError)"
  shows "\<exists>t. run (serial_step B upgrade suggested u) s [TimeoutCompleted m, ResolveCompleted i] t \<and>
     unwatched (length (cl_streams (cs_client s))) (cs_client t) \<and> cl_trace (cs_client t) = cl_trace (cs_client s) \<and>
     cs_now t = cs_now s"
proof -
  let ?c = "cs_client s" and ?k = "length (cl_streams (cs_client s))"
  have "length (cl_resolves ?c) \<le> 1" using s assms(2) by (simp add: serial_ok_def pending_def)
  with assms(4,5) have resolves: "cl_resolves ?c = [(q, Ready NoError)]" and "i = 0"
    by (cases "cl_resolves ?c"; simp)+
  with s assms(2) have none: "cl_connects ?c = []" "cl_handshakes ?c = []"
    by (simp_all add: serial_ok_def pending_def)
  have ops: "live ops = []" using s assms(2) live_take [OF assms(3)] by (simp add: serial_ok_def)
  let ?u = "timeoutHandler NoError (?c\<lparr>cl_timers := ops\<rparr>)"
  have u: "cl_resolves ?u = [(q, Ready NoError)]" "cl_connects ?u = []" "cl_handshakes ?u = []"
    using assms(2) resolves none
    by (auto simp: timeoutHandler_def onConnectionTimeout_def cancel_stream_def cancel_ops_def Let_def split: option.splits)
  have step1: "serial_step B upgrade suggested u s (TimeoutCompleted m) (s\<lparr>cs_client := ?u\<rparr>)"
    unfolding serial_step_def using timeout_completed [OF assms(3)] by simp
  have take: "take_op i (cl_resolves (cs_client (s\<lparr>cs_client := ?u\<rparr>))) = Some ((q, NoError), [])"
    by (simp add: u \<open>i = 0\<close>)
  let ?ws = "\<lparr>write_buffer_bytes = 65536, read_message_max = 0x10000000\<rparr>"
  let ?v = "?u\<lparr>cl_resolves := [], cl_streams := cl_streams ?c @ [?ws], cl_stream := Some ?k, cl_connects := [(?k, Running)]\<rparr>"
  have "leaves (resolveHandler NoError (?u\<lparr>cl_resolves := []\<rparr>)) ?v"
    using assms(2) u by (simp add: resolveHandler_def onResolve_def start_op_def Let_def)
  then have "serial_step B upgrade suggested u (s\<lparr>cs_client := ?u\<rparr>) (ResolveCompleted i) (s\<lparr>cs_client := ?u\<rparr>\<lparr>cs_client := ?v\<rparr>)"
    unfolding serial_step_def by (intro conjI resolve_completed [OF take]) simp_all
  with step1 have "run (serial_step B upgrade suggested u) s [TimeoutCompleted m, ResolveCompleted i] (s\<lparr>cs_client := ?u\<rparr>\<lparr>cs_client := ?v\<rparr>)"
    by (simp only: run.simps) blast
  moreover have "unwatched ?k ?v" "cl_trace ?v = cl_trace ?c" using u ops by (simp_all add: unwatched_def)
  ultimately show ?thesis by (intro exI [of _ "s\<lparr>cs_client := ?u\<rparr>\<lparr>cs_client := ?v\<rparr>"]) (simp del: run.simps)
qed

end
