(* ===== verification/Client_Properties.thy ===== *)
theory Client_Properties
  imports Client_Serial
begin

section \<open>Properties of the client\<close>

subsection \<open>Concrete runs\<close>

type_synonym example_client =
  "(nat, (http_field \<times> string) list, (nat, unit, nat, nat, unit) session) client_system"

abbreviation example_step where
  "example_step \<equiv> client_step rfc_boost (\<lambda>host path. [(OtherField ''Host'', host)])
     (\<lambda>role. \<lparr>handshake_timeout = 30000, idle_timeout = None, keep_alive_pings = False\<rparr>) ()"

definition csystem0 :: example_client where
  "csystem0 = \<lparr>cs_client = new_Client ''localhost'' ''7420'' ''/'' (Authentication_basic ''jure'' ''jure123'')
                 (Fn 1) (Fn 2) (Fn 3) (Fn 4), cs_now = 0, cs_attempts = 0\<rparr>"

lemma csystem0_init: "client_init csystem0"
  unfolding client_init_def csystem0_def by blast

lemmas client_run_defs =
  client_step_simps client_ops start_op_def cancel_ops_def finish_op_def take_op_def Let_def

definition decorated :: "(http_field \<times> string) list" where
  "decorated = [(AuthorizationField, ''Basic anVyZTpqdXJlMTIz''),
     (UserAgentField, ''Boost.Beast openDAQ-streaming-client''), (OtherField ''Host'', ''localhost'')]"

lemma decorated_request:
  "decorator rfc_boost (Authentication_basic ''jure'' ''jure123'') [(OtherField ''Host'', ''localhost'')] = Some decorated"
  by code_simp

text \<open>An attempt whose name is resolved and whose connection is made: the handshake is running.\<close>

definition client1 ::
  "(nat, (http_field \<times> string) list, (nat, unit, nat, nat, unit) session) client" where
  "client1 = \<lparr>cl_host = ''localhost'', cl_port = ''7420'', cl_path = ''/'',
     cl_authentication = Authentication_basic ''jure'' ''jure123'', cl_stream = Some 0,
     cl_onNewSession = Fn 1, cl_onResolveFail = Fn 2, cl_onConnectFail = Fn 3, cl_onHandshakeFail = Fn 4,
     cl_exists = True, cl_streams = [\<lparr>write_buffer_bytes = 65536, read_message_max = 0x10000000\<rparr>],
     cl_timers = [(1000, Running)], cl_resolves = [], cl_connects = [],
     cl_handshakes = [(\<lparr>hs_stream = 0, hs_host = ''localhost'', hs_target = ''/'', hs_request = decorated\<rparr>, Running)],
     cl_trace = []\<rparr>"

definition csystem1 :: example_client where
  "csystem1 = \<lparr>cs_client = client1, cs_now = 0, cs_attempts = 1\<rparr>"

lemma run_csystem1:
  "run example_step csystem0
     [Connect 1000, FinishResolve 0 NoError, ResolveCompleted 0, FinishConnect 0 NoError, ConnectCompleted 0] csystem1"
  by (simp add: csystem0_def csystem1_def client1_def client_run_defs decorated_request)

lemma reachable_csystem1: "reachable client_init example_step csystem1"
  by (rule run_reachable [OF reachable_init [of client_init, OF csystem0_init] run_csystem1])

text \<open>The handshake succeeds: a session is handed out and the timeout is cancelled.\<close>

definition csystem2 :: example_client where
  "csystem2 = csystem1\<lparr>cs_client := client1\<lparr>cl_stream := None, cl_timers := [(1000, Ready OperationAborted)],
     cl_handshakes := [], cl_trace := [NewSession 1 0 (new_Session
       (\<lambda>role. \<lparr>handshake_timeout = 30000, idle_timeout = None, keep_alive_pings = False\<rparr>) () None client_role ''::1'' 7420)]\<rparr>\<rparr>"

lemma run_csystem2:
  "run example_step csystem1 [FinishHandshake 0 NoError, HandshakeCompleted 0 (Inr (''::1'', 7420))] csystem2"
  by (simp add: csystem1_def csystem2_def client1_def client_run_defs)

lemma reachable_csystem2: "reachable client_init example_step csystem2"
  by (rule run_reachable [OF reachable_csystem1 run_csystem2])

subsection \<open>Safety of the handlers\<close>

context base64_codec
begin

lemma decorator_total: "\<exists>req'. decorator B auth req = Some req'"
  by (cases "auth_type auth")
     (simp_all add: decorator_def getType_def getEncodedHeader.simps Base64_encode_total Let_def)

end

context http_fields
begin

lemma decorated_fields:
  assumes "decorator B auth req = Some r"
  shows "field_at B r UserAgentField = beast_version B @ '' openDAQ-streaming-client''"
    and "auth_type auth = Anonymous \<Longrightarrow> field_count B r AuthorizationField = field_count B req AuthorizationField"
    and "auth_type auth = Basic \<Longrightarrow> field_count B r AuthorizationField = 1 \<and>
           getEncodedHeader B auth = Some (field_at B r AuthorizationField)"
proof -
  let ?req1 = "field_set B req UserAgentField (beast_version B @ '' openDAQ-streaming-client'')"
  have "auth_type auth = Anonymous \<and> r = ?req1 \<or> auth_type auth = Basic \<and>
      (\<exists>header. getEncodedHeader B auth = Some header \<and> r = field_set B ?req1 AuthorizationField header)"
    using assms by (cases "auth_type auth") (auto simp: decorator_def getType_def Let_def)
  then show "field_at B r UserAgentField = beast_version B @ '' openDAQ-streaming-client''"
    and "auth_type auth = Anonymous \<Longrightarrow> field_count B r AuthorizationField = field_count B req AuthorizationField"
    and "auth_type auth = Basic \<Longrightarrow> field_count B r AuthorizationField = 1 \<and>
           getEncodedHeader B auth = Some (field_at B r AuthorizationField)"
    by (auto simp: count_set at_set count_set_other at_set_other)
qed

end

lemma client_handlers_return:
  assumes "callbacks_set c" and "\<exists>req. decorator B (cl_authentication c) (upgrade (cl_host c) (cl_path c)) = Some req"
  shows "\<exists>c'. resolveHandler ec c = Done c'" and "\<exists>c'. connectHandler B upgrade ec k c = Done c'"
    and "\<exists>c'. handshakeHandler suggested u remote ec k c = Done c'"
proof -
  obtain ns rf cf hf where "cl_onNewSession c = Fn ns" "cl_onResolveFail c = Fn rf" "cl_onConnectFail c = Fn cf"
    "cl_onHandshakeFail c = Fn hf" using assms(1) by (auto simp: callbacks_set_def)
  then show "\<exists>c'. resolveHandler ec c = Done c'" and "\<exists>c'. connectHandler B upgrade ec k c = Done c'"
    and "\<exists>c'. handshakeHandler suggested u remote ec k c = Done c'"
    using assms(2)
    by (auto simp: resolveHandler_def onResolve_def connectHandler_def onConnect_def handshakeHandler_def
        onUpgradeConnection_c_def createSession_c_def cancel_timer_def Let_def split: sum.splits)
qed

subsection \<open>Properties\<close>

text \<open>A client that was dropped reports nothing any more.\<close>

lemma dropped_client_step:
  "client_step B upgrade suggested u s e t \<Longrightarrow> \<not> cl_exists (cs_client s) \<Longrightarrow>
   \<not> cl_exists (cs_client t) \<and> cl_trace (cs_client t) = cl_trace (cs_client s)"
  by (induction rule: client_step.induct)
     (simp_all add: resolveHandler_def connectHandler_def handshakeHandler_def timeoutHandler_def)

lemma dropped_client_run:
  "run (client_step B upgrade suggested u) s es t \<Longrightarrow> \<not> cl_exists (cs_client s) \<Longrightarrow>
   cl_trace (cs_client t) = cl_trace (cs_client s)"
proof (induction es arbitrary: s)
  case (Cons e es)
  then obtain v where v: "client_step B upgrade suggested u s e v" "run (client_step B upgrade suggested u) v es t" by auto
  from dropped_client_step [OF v(1) Cons.prems(2)] Cons.IH [OF v(2)] show ?case by simp
qed simp

text \<open>C11: Every connection attempt has one outcome at most: a session, one failure callback, or the
  endpoint that could not be read, which is only logged (no callback of the client is empty). As long as the client exists, no attempt is
  lost either: the number of calls of \<open>connect\<close> is the number of attempts in progress and of outcomes.
  Once it was dropped, no outcome is ever reported.\<close>

theorem attempt_has_one_outcome:
  assumes "reachable client_init (client_step B upgrade suggested u) s"
  shows "pending (cs_client s) + length (cl_trace (cs_client s)) \<le> cs_attempts s \<and>
     (cl_exists (cs_client s) \<longrightarrow> cs_attempts s = pending (cs_client s) + length (cl_trace (cs_client s))) \<and>
     (\<not> cl_exists (cs_client s) \<longrightarrow> (\<forall>es t. run (client_step B upgrade suggested u) s es t \<longrightarrow>
        cl_trace (cs_client t) = cl_trace (cs_client s)))"
proof -
  have "attempts_ok s" using connecting.reachable_inv [OF assms] by (simp add: client_inv_def)
  then show ?thesis
    using dropped_client_run [of B upgrade suggested u s] by (auto simp: attempts_ok_def split: if_splits)
qed

theorem attempt_has_one_outcome_witness:
  "cs_attempts csystem2 = pending (cs_client csystem2) + length (cl_trace (cs_client csystem2)) \<and>
   pending (cs_client csystem2) = 0"
  using attempt_has_one_outcome [OF reachable_csystem2]
  by (simp add: csystem2_def csystem1_def client1_def pending_def)

text \<open>C34: Provided that none of the four callbacks the user gave is empty, every completion handler of the
  client returns, without an exception and without writing past the buffer of the Base64 encoder.\<close>

theorem client_always_returns:
  assumes "base64_codec B" and "reachable client_init (client_step B upgrade suggested u) s"
  shows "\<not> client_bad B upgrade suggested u s e"
proof -
  have cb: "callbacks_set (cs_client s)"
    using connecting.reachable_inv [OF assms(2)] by (simp add: client_inv_def)
  note ret = client_handlers_return [OF _ base64_codec.decorator_total [OF assms(1)]]
  show ?thesis
    using cb by (cases e) (auto split: option.splits intro!: ret)
qed

text \<open>A connect that has succeeded, whose handler encodes the credentials into the request.\<close>

definition csystem_connected :: example_client where
  "csystem_connected = csystem1\<lparr>cs_client := client1\<lparr>cl_connects := [(0, Ready NoError)], cl_handshakes := []\<rparr>\<rparr>"

lemma run_csystem_connected:
  "run example_step csystem0 [Connect 1000, FinishResolve 0 NoError, ResolveCompleted 0, FinishConnect 0 NoError]
     csystem_connected"
  by (simp add: csystem0_def csystem_connected_def csystem1_def client1_def client_run_defs)

theorem client_always_returns_witness:
  "\<not> client_bad rfc_boost (\<lambda>host path. [(OtherField ''Host'', host)])
     (\<lambda>role. \<lparr>handshake_timeout = 30000, idle_timeout = None, keep_alive_pings = False\<rparr>) () csystem_connected
     (ConnectCompleted 0) \<and>
   take_op 0 (cl_connects (cs_client csystem_connected)) = Some ((0, NoError), [])"
proof
  show "\<not> client_bad rfc_boost (\<lambda>host path. [(OtherField ''Host'', host)])
     (\<lambda>role. \<lparr>handshake_timeout = 30000, idle_timeout = None, keep_alive_pings = False\<rparr>) () csystem_connected
     (ConnectCompleted 0)"
    by (rule client_always_returns [OF rfc.base64_codec_axioms
        run_reachable [OF reachable_init [of client_init, OF csystem0_init] run_csystem_connected]])
  show "take_op 0 (cl_connects (cs_client csystem_connected)) = Some ((0, NoError), [])"
    by (simp add: csystem_connected_def)
qed

text \<open>With an empty callback the handler that calls it throws, out of the io context.\<close>

theorem empty_callback_throws:
  assumes "cl_exists c" and "failed ec" and "cl_onResolveFail c = NullFn"
  shows "\<exists>x c'. resolveHandler ec c = Thrown x c'"
  using assms by (simp add: resolveHandler_def onResolve_def)

theorem empty_callback_throws_witness:
  "\<exists>x c'. resolveHandler (OtherError 1) (client1\<lparr>cl_onResolveFail := NullFn\<rparr>) = Thrown x c'"
  by (rule empty_callback_throws) (simp_all add: client1_def)

text \<open>C24: When the time of an attempt is up, whatever phase is running is cancelled: nothing of the attempt
  stays running, and the client lets go of its stream. This is of an existing client, none of whose
  callbacks is empty, that makes its
  attempts one after the other, as many as its user likes: it connects again only when no attempt is in
  progress and no expired timeout of an earlier one is queued. (Attempts that overlap share the one
  timer and the one stream, so that some of them escape it.)\<close>

theorem timeout_cancels_attempt:
  assumes "reachable client_init (serial_step B upgrade suggested u) s" and "cl_exists (cs_client s)"
    and "take_op i (cl_timers (cs_client s)) = Some ((d, NoError), ops)"
    and "t = timeoutHandler NoError ((cs_client s)\<lparr>cl_timers := ops\<rparr>)"
  shows "d \<le> cs_now s \<and> running (cl_resolves t) = [] \<and> running (cl_connects t) = [] \<and> running (cl_handshakes t) = [] \<and>
     cl_stream t = None"
proof -
  have s: "serial_ok s" "deadlines_ok s" using serial.reachable_inv [OF assms(1)] by (simp_all add: serial_inv_def)
  show ?thesis using timeout_cancels [OF s(1) assms(2-4)] s(2) take_op_in [OF assms(3)] by (auto simp: deadlines_ok_def)
qed

text \<open>The second attempt of a client: the first one could not resolve the name; the handshake of the
  second one is running when its time is up.\<close>

definition retried :: example_client where
  "retried = \<lparr>cs_client = client1\<lparr>cl_timers := [(1000, Ready OperationAborted), (1500, Ready NoError)],
     cl_trace := [ResolveFailed 2 (OtherError 1)]\<rparr>, cs_now = 1500, cs_attempts = 2\<rparr>"

abbreviation example_serial where
  "example_serial \<equiv> serial_step rfc_boost (\<lambda>host path. [(OtherField ''Host'', host)])
     (\<lambda>role. \<lparr>handshake_timeout = 30000, idle_timeout = None, keep_alive_pings = False\<rparr>) ()"

lemma run_retried:
  "run example_serial csystem0
     [Connect 1000, FinishResolve 0 (OtherError 1), ResolveCompleted 0, Elapse 500, Connect 1000,
      FinishResolve 0 NoError, ResolveCompleted 0, FinishConnect 0 NoError, ConnectCompleted 0, Elapse 1000, ExpireTimeout 1] retried"
  by (simp add: serial_step_def pending_def csystem0_def retried_def client1_def client_run_defs decorated_request)

lemma reachable_retried: "reachable client_init example_serial retried"
  by (rule run_reachable [OF reachable_init [of client_init, OF csystem0_init] run_retried])

theorem timeout_cancels_attempt_witness:
  "running (cl_handshakes (cs_client retried)) \<noteq> [] \<and>
   running (cl_handshakes (timeoutHandler NoError ((cs_client retried)\<lparr>cl_timers := [(1000, Ready OperationAborted)]\<rparr>))) = []"
  using timeout_cancels_attempt [OF reachable_retried, of 1 1500 "[(1000, Ready OperationAborted)]"]
  by (simp add: retried_def client1_def take_op_def running_def)

text \<open>C23: A session that was handed out is out of reach of the client: it is a fresh client-side session
  without a user context, and the only stream the client can cancel or reset is not the session's.\<close>

theorem session_is_handed_over:
  assumes "reachable client_init (client_step B upgrade suggested u) s"
    and "NewSession cb k x \<in> set (cl_trace (cs_client s))"
  shows "cl_stream (cs_client s) \<noteq> Some k \<and>
     (\<exists>address port. x = new_Session suggested u None client_role address port)"
  using assms by (rule handed_over_fresh)

theorem session_is_handed_over_witness:
  "cl_stream (cs_client csystem2) \<noteq> Some 0"
  using session_is_handed_over [OF reachable_csystem2]
  by (simp add: csystem2_def)

text \<open>The handshake request goes to the client's host and path, names the client, and carries the
  authorization header of the client's credentials unless they are anonymous.\<close>

theorem handshake_carries_credentials:
  assumes "http_fields B" and "reachable client_init (client_step B upgrade suggested u) s"
    and "h \<in> set (op_keys (cl_handshakes (cs_client s)))"
  shows "hs_host h = cl_host (cs_client s) \<and> hs_target h = cl_path (cs_client s) \<and>
     field_at B (hs_request h) UserAgentField = beast_version B @ '' openDAQ-streaming-client'' \<and>
     (case getType (cl_authentication (cs_client s)) of
        Anonymous \<Rightarrow> field_count B (hs_request h) AuthorizationField =
          field_count B (upgrade (cl_host (cs_client s)) (cl_path (cs_client s))) AuthorizationField
      | Basic \<Rightarrow> field_count B (hs_request h) AuthorizationField = 1 \<and>
          getEncodedHeader B (cl_authentication (cs_client s)) = Some (field_at B (hs_request h) AuthorizationField))"
proof -
  have "requests_ok B upgrade (cs_client s)"
    using connecting.reachable_inv [OF assms(2)] by (simp add: client_inv_def)
  with assms(3) have h: "hs_host h = cl_host (cs_client s)" "hs_target h = cl_path (cs_client s)"
    "decorator B (cl_authentication (cs_client s)) (upgrade (cl_host (cs_client s)) (cl_path (cs_client s)))
       = Some (hs_request h)"
    by (auto simp: requests_ok_def)
  then show ?thesis
    using http_fields.decorated_fields [OF assms(1) h(3)]
    by (cases "auth_type (cl_authentication (cs_client s))") (simp_all add: getType_def)
qed

theorem handshake_carries_credentials_witness:
  "field_at rfc_boost decorated AuthorizationField = ''Basic anVyZTpqdXJlMTIz''"
  using handshake_carries_credentials [OF rfc.http_fields_axioms reachable_csystem1,
      of "\<lparr>hs_stream = 0, hs_host = ''localhost'', hs_target = ''/'', hs_request = decorated\<rparr>"]
  by (simp add: csystem1_def client1_def authentication_ops rfc_boost_def decorated_def)

text \<open>An aborted handshake counts as a failed connection, any other failure as a failed handshake; both
  stop the timeout.\<close>

theorem handshake_failure_classified:
  assumes "failed ec" and "cl_exists c" and "cl_onConnectFail c = Fn cf" and "cl_onHandshakeFail c = Fn hf"
  shows "handshakeHandler suggested u remote ec k c =
     Done (client_emit (if ec = OperationAborted then ConnectFailed cf ec else HandshakeFailed hf ec) (cancel_timer c)) \<and>
     running (cl_timers (cancel_timer c)) = []"
  using assms by (simp add: handshakeHandler_def onUpgradeConnection_c_def Let_def)

theorem handshake_failure_classified_witness:
  "handshakeHandler (\<lambda>role. \<lparr>handshake_timeout = 30000, idle_timeout = None, keep_alive_pings = False\<rparr>) () (Inl OtherException) OperationAborted 0 client1 =
     Done (client_emit (ConnectFailed 3 OperationAborted) (cancel_timer client1))"
  using handshake_failure_classified [of OperationAborted client1 3 4] by (simp add: client1_def)

text \<open>C37: The timeout misses an attempt whose resolving has succeeded when the timeout handler runs but
  whose resolve handler has not run yet, whatever came before (attempts of an existing client one after
  the other, no callback empty): the two
  handlers run, the resolve handler starts a connect, and from then on, however much time passes and
  whatever else happens short of another attempt, this connect stays running and no outcome is
  reported until the network itself ends it, although the time of the attempt was up.\<close>

theorem timeout_misses_queued_resolve:
  assumes "reachable client_init (serial_step B upgrade suggested u) s" and "cl_exists (cs_client s)"
    and "take_op m (cl_timers (cs_client s)) = Some ((d, NoError), ops)"
    and "i < length (cl_resolves (cs_client s))" and "cl_resolves (cs_client s) ! i = (q, Ready NoError)"
  shows "d \<le> cs_now s \<and>
    (\<exists>t. run (serial_step B upgrade suggested u) s [TimeoutCompleted m, ResolveCompleted i] t \<and>
       (\<forall>es v. run (client_step B upgrade suggested u) t es v \<longrightarrow> (\<forall>e \<in> set es. left_alone e) \<longrightarrow>
          running (cl_connects (cs_client v)) = [length (cl_streams (cs_client s))] \<and>
          cl_trace (cs_client v) = cl_trace (cs_client s)))"
proof
  have s: "serial_ok s" "deadlines_ok s" using serial.reachable_inv [OF assms(1)] by (simp_all add: serial_inv_def)
  show "d \<le> cs_now s" using s(2) take_op_in [OF assms(3)] by (simp add: deadlines_ok_def)
  from timeout_before_resolve_handler [OF s(1) assms(2-5), of B upgrade suggested u] obtain t where
    t: "run (serial_step B upgrade suggested u) s [TimeoutCompleted m, ResolveCompleted i] t"
      "unwatched (length (cl_streams (cs_client s))) (cs_client t)" "cl_trace (cs_client t) = cl_trace (cs_client s)"
    by blast
  have "running (cl_connects (cs_client v)) = [length (cl_streams (cs_client s))] \<and>
      cl_trace (cs_client v) = cl_trace (cs_client s)"
    if "run (client_step B upgrade suggested u) t es v" "\<forall>e \<in> set es. left_alone e" for es v
    using unwatched_run [OF that t(2)] t(3) by (simp add: unwatched_def running_def)
  with t(1) show "\<exists>t. run (serial_step B upgrade suggested u) s [TimeoutCompleted m, ResolveCompleted i] t \<and>
       (\<forall>es v. run (client_step B upgrade suggested u) t es v \<longrightarrow> (\<forall>e \<in> set es. left_alone e) \<longrightarrow>
          running (cl_connects (cs_client v)) = [length (cl_streams (cs_client s))] \<and>
          cl_trace (cs_client v) = cl_trace (cs_client s))" by blast
qed

definition late_resolve :: example_client where
  "late_resolve = csystem0\<lparr>cs_client := (cs_client csystem0)\<lparr>cl_timers := [(1000, Ready NoError)],
     cl_resolves := [((''localhost'', ''7420''), Ready NoError)]\<rparr>, cs_now := 1000, cs_attempts := 1\<rparr>"

lemma run_late_resolve:
  "run example_serial csystem0 [Connect 1000, FinishResolve 0 NoError, Elapse 1000, ExpireTimeout 0] late_resolve"
  by (simp add: serial_step_def pending_def csystem0_def late_resolve_def client_run_defs)

text \<open>An hour later the connect is still running.\<close>

theorem timeout_misses_queued_resolve_witness:
  "\<exists>t v. run example_serial late_resolve [TimeoutCompleted 0, ResolveCompleted 0] t \<and> run example_step t [Elapse 3600000] v \<and>
     running (cl_connects (cs_client v)) = [0]"
proof -
  have exists: "cl_exists (cs_client late_resolve)" and streams: "cl_streams (cs_client late_resolve) = []"
    and timer: "take_op 0 (cl_timers (cs_client late_resolve)) = Some ((1000, NoError), [])"
    and resolve: "0 < length (cl_resolves (cs_client late_resolve))"
      "cl_resolves (cs_client late_resolve) ! 0 = ((''localhost'', ''7420''), Ready NoError)"
    by (simp_all add: late_resolve_def csystem0_def new_Client_def)
  have late: "reachable client_init example_serial late_resolve"
    by (rule run_reachable [OF reachable_init [of client_init, OF csystem0_init] run_late_resolve])
  obtain t where t: "run example_serial late_resolve [TimeoutCompleted 0, ResolveCompleted 0] t"
    "\<forall>es v. run example_step t es v \<longrightarrow> (\<forall>e \<in> set es. left_alone e) \<longrightarrow>
       running (cl_connects (cs_client v)) = [length (cl_streams (cs_client late_resolve))] \<and>
       cl_trace (cs_client v) = cl_trace (cs_client late_resolve)"
    using timeout_misses_queued_resolve [OF late exists timer resolve] by blast
  let ?v = "t\<lparr>cs_now := cs_now t + 3600000\<rparr>"
  have v: "run example_step t [Elapse 3600000] ?v" by (simp add: client_step_simps)
  moreover have "\<forall>e \<in> set [Elapse 3600000]. left_alone e" by simp
  with t(2) v have "running (cl_connects (cs_client ?v)) = [length (cl_streams (cs_client late_resolve))]" by blast
  then have "running (cl_connects (cs_client ?v)) = [0]" by (simp add: streams)
  ultimately show ?thesis using t(1) by blast
qed

end
