(* ===== verification/Server.thy ===== *)
theory Server
  imports Client
begin

section \<open>Server\<close>

text \<open>
  \<open>src/server.cpp\<close>. A server listens on two acceptors, one for each version of IP. A connection
  that is accepted sends an HTTP request, which is read into a buffer and a request object that
  the server has once, for all connections. The request's authorization header is parsed, the
  user's callback decides, and a request that is let in is upgraded to a websocket; the session of
  the stream is handed to the user with the context that the callback gave.

  Parameters: the results of the operating system's calls on an acceptor (\<open>net\<close>), the HTTP parser
  of Beast (\<open>parse\<close>: from the buffered bytes the request and the bytes after it, or \<open>None\<close> when the
  request is not complete; it parses what the buffer holds before it reads from the connection),
  the user's callback (\<open>authenticate\<close>) and what the stream says when the upgrade is done. Beast
  stores the parsed request and calls the handler in one go. Closing an acceptor cancels its
  outstanding accept.
\<close>

subsection \<open>State\<close>

datatype family = V4 | V6

instantiation family :: enum
begin

definition "enum_family = [V4, V6]"

definition "enum_all_family P \<longleftrightarrow> P V4 \<and> P V6"

definition "enum_ex_family P \<longleftrightarrow> P V4 \<or> P V6"

instance
proof
  show "UNIV = set (enum_class.enum :: family list)"
    by (auto simp: enum_family_def intro: family.exhaust)
  show "enum_class.enum_all P \<longleftrightarrow> Ball UNIV P" for P :: "family \<Rightarrow> bool"
    by (simp add: enum_all_family_def) (metis family.exhaust)
  show "enum_class.enum_ex P \<longleftrightarrow> Bex UNIV P" for P :: "family \<Rightarrow> bool"
    by (simp add: enum_ex_family_def) (metis family.exhaust)
qed (simp add: enum_family_def)

end

lemma ex_family: "(\<exists>fam. P fam) \<longleftrightarrow> P V4 \<or> P V6"
  using enum_ex_family_def [of P] by simp

lemma all_family: "(\<forall>fam. P fam) \<longleftrightarrow> P V4 \<and> P V6"
  using enum_all_family_def [of P] by simp

record net_results =
  open_result :: error_code
  v6_only_result :: error_code
  reuse_address_result :: error_code
  bind_result :: error_code
  listen_result :: error_code

record ('f, 'ctx) upgrade =
  up_stream :: nat
  up_context :: "'ctx option"
  up_request :: 'f

datatype ('c, 'x) server_effect =
    AuthenticateCalled nat authentication
  | ServerSession 'c nat 'x

record ('c, 'f, 'ctx, 'x) server =
  sv_onNewSession :: "'c callback"
  sv_isOpen :: "family \<Rightarrow> bool"
  sv_acceptBuffer :: "byte list"
  sv_acceptRequest :: 'f
  sv_exists :: bool
  sv_streams :: "ws_settings list"
  sv_accepts :: "family ops"
  sv_reads :: "(family \<times> nat) ops"
  sv_upgrades :: "('f, 'ctx) upgrade ops"
  sv_trace :: "('c, 'x) server_effect list"

definition server_emit ::
  "('c, 'x) server_effect \<Rightarrow> ('c, 'f, 'ctx, 'x) server \<Rightarrow> ('c, 'f, 'ctx, 'x) server" where
  "server_emit e s = s\<lparr>sv_trace := sv_trace s @ [e]\<rparr>"

definition new_Server :: "'f \<Rightarrow> 'c callback \<Rightarrow> ('c, 'f, 'ctx, 'x) server" where
  "new_Server empty_request onNewSessionCallback =
     \<lparr>sv_onNewSession = onNewSessionCallback, sv_isOpen = (\<lambda>fam. False), sv_acceptBuffer = [],
      sv_acceptRequest = empty_request, sv_exists = True, sv_streams = [], sv_accepts = [], sv_reads = [],
      sv_upgrades = [], sv_trace = []\<rparr>"

subsection \<open>Starting and stopping\<close>

definition startTcpAccept :: "family \<Rightarrow> ('c, 'f, 'ctx, 'x) server \<Rightarrow> ('c, 'f, 'ctx, 'x) server" where
  "startTcpAccept tcpAcceptor s =
     (if \<not> sv_isOpen s tcpAcceptor then s else s\<lparr>sv_accepts := start_op tcpAcceptor (sv_accepts s)\<rparr>)"

definition close_acceptor :: "family \<Rightarrow> ('c, 'f, 'ctx, 'x) server \<Rightarrow> ('c, 'f, 'ctx, 'x) server" where
  "close_acceptor fam s =
     s\<lparr>sv_isOpen := (sv_isOpen s)(fam := False), sv_accepts := cancel_ops (\<lambda>k. k = fam) (sv_accepts s)\<rparr>"

definition stopTcpAccept :: "family \<Rightarrow> ('c, 'f, 'ctx, 'x) server \<Rightarrow> ('c, 'f, 'ctx, 'x) server" where
  "stopTcpAccept tcpAcceptor s = (if sv_isOpen s tcpAcceptor then close_acceptor tcpAcceptor s else s)"

definition stop :: "('c, 'f, 'ctx, 'x) server \<Rightarrow> ('c, 'f, 'ctx, 'x) server" where
  "stop s = stopTcpAccept V6 (stopTcpAccept V4 s)"

definition destroy_Server :: "('c, 'f, 'ctx, 'x) server \<Rightarrow> ('c, 'f, 'ctx, 'x) server" where
  "destroy_Server s = (stop s)\<lparr>sv_exists := False\<rparr>"

text \<open>The calls of the \<open>try\<close> block, in order; the first one that fails throws.\<close>

definition setup_calls :: "family \<Rightarrow> net_results \<Rightarrow> error_code list" where
  "setup_calls fam net =
     (case fam of
        V4 \<Rightarrow> [reuse_address_result net, bind_result net, listen_result net]
      | V6 \<Rightarrow> [v6_only_result net, reuse_address_result net, bind_result net, listen_result net])"

fun first_failure :: "error_code list \<Rightarrow> error_code" where
  "first_failure [] = NoError"
| "first_failure (ec # ecs) = (if failed ec then ec else first_failure ecs)"

text \<open>One acceptor: the error code left, whether it listens, and the server.\<close>

definition initAcceptor ::
  "family \<Rightarrow> net_results \<Rightarrow> ('c, 'f, 'ctx, 'x) server \<Rightarrow> error_code \<times> bool \<times> ('c, 'f, 'ctx, 'x) server" where
  "initAcceptor fam net s =
     (let ec = open_result net
      in if \<not> failed ec
         then let s1 = s\<lparr>sv_isOpen := (sv_isOpen s)(fam := True)\<rparr>;
                  e = first_failure (setup_calls fam net)
              in if failed e then (e, False, close_acceptor fam s1) else (ec, True, startTcpAccept fam s1)
         else (ec, False, s))"

definition start ::
  "(16 word \<Rightarrow> family \<Rightarrow> net_results) \<Rightarrow> 16 word \<Rightarrow> ('c, 'f, 'ctx, 'x) server \<Rightarrow>
   error_code \<times> ('c, 'f, 'ctx, 'x) server" where
  "start net port s =
     (let (ec4, hasV4, s1) = initAcceptor V4 (net port V4) s;
          (ec, hasV6, s2) = initAcceptor V6 (net port V6) s1;
          hasTcpAcceptor = (hasV4 \<or> hasV6)
      in if \<not> hasTcpAcceptor then (ec, s2) else (NoError, s2))"

subsection \<open>Accepting a connection\<close>

definition onAcceptTcpConnection ::
  "family \<Rightarrow> error_code \<Rightarrow> ('c, 'f, 'ctx, 'x) server \<Rightarrow> ('c, 'f, 'ctx, 'x) server" where
  "onAcceptTcpConnection tcpAcceptor ec s =
     (if failed ec
      then if ec = OperationAborted then s else startTcpAccept tcpAcceptor s
      else let k = length (sv_streams s);
               wsStream = \<lparr>write_buffer_bytes = 65536, read_message_max = 0x10000000\<rparr>
           in s\<lparr>sv_streams := sv_streams s @ [wsStream], sv_reads := start_op (tcpAcceptor, k) (sv_reads s)\<rparr>)"

text \<open>What the request says of who sends it; \<open>None\<close> is a write past a buffer.\<close>

definition request_authentication :: "'f boost \<Rightarrow> 'f \<Rightarrow> authentication option" where
  "request_authentication B request =
     (if field_count B request AuthorizationField \<noteq> 0
      then case fromHeader B (field_at B request AuthorizationField) of
             None \<Rightarrow> None
           | Some (Inl x) \<Rightarrow> Some Authentication_default
           | Some (Inr a) \<Rightarrow> Some a
      else Some Authentication_default)"

definition response_decorator :: "'f boost \<Rightarrow> 'f \<Rightarrow> 'f" where
  "response_decorator B res = field_set B res ServerField (beast_version B @ '' openDAQ-streaming-server'')"

text \<open>\<open>boost_compatibility_utils::async_accept\<close> starts the upgrade of a stream; the completion handler
  captures the user context.\<close>

definition async_accept ::
  "nat \<Rightarrow> 'ctx option \<Rightarrow> 'f \<Rightarrow> ('f, 'ctx) upgrade ops \<Rightarrow> ('f, 'ctx) upgrade ops" where
  "async_accept websocket userContext request ops =
     start_op \<lparr>up_stream = websocket, up_context = userContext, up_request = request\<rparr> ops"

declare async_accept_def [simp]

definition onReadAcceptRequest ::
  "'f boost \<Rightarrow> (authentication \<Rightarrow> bool \<times> 'ctx option) \<Rightarrow> error_code \<Rightarrow> nat \<Rightarrow> 'f \<Rightarrow>
   ('c, 'f, 'ctx, 'x) server \<Rightarrow> ('c, 'f, 'ctx, 'x) server outcome" where
  "onReadAcceptRequest B authenticate ec wsStream request s =
     (if failed ec then Done s
      else case request_authentication B request of
             None \<Rightarrow> Undefined
           | Some auth \<Rightarrow>
               let (accepted, userContext) = authenticate auth;
                   s = server_emit (AuthenticateCalled wsStream auth) s
               in if \<not> accepted then Done s
                  else Done (s\<lparr>sv_upgrades := async_accept wsStream userContext request (sv_upgrades s)\<rparr>))"

definition createSession_s ::
  "(role_type \<Rightarrow> ws_timeout) \<Rightarrow> 'u \<Rightarrow> 'ctx option \<Rightarrow> string \<Rightarrow> 16 word \<Rightarrow> ('ctx, 'h, 'w, 'd, 'u) session" where
  "createSession_s suggested u userContext endpointAddress endpointPortNumber =
     new_Session suggested u userContext server_role endpointAddress endpointPortNumber"

definition onUpgradeConnection_s ::
  "(role_type \<Rightarrow> ws_timeout) \<Rightarrow> 'u \<Rightarrow> bool \<Rightarrow> exn + string \<times> 16 word \<Rightarrow> error_code \<Rightarrow> nat \<Rightarrow> 'ctx option \<Rightarrow>
   ('c, 'f, 'ctx, ('ctx, 'h, 'w, 'd, 'u) session) server \<Rightarrow>
   ('c, 'f, 'ctx, ('ctx, 'h, 'w, 'd, 'u) session) server outcome" where
  "onUpgradeConnection_s suggested u streamsOpen remote ec wsStream userContext s =
     (if failed ec then Done s
      else if \<not> streamsOpen then Done s
      else case remote of
             Inl x \<Rightarrow> Done s
           | Inr (address, port) \<Rightarrow>
               invoke (sv_onNewSession s)
                 (\<lambda>cb. server_emit (ServerSession cb wsStream (createSession_s suggested u userContext address port))) s)"

subsection \<open>The completion handlers\<close>

definition acceptHandler ::
  "family \<Rightarrow> error_code \<Rightarrow> ('c, 'f, 'ctx, 'x) server \<Rightarrow> ('c, 'f, 'ctx, 'x) server" where
  "acceptHandler tcpAcceptor ec s = (if sv_exists s then onAcceptTcpConnection tcpAcceptor ec s else s)"

definition requestHandler ::
  "'f boost \<Rightarrow> (authentication \<Rightarrow> bool \<times> 'ctx option) \<Rightarrow> family \<Rightarrow> error_code \<Rightarrow> nat \<Rightarrow>
   ('c, 'f, 'ctx, 'x) server \<Rightarrow> ('c, 'f, 'ctx, 'x) server outcome" where
  "requestHandler B authenticate tcpAcceptor ec wsStream s =
     (if sv_exists s
      then and_then (onReadAcceptRequest B authenticate ec wsStream (sv_acceptRequest s) s)
             (\<lambda>s. Done (startTcpAccept tcpAcceptor s))
      else Done s)"

definition upgradeHandler ::
  "(role_type \<Rightarrow> ws_timeout) \<Rightarrow> 'u \<Rightarrow> bool \<Rightarrow> exn + string \<times> 16 word \<Rightarrow> error_code \<Rightarrow> ('f, 'ctx) upgrade \<Rightarrow>
   ('c, 'f, 'ctx, ('ctx, 'h, 'w, 'd, 'u) session) server \<Rightarrow>
   ('c, 'f, 'ctx, ('ctx, 'h, 'w, 'd, 'u) session) server outcome" where
  "upgradeHandler suggested u streamsOpen remote ec up s =
     (if sv_exists s
      then onUpgradeConnection_s suggested u streamsOpen remote ec (up_stream up) (up_context up) s
      else Done s)"

text \<open>Bytes of the connection come into the shared buffer; \<open>Some\<close> when the request is complete.\<close>

definition readRequest ::
  "(byte list \<Rightarrow> ('f \<times> byte list) option) \<Rightarrow> byte list \<Rightarrow> ('c, 'f, 'ctx, 'x) server \<Rightarrow>
   ('c, 'f, 'ctx, 'x) server \<times> bool" where
  "readRequest parse bs s =
     (let buffered = sv_acceptBuffer s @ bs
      in case parse buffered of
           None \<Rightarrow> (s\<lparr>sv_acceptBuffer := buffered\<rparr>, False)
         | Some (request, rest) \<Rightarrow> (s\<lparr>sv_acceptBuffer := rest, sv_acceptRequest := request\<rparr>, True))"

lemmas server_ops =
  server_emit_def new_Server_def startTcpAccept_def close_acceptor_def stopTcpAccept_def stop_def
  destroy_Server_def setup_calls_def initAcceptor_def start_def onAcceptTcpConnection_def
  onReadAcceptRequest_def createSession_s_def onUpgradeConnection_s_def acceptHandler_def requestHandler_def
  upgradeHandler_def readRequest_def

end
