(* ===== verification/Server_Machine.thy ===== *)
theory Server_Machine
  imports Server Session_Machine
begin

section \<open>The server with its acceptors and its connections\<close>

text \<open>
  The server of \<open>Server\<close> driven by its environment: the user starts, stops and drops it, accepts
  complete, connections send their requests byte by byte or fail, upgrades complete, the io
  context calls completion handlers in any order. An accept is aborted only when its acceptor
  is closed.

  The invariant says that sessions belong to authenticated requests, that no stream is used twice,
  and that an open acceptor goes on accepting: an accept or the request of an accepted
  connection is outstanding for it, exactly one when the server was started at most once.
\<close>

datatype server_event =
    StartServer "16 word"
  | StopServer
  | FinishAccept nat error_code
  | AcceptCompleted nat
  | RequestBytes nat "byte list"
  | RequestFailed nat error_code
  | FinishUpgrade nat error_code
  | UpgradeCompleted nat bool "exn + string \<times> 16 word"
  | DropServer

record ('c, 'f, 'ctx, 'x) server_system =
  vs_server :: "('c, 'f, 'ctx, 'x) server"
  vs_starts :: nat

text \<open>The parameters of the server in one record. The user's authentication callback may answer every call
  as it likes: \<open>env_authenticate E k\<close> is its answer when it is asked about the connection with the
  stream \<open>k\<close>, which is once at most.\<close>

record ('f, 'ctx, 'u) server_env =
  env_boost :: "'f boost"
  env_parse :: "byte list \<Rightarrow> ('f \<times> byte list) option"
  env_authenticate :: "nat \<Rightarrow> authentication \<Rightarrow> bool \<times> 'ctx option"
  env_suggested :: "role_type \<Rightarrow> ws_timeout"
  env_user :: 'u

definition server_init :: "('c, 'f, 'ctx, 'x) server_system \<Rightarrow> bool" where
  "server_init s \<longleftrightarrow> (\<exists>req ns. s = \<lparr>vs_server = new_Server req (Fn ns), vs_starts = 0\<rparr>)"

inductive server_step ::
  "('f, 'ctx, 'u) server_env \<Rightarrow>
   ('c, 'f, 'ctx, ('ctx, 'h, 'w, 'd, 'u) session) server_system \<Rightarrow> server_event \<Rightarrow>
   ('c, 'f, 'ctx, ('ctx, 'h, 'w, 'd, 'u) session) server_system \<Rightarrow> bool"
  for E :: "('f, 'ctx, 'u) server_env"
where
  start_server: "sv_exists (vs_server s) \<Longrightarrow>
     (\<forall>fam. sv_isOpen (vs_server s) fam \<longrightarrow> failed (open_result (net port fam))) \<Longrightarrow>
     server_step E s (StartServer port)
       (s\<lparr>vs_server := snd (start net port (vs_server s)), vs_starts := Suc (vs_starts s)\<rparr>)"
| stop_server: "sv_exists (vs_server s) \<Longrightarrow>
     server_step E s StopServer (s\<lparr>vs_server := stop (vs_server s)\<rparr>)"
| finish_accept: "finish_op i ec (sv_accepts (vs_server s)) = Some ops \<Longrightarrow> ec \<noteq> OperationAborted \<Longrightarrow>
     server_step E s (FinishAccept i ec) (s\<lparr>vs_server := (vs_server s)\<lparr>sv_accepts := ops\<rparr>\<rparr>)"
| accept_completed: "take_op i (sv_accepts (vs_server s)) = Some ((fam, ec), ops) \<Longrightarrow>
     server_step E s (AcceptCompleted i)
       (s\<lparr>vs_server := acceptHandler fam ec ((vs_server s)\<lparr>sv_accepts := ops\<rparr>)\<rparr>)"
| request_partial: "i < length (sv_reads (vs_server s)) \<Longrightarrow>
     readRequest (env_parse E) bs (vs_server s) = (s', False) \<Longrightarrow>
     server_step E s (RequestBytes i bs) (s\<lparr>vs_server := s'\<rparr>)"
| request_complete: "i < length (sv_reads (vs_server s)) \<Longrightarrow>
     sv_reads (vs_server s) ! i = ((fam, k), Running) \<Longrightarrow>
     readRequest (env_parse E) bs (vs_server s) = (s', True) \<Longrightarrow>
     leaves (requestHandler (env_boost E) (env_authenticate E k) fam NoError k
       (s'\<lparr>sv_reads := take i (sv_reads s') @ drop (Suc i) (sv_reads s')\<rparr>)) t \<Longrightarrow>
     server_step E s (RequestBytes i bs) (s\<lparr>vs_server := t\<rparr>)"
| request_failed: "i < length (sv_reads (vs_server s)) \<Longrightarrow>
     sv_reads (vs_server s) ! i = ((fam, k), Running) \<Longrightarrow> failed ec \<Longrightarrow>
     leaves (requestHandler (env_boost E) (env_authenticate E k) fam ec k
       ((vs_server s)\<lparr>sv_reads := take i (sv_reads (vs_server s)) @ drop (Suc i) (sv_reads (vs_server s))\<rparr>)) t \<Longrightarrow>
     server_step E s (RequestFailed i ec) (s\<lparr>vs_server := t\<rparr>)"
| finish_upgrade: "finish_op i ec (sv_upgrades (vs_server s)) = Some ops \<Longrightarrow>
     server_step E s (FinishUpgrade i ec) (s\<lparr>vs_server := (vs_server s)\<lparr>sv_upgrades := ops\<rparr>\<rparr>)"
| upgrade_completed: "take_op i (sv_upgrades (vs_server s)) = Some ((up, ec), ops) \<Longrightarrow>
     leaves (upgradeHandler (env_suggested E) (env_user E) streamsOpen remote ec up
       ((vs_server s)\<lparr>sv_upgrades := ops\<rparr>)) t \<Longrightarrow>
     server_step E s (UpgradeCompleted i streamsOpen remote) (s\<lparr>vs_server := t\<rparr>)"
| drop_server: "sv_exists (vs_server s) \<Longrightarrow>
     server_step E s DropServer (s\<lparr>vs_server := destroy_Server (vs_server s)\<rparr>)"

inductive_simps server_step_simps:
  "server_step E s (StartServer port) t"
  "server_step E s StopServer t"
  "server_step E s (FinishAccept i ec) t"
  "server_step E s (AcceptCompleted i) t"
  "server_step E s (RequestBytes i bs) t"
  "server_step E s (RequestFailed i ec) t"
  "server_step E s (FinishUpgrade i ec) t"
  "server_step E s (UpgradeCompleted i streamsOpen remote) t"
  "server_step E s DropServer t"

subsection \<open>The invariant\<close>

text \<open>What was decided about a stream: the callback was asked, and let the request in with this
  context.\<close>

definition let_in :: "('f, 'ctx, 'u) server_env \<Rightarrow> ('c, 'x) server_effect list \<Rightarrow> nat \<Rightarrow> 'ctx option \<Rightarrow> bool" where
  "let_in E tr k ctx \<longleftrightarrow>
     (\<exists>auth. AuthenticateCalled k auth \<in> set tr \<and> env_authenticate E k auth = (True, ctx))"

fun session_let_in ::
  "('f, 'ctx, 'u) server_env \<Rightarrow> ('c, ('ctx, 'h, 'w, 'd, 'u) session) server_effect list \<Rightarrow>
   ('c, ('ctx, 'h, 'w, 'd, 'u) session) server_effect \<Rightarrow> bool" where
  "session_let_in E tr (ServerSession cb k x) \<longleftrightarrow>
     (\<exists>ctx address port. let_in E tr k ctx \<and> x = createSession_s (env_suggested E) (env_user E) ctx address port)"
| "session_let_in E tr (AuthenticateCalled k auth) \<longleftrightarrow> True"

definition sessions_authentic ::
  "('f, 'ctx, 'u) server_env \<Rightarrow> ('c, 'f, 'ctx, ('ctx, 'h, 'w, 'd, 'u) session) server \<Rightarrow> bool" where
  "sessions_authentic E s \<longleftrightarrow>
     (\<forall>up \<in> set (op_keys (sv_upgrades s)). let_in E (sv_trace s) (up_stream up) (up_context up)) \<and>
     (\<forall>e \<in> set (sv_trace s). session_let_in E (sv_trace s) e)"

text \<open>The streams in use, each in one phase.\<close>

fun session_stream :: "('c, 'x) server_effect \<Rightarrow> nat list" where
  "session_stream (ServerSession cb k x) = [k]"
| "session_stream _ = []"

definition streams_used :: "('c, 'f, 'ctx, 'x) server \<Rightarrow> nat list" where
  "streams_used s = map snd (op_keys (sv_reads s)) @ map up_stream (op_keys (sv_upgrades s)) @
     concat (map session_stream (sv_trace s))"

definition streams_distinct :: "('c, 'f, 'ctx, 'x) server \<Rightarrow> bool" where
  "streams_distinct s \<longleftrightarrow> distinct (streams_used s) \<and> (\<forall>k \<in> set (streams_used s). k < length (sv_streams s))"

text \<open>What keeps an acceptor going: an accept that was not aborted, or a request being read.\<close>

definition accept_tokens :: "family \<Rightarrow> ('c, 'f, 'ctx, 'x) server \<Rightarrow> nat" where
  "accept_tokens fam s =
     length (filter (\<lambda>(f, st). f = fam \<and> st \<noteq> Ready OperationAborted) (sv_accepts s)) +
     length (filter (\<lambda>((f, k), st). f = fam) (sv_reads s))"

definition accepting :: "('c, 'f, 'ctx, 'x) server_system \<Rightarrow> bool" where
  "accepting s \<longleftrightarrow>
     (\<forall>fam. (sv_exists (vs_server s) \<longrightarrow> sv_isOpen (vs_server s) fam \<longrightarrow> 1 \<le> accept_tokens fam (vs_server s)) \<and>
        (vs_starts s = 0 \<longrightarrow> \<not> sv_isOpen (vs_server s) fam \<and> accept_tokens fam (vs_server s) = 0) \<and>
        (vs_starts s = 1 \<longrightarrow> accept_tokens fam (vs_server s) \<le> 1)) \<and>
     (\<forall>op \<in> set (sv_reads (vs_server s)). snd op = Running)"

definition server_inv ::
  "('f, 'ctx, 'u) server_env \<Rightarrow> ('c, 'f, 'ctx, ('ctx, 'h, 'w, 'd, 'u) session) server_system \<Rightarrow> bool" where
  "server_inv E s \<longleftrightarrow> (\<exists>ns. sv_onNewSession (vs_server s) = Fn ns) \<and> sessions_authentic E (vs_server s) \<and>
     streams_distinct (vs_server s) \<and> accepting s"

lemmas server_inv_defs =
  sessions_authentic_def streams_distinct_def streams_used_def accept_tokens_def accepting_def

lemma server_inv_init: "server_init s \<Longrightarrow> server_inv E s"
  by (auto simp: server_init_def server_inv_def server_inv_defs new_Server_def)

subsection \<open>What the operations change\<close>

lemma requestHandler_cases:
  assumes "leaves (requestHandler B A fam ec k s) t"
  shows "\<not> sv_exists s \<and> t = s \<or>
    (sv_exists s \<and> failed ec \<and> t = startTcpAccept fam s) \<or>
    (\<exists>auth ctx. t = startTcpAccept fam (server_emit (AuthenticateCalled k auth) s) \<and>
       sv_exists s \<and> A auth = (False, ctx)) \<or>
    (\<exists>auth ctx. t = startTcpAccept fam ((server_emit (AuthenticateCalled k auth) s)\<lparr>sv_upgrades := start_op
         \<lparr>up_stream = k, up_context = ctx, up_request = sv_acceptRequest s\<rparr> (sv_upgrades s)\<rparr>) \<and>
       sv_exists s \<and> A auth = (True, ctx))"
proof -
  consider "\<not> sv_exists s" | "sv_exists s" "failed ec" | "sv_exists s" "\<not> failed ec" by blast
  then show ?thesis
  proof cases
    case 1
    then show ?thesis using assms by (simp add: requestHandler_def)
  next
    case 2
    then show ?thesis using assms by (simp add: requestHandler_def onReadAcceptRequest_def)
  next
    case 3
    with assms obtain auth where auth: "request_authentication B (sv_acceptRequest s) = Some auth"
      by (cases "request_authentication B (sv_acceptRequest s)")
         (simp_all add: requestHandler_def onReadAcceptRequest_def)
    obtain ok ctx where "A auth = (ok, ctx)" by fastforce
    with 3 auth assms show ?thesis
      by (cases ok) (auto simp: requestHandler_def onReadAcceptRequest_def server_emit_def)
  qed
qed

lemma upgradeHandler_cases:
  assumes "leaves (upgradeHandler suggested u streamsOpen remote ec up s) t"
  shows "t = s \<or> (\<exists>cb address port.
     t = server_emit (ServerSession cb (up_stream up) (createSession_s suggested u (up_context up) address port)) s)"
proof (cases "sv_exists s \<and> \<not> failed ec \<and> streamsOpen \<and> (\<exists>r. remote = Inr r)")
  case True
  then obtain address port where "remote = Inr (address, port)" by auto
  with True assms have "leaves (invoke (sv_onNewSession s) (\<lambda>cb. server_emit
      (ServerSession cb (up_stream up) (createSession_s suggested u (up_context up) address port))) s) t"
    by (simp add: upgradeHandler_def onUpgradeConnection_s_def)
  then show ?thesis by (cases "sv_onNewSession s") auto
next
  case False
  then have "t = s"
    using assms by (cases remote) (auto simp: upgradeHandler_def onUpgradeConnection_s_def split: if_splits)
  then show ?thesis by blast
qed

lemma readRequest_fields:
  assumes "readRequest parse bs s = (s', done)"
  shows "sv_onNewSession s' = sv_onNewSession s" "sv_isOpen s' = sv_isOpen s" "sv_exists s' = sv_exists s"
    "sv_streams s' = sv_streams s" "sv_accepts s' = sv_accepts s" "sv_reads s' = sv_reads s"
    "sv_upgrades s' = sv_upgrades s" "sv_trace s' = sv_trace s"
  using assms by (auto simp: readRequest_def Let_def split: option.splits)

text \<open>What starting and stopping leaves alone.\<close>

definition same_connections :: "('c, 'f, 'ctx, 'x) server \<Rightarrow> ('c, 'f, 'ctx, 'x) server \<Rightarrow> bool" where
  "same_connections s t \<longleftrightarrow> sv_onNewSession t = sv_onNewSession s \<and> sv_streams t = sv_streams s \<and>
     sv_reads t = sv_reads s \<and> sv_upgrades t = sv_upgrades s \<and> sv_trace t = sv_trace s"

lemma same_connections_refl [simp]: "same_connections s s"
  by (simp add: same_connections_def)

lemma same_connections_trans: "same_connections s t \<Longrightarrow> same_connections t v \<Longrightarrow> same_connections s v"
  by (simp add: same_connections_def)

lemma same_connections_ops [simp]:
  "same_connections s (startTcpAccept fam s)" "same_connections s (close_acceptor fam s)"
  "same_connections s (stopTcpAccept fam s)" "same_connections s (s\<lparr>sv_isOpen := b\<rparr>)"
  "same_connections s (s\<lparr>sv_accepts := a\<rparr>)" "same_connections s (s\<lparr>sv_exists := v\<rparr>)"
  by (simp_all add: same_connections_def startTcpAccept_def close_acceptor_def stopTcpAccept_def)

lemma same_connections_stop: "same_connections s (stop s)" "same_connections s (destroy_Server s)"
  unfolding stop_def destroy_Server_def by (blast intro: same_connections_trans same_connections_ops)+

lemma same_connections_init: "same_connections s (snd (snd (initAcceptor fam net s)))"
  unfolding initAcceptor_def Let_def
  by (auto intro: same_connections_trans [of s "s\<lparr>sv_isOpen := (sv_isOpen s)(fam := True)\<rparr>"])

lemma start_server_state:
  "snd (start net port s) = snd (snd (initAcceptor V6 (net port V6) (snd (snd (initAcceptor V4 (net port V4) s)))))"
  by (simp add: start_def Let_def split: prod.splits)

lemma same_connections_start: "same_connections s (snd (start net port s))"
  unfolding start_server_state by (blast intro: same_connections_trans same_connections_init)

lemma same_connections_keep:
  assumes "same_connections s t"
  shows "sessions_authentic E t = sessions_authentic E s"
  using assms by (simp add: same_connections_def sessions_authentic_def)

lemma same_connections_distinct:
  assumes "same_connections s t"
  shows "streams_distinct t = streams_distinct s" and "sv_onNewSession t = sv_onNewSession s"
  using assms by (simp_all add: same_connections_def streams_distinct_def streams_used_def)

subsection \<open>Sessions are authentic\<close>

lemma let_in_mono: "let_in E tr k ctx \<Longrightarrow> set tr \<subseteq> set tr' \<Longrightarrow> let_in E tr' k ctx"
  by (auto simp: let_in_def)

lemma session_let_in_mono: "session_let_in E tr e \<Longrightarrow> set tr \<subseteq> set tr' \<Longrightarrow> session_let_in E tr' e"
proof (cases e)
  case (ServerSession cb k x)
  assume "session_let_in E tr e" and "set tr \<subseteq> set tr'"
  with ServerSession let_in_mono [of E tr k] show ?thesis by auto
qed simp

text \<open>A step adds decisions and sessions to the trace, and at most upgrades that were let in.\<close>

lemma authentic_extend:
  assumes s: "sessions_authentic E s" and tr: "sv_trace t = sv_trace s @ es"
    and es: "\<And>e. e \<in> set es \<Longrightarrow> session_let_in E (sv_trace t) e"
    and ups: "\<And>up. up \<in> set (op_keys (sv_upgrades t)) \<Longrightarrow>
      up \<in> set (op_keys (sv_upgrades s)) \<or> let_in E (sv_trace t) (up_stream up) (up_context up)"
  shows "sessions_authentic E t"
proof -
  have sub: "set (sv_trace s) \<subseteq> set (sv_trace t)" using tr by simp
  have "let_in E (sv_trace t) (up_stream up) (up_context up)" if "up \<in> set (op_keys (sv_upgrades t))" for up
    using ups [OF that] s let_in_mono [OF _ sub] by (auto simp: sessions_authentic_def simp del: set_map)
  moreover have "session_let_in E (sv_trace t) e" if "e \<in> set (sv_trace t)" for e
    using that es [of e] s session_let_in_mono [OF _ sub, of E e] tr
    by (auto simp: sessions_authentic_def)
  ultimately show ?thesis by (simp add: sessions_authentic_def del: set_map)
qed

lemma authentic_called:
  "sessions_authentic E s \<Longrightarrow> sessions_authentic E (server_emit (AuthenticateCalled k auth) s)"
  by (erule authentic_extend [where es = "[AuthenticateCalled k auth]"]) (auto simp: server_emit_def)

lemma authentic_let_in:
  assumes "sessions_authentic E s" and "env_authenticate E k auth = (True, ctx)"
  shows "sessions_authentic E ((server_emit (AuthenticateCalled k auth) s)\<lparr>sv_upgrades := start_op
     \<lparr>up_stream = k, up_context = ctx, up_request = req\<rparr> (sv_upgrades s)\<rparr>)"
  using assms
  by (intro authentic_extend [OF assms(1), where es = "[AuthenticateCalled k auth]"])
     (auto simp: server_emit_def let_in_def)

lemma authentic_fewer_upgrades:
  "sessions_authentic E s \<Longrightarrow> set (op_keys ops) \<subseteq> set (op_keys (sv_upgrades s)) \<Longrightarrow>
   sessions_authentic E (s\<lparr>sv_upgrades := ops\<rparr>)"
  unfolding sessions_authentic_def by (simp del: set_map) blast

lemma authentic_session:
  assumes "sessions_authentic E s" and "let_in E (sv_trace s) k ctx"
  shows "sessions_authentic E
    (server_emit (ServerSession cb k (createSession_s (env_suggested E) (env_user E) ctx address port)) s)"
    (is "sessions_authentic E (server_emit ?e s)")
proof (rule authentic_extend [OF assms(1)])
  show "sv_trace (server_emit ?e s) = sv_trace s @ [?e]" by (simp add: server_emit_def)
  have "let_in E (sv_trace (server_emit ?e s)) k ctx"
    using assms(2) by (rule let_in_mono) (auto simp: server_emit_def)
  then show "session_let_in E (sv_trace (server_emit ?e s)) e" if "e \<in> set [?e]" for e
    using that by auto
qed (simp add: server_emit_def)

lemma requestHandler_authentic:
  assumes "leaves (requestHandler B (env_authenticate E k) fam ec k s) t" and "sessions_authentic E s"
  shows "sessions_authentic E t"
  using requestHandler_cases [OF assms(1)] assms(2) authentic_called [OF assms(2)] authentic_let_in [OF assms(2)]
  by (elim disjE exE conjE) (simp_all add: same_connections_keep [OF same_connections_ops(1)])

lemma authentic_step:
  "server_step E s e t \<Longrightarrow> sessions_authentic E (vs_server s) \<Longrightarrow> sessions_authentic E (vs_server t)"
proof (induction rule: server_step.induct)
  case (start_server s net port)
  then show ?case by (simp add: same_connections_keep [OF same_connections_start])
next
  case (stop_server s)
  then show ?case by (simp add: same_connections_keep [OF same_connections_stop(1)])
next
  case (drop_server s)
  then show ?case by (simp add: same_connections_keep [OF same_connections_stop(2)])
next
  case (finish_accept i ec s ops)
  then show ?case by (simp add: sessions_authentic_def)
next
  case (accept_completed i s fam ec ops)
  then show ?case
    by (simp add: sessions_authentic_def acceptHandler_def onAcceptTcpConnection_def startTcpAccept_def Let_def)
next
  case (request_partial i s bs s')
  then show ?case by (simp add: sessions_authentic_def readRequest_fields [OF request_partial(2)])
next
  case (request_complete i s fam k bs s' t)
  have "sessions_authentic E (s'\<lparr>sv_reads := take i (sv_reads s') @ drop (Suc i) (sv_reads s')\<rparr>)"
    using request_complete(5) by (simp add: sessions_authentic_def readRequest_fields [OF request_complete(3)])
  with request_complete(4) show ?case using requestHandler_authentic by fastforce
next
  case (request_failed i s fam k ec t)
  have "sessions_authentic E ((vs_server s)\<lparr>sv_reads := take i (sv_reads (vs_server s)) @ drop (Suc i) (sv_reads (vs_server s))\<rparr>)"
    using request_failed(5) by (simp add: sessions_authentic_def)
  with request_failed(4) show ?case using requestHandler_authentic by fastforce
next
  case (finish_upgrade i ec s ops)
  then show ?case using finish_op_keys [OF finish_upgrade(1)] by (simp add: sessions_authentic_def del: set_map)
next
  case (upgrade_completed i s up ec ops streamsOpen remote t)
  have up: "let_in E (sv_trace (vs_server s)) (up_stream up) (up_context up)"
    using upgrade_completed(3) take_op_key_in [OF upgrade_completed(1)]
    by (simp add: sessions_authentic_def del: set_map)
  have "sessions_authentic E ((vs_server s)\<lparr>sv_upgrades := ops\<rparr>)"
    using upgrade_completed(3) take_op_keys_subset [OF upgrade_completed(1)] by (rule authentic_fewer_upgrades)
  with upgradeHandler_cases [OF upgrade_completed(2)] authentic_session [OF this, of "up_stream up" "up_context up"] up
  show ?case by (elim disjE exE) simp_all
qed

subsection \<open>Streams are used once\<close>

lemma read_split_removed:
  assumes "streams_distinct s" and "sv_reads s = a @ ((fam, k), st) # b" and "s' = s\<lparr>sv_reads := a @ b\<rparr>"
  shows "streams_distinct s'" and "k \<notin> set (streams_used s')" and "k < length (sv_streams s')"
  using assms by (auto simp: streams_distinct_def streams_used_def)

lemma read_removed:
  assumes "streams_distinct s" and i: "i < length (sv_reads s)" "sv_reads s ! i = ((fam, k), st)"
    and "s' = s\<lparr>sv_reads := take i (sv_reads s) @ drop (Suc i) (sv_reads s)\<rparr>"
  shows "streams_distinct s'" and "k \<notin> set (streams_used s')" and "k < length (sv_streams s')"
proof -
  have "sv_reads s = take i (sv_reads s) @ ((fam, k), st) # drop (Suc i) (sv_reads s)"
    using take_drop_split [OF i(1)] i(2) by simp
  from read_split_removed [OF assms(1) this assms(4)]
  show "streams_distinct s'" and "k \<notin> set (streams_used s')" and "k < length (sv_streams s')"
    by simp_all
qed

text \<open>The stream of an accepted connection is new.\<close>

lemma distinct_new_stream:
  assumes "streams_distinct s"
  shows "streams_distinct (s\<lparr>sv_streams := sv_streams s @ [ws],
     sv_reads := start_op (fam, length (sv_streams s)) (sv_reads s)\<rparr>)"
proof -
  have "length (sv_streams s) \<notin> set (streams_used s)"
    using assms by (auto simp: streams_distinct_def)
  then show ?thesis
    using assms by (auto simp: streams_distinct_def streams_used_def start_op_def less_Suc_eq)
qed

lemma upgrade_removed:
  assumes "streams_distinct s" and "take_op i (sv_upgrades s) = Some ((up, ec), ops)"
  shows "streams_distinct (s\<lparr>sv_upgrades := ops\<rparr>)" and "up_stream up \<notin> set (streams_used (s\<lparr>sv_upgrades := ops\<rparr>))"
    and "up_stream up < length (sv_streams s)"
proof -
  from take_op_split [OF assms(2)] obtain a b where "sv_upgrades s = a @ (up, Ready ec) # b" "ops = a @ b"
    by blast
  then show "streams_distinct (s\<lparr>sv_upgrades := ops\<rparr>)"
    and "up_stream up \<notin> set (streams_used (s\<lparr>sv_upgrades := ops\<rparr>))" and "up_stream up < length (sv_streams s)"
    using assms(1) by (auto simp: streams_distinct_def streams_used_def)
qed

lemma streams_distinct_accept [simp]: "streams_distinct (startTcpAccept fam s) = streams_distinct s"
  by (simp add: same_connections_distinct [OF same_connections_ops(1)])

lemma streams_distinct_called [simp]:
  "streams_distinct (server_emit (AuthenticateCalled k auth) s) = streams_distinct s"
  by (simp add: streams_distinct_def streams_used_def server_emit_def)

lemma requestHandler_distinct:
  assumes "leaves (requestHandler B A fam ec k s) t" and "streams_distinct s" and "k \<notin> set (streams_used s)"
    and "k < length (sv_streams s)"
  shows "streams_distinct t"
proof -
  have "streams_distinct ((server_emit (AuthenticateCalled k auth) s)\<lparr>sv_upgrades := start_op
      \<lparr>up_stream = k, up_context = ctx, up_request = sv_acceptRequest s\<rparr> (sv_upgrades s)\<rparr>)" for auth ctx
    using assms(2-4) by (auto simp: streams_distinct_def streams_used_def server_emit_def)
  with requestHandler_cases [OF assms(1)] assms(2) show ?thesis
    by (elim disjE exE conjE) simp_all
qed

lemma distinct_step: "server_step E s e t \<Longrightarrow> streams_distinct (vs_server s) \<Longrightarrow> streams_distinct (vs_server t)"
proof (induction rule: server_step.induct)
  case (start_server s net port)
  then show ?case by (simp add: same_connections_distinct [OF same_connections_start])
next
  case (stop_server s)
  then show ?case by (simp add: same_connections_distinct [OF same_connections_stop(1)])
next
  case (drop_server s)
  then show ?case by (simp add: same_connections_distinct [OF same_connections_stop(2)])
next
  case (finish_accept i ec s ops)
  then show ?case by (simp add: streams_distinct_def streams_used_def)
next
  case (accept_completed i s fam ec ops)
  then have ok: "streams_distinct ((vs_server s)\<lparr>sv_accepts := ops\<rparr>)"
    by (simp add: streams_distinct_def streams_used_def)
  then show ?case
    using distinct_new_stream [OF ok] by (simp add: acceptHandler_def onAcceptTcpConnection_def Let_def)
next
  case (request_partial i s bs s')
  then show ?case by (simp add: streams_distinct_def streams_used_def readRequest_fields [OF request_partial(2)])
next
  case (request_complete i s fam k bs s' t)
  note fields = readRequest_fields [OF request_complete(3)]
  have "streams_distinct s'" using request_complete(5) by (simp add: streams_distinct_def streams_used_def fields)
  note removed = read_removed [OF this _ _ refl, of i fam k Running]
  show ?case
    using requestHandler_distinct [OF request_complete(4)] removed request_complete(1,2) by (simp add: fields)
next
  case (request_failed i s fam k ec t)
  note removed = read_removed [OF request_failed(5,1,2) refl]
  show ?case using requestHandler_distinct [OF request_failed(4)] removed by simp
next
  case (finish_upgrade i ec s ops)
  then show ?case
    using finish_op_keys [OF finish_upgrade(1)] by (simp add: streams_distinct_def streams_used_def del: set_map)
next
  case (upgrade_completed i s up ec ops streamsOpen remote t)
  note removed = upgrade_removed [OF upgrade_completed(3,1)]
  have "streams_distinct (server_emit (ServerSession cb (up_stream up) x) ((vs_server s)\<lparr>sv_upgrades := ops\<rparr>))" for cb x
    using removed by (auto simp: streams_distinct_def streams_used_def server_emit_def)
  with upgradeHandler_cases [OF upgrade_completed(2)] removed(1) show ?case
    by (elim disjE exE) simp_all
qed

subsection \<open>An open acceptor goes on accepting\<close>

lemma tokens_start [simp]:
  "accept_tokens fam (startTcpAccept f s) = accept_tokens fam s + (if f = fam \<and> sv_isOpen s f then 1 else 0)"
  by (simp add: accept_tokens_def startTcpAccept_def start_op_def)

lemma tokens_read_removed:
  assumes "i < length (sv_reads s)" and "sv_reads s ! i = ((f, k), st)"
  shows "accept_tokens fam s =
    accept_tokens fam (s\<lparr>sv_reads := take i (sv_reads s) @ drop (Suc i) (sv_reads s)\<rparr>) + (if f = fam then 1 else 0)"
proof -
  have "length (filter P (sv_reads s)) =
      length (filter P (take i (sv_reads s) @ sv_reads s ! i # drop (Suc i) (sv_reads s)))" for P
    using take_drop_split [OF assms(1)] by simp
  then show ?thesis using assms(2) by (simp add: accept_tokens_def)
qed

lemma tokens_accept_removed:
  assumes "take_op i (sv_accepts s) = Some ((f, ec), ops)"
  shows "accept_tokens fam s =
    accept_tokens fam (s\<lparr>sv_accepts := ops\<rparr>) + (if f = fam \<and> ec \<noteq> OperationAborted then 1 else 0)"
  using take_op_split [OF assms] by (auto simp: accept_tokens_def)

lemma tokens_accept_finished:
  assumes "finish_op i ec (sv_accepts s) = Some ops" and "ec \<noteq> OperationAborted"
  shows "accept_tokens fam (s\<lparr>sv_accepts := ops\<rparr>) = accept_tokens fam s"
  using finish_op_split [OF assms(1)] assms(2) by (auto simp: accept_tokens_def)

lemma tokens_close:
  "accept_tokens fam (close_acceptor f s) \<le> accept_tokens fam s"
  "fam \<noteq> f \<Longrightarrow> accept_tokens fam (close_acceptor f s) = accept_tokens fam s"
proof -
  have "length (filter (\<lambda>(g, st). g = fam \<and> st \<noteq> Ready OperationAborted) (cancel_ops (\<lambda>k. k = f) ops)) \<le>
      length (filter (\<lambda>(g, st). g = fam \<and> st \<noteq> Ready OperationAborted) ops)" for ops
    by (induction ops) (auto simp: cancel_ops_def)
  then show "accept_tokens fam (close_acceptor f s) \<le> accept_tokens fam s"
    by (simp add: accept_tokens_def close_acceptor_def)
  have "length (filter (\<lambda>(g, st). g = fam \<and> st \<noteq> Ready OperationAborted) (cancel_ops (\<lambda>k. k = f) ops)) =
      length (filter (\<lambda>(g, st). g = fam \<and> st \<noteq> Ready OperationAborted) ops)" if "fam \<noteq> f" for ops
    using that by (induction ops) (auto simp: cancel_ops_def)
  then show "fam \<noteq> f \<Longrightarrow> accept_tokens fam (close_acceptor f s) = accept_tokens fam s"
    by (simp add: accept_tokens_def close_acceptor_def)
qed

lemma tokens_isOpen [simp]: "accept_tokens fam (s\<lparr>sv_isOpen := b\<rparr>) = accept_tokens fam s"
  by (simp add: accept_tokens_def)

text \<open>What setting up one acceptor does to its tokens.\<close>

lemma initAcceptor_tokens:
  assumes "sv_isOpen s f \<longrightarrow> failed (open_result net)" and "s' = snd (snd (initAcceptor f net s))"
  shows "fam \<noteq> f \<Longrightarrow> sv_isOpen s' fam = sv_isOpen s fam \<and> accept_tokens fam s' = accept_tokens fam s"
    and "sv_isOpen s f \<Longrightarrow> sv_isOpen s' f \<and> accept_tokens f s' = accept_tokens f s"
    and "\<not> sv_isOpen s f \<Longrightarrow> accept_tokens f s' \<le> accept_tokens f s + (if sv_isOpen s' f then 1 else 0) \<and>
           (sv_isOpen s' f \<longrightarrow> 1 \<le> accept_tokens f s')"
    and "sv_exists s' = sv_exists s"
proof -
  have open_close: "sv_isOpen (close_acceptor f v) g = (g \<noteq> f \<and> sv_isOpen v g)"
    "sv_isOpen (startTcpAccept f v) = sv_isOpen v"
    "sv_exists (close_acceptor f v) = sv_exists v" "sv_exists (startTcpAccept f v) = sv_exists v"
    for v :: "('a, 'b, 'c, 'd) server" and g
    by (simp_all add: close_acceptor_def startTcpAccept_def)
  show "fam \<noteq> f \<Longrightarrow> sv_isOpen s' fam = sv_isOpen s fam \<and> accept_tokens fam s' = accept_tokens fam s"
    "sv_isOpen s f \<Longrightarrow> sv_isOpen s' f \<and> accept_tokens f s' = accept_tokens f s"
    "sv_exists s' = sv_exists s"
    using assms by (simp_all add: initAcceptor_def open_close tokens_close(2) Let_def)
  show "\<not> sv_isOpen s f \<Longrightarrow> accept_tokens f s' \<le> accept_tokens f s + (if sv_isOpen s' f then 1 else 0) \<and>
           (sv_isOpen s' f \<longrightarrow> 1 \<le> accept_tokens f s')"
    using assms tokens_close(1) [of f f "s\<lparr>sv_isOpen := (sv_isOpen s)(f := True)\<rparr>"]
    by (simp add: initAcceptor_def open_close Let_def)
qed

lemma start_tokens:
  assumes "\<forall>fam. sv_isOpen s fam \<longrightarrow> failed (open_result (net port fam))" and "s' = snd (start net port s)"
  shows "sv_isOpen s fam \<Longrightarrow> sv_isOpen s' fam \<and> accept_tokens fam s' = accept_tokens fam s"
    and "\<not> sv_isOpen s fam \<Longrightarrow> accept_tokens fam s' \<le> accept_tokens fam s + 1 \<and>
           (sv_isOpen s' fam \<longrightarrow> 1 \<le> accept_tokens fam s')"
    and "sv_exists s' = sv_exists s"
proof -
  let ?m = "snd (snd (initAcceptor V4 (net port V4) s))"
  have v4: "sv_isOpen s V4 \<longrightarrow> failed (open_result (net port V4))" using assms(1) by simp
  note four = initAcceptor_tokens [OF v4 refl]
  have "sv_isOpen ?m V6 = sv_isOpen s V6" using four(1) [of V6] by simp
  then have v6: "sv_isOpen ?m V6 \<longrightarrow> failed (open_result (net port V6))" using assms(1) by simp
  have "s' = snd (snd (initAcceptor V6 (net port V6) ?m))"
    using assms(2) by (simp add: start_server_state)
  note six = initAcceptor_tokens [OF v6 this]
  show "sv_exists s' = sv_exists s" using four(4) six(4) by simp
  show "sv_isOpen s fam \<Longrightarrow> sv_isOpen s' fam \<and> accept_tokens fam s' = accept_tokens fam s"
    using four(1) [of V6] four(2) six(1) [of V4] six(2) by (cases fam) auto
  show "\<not> sv_isOpen s fam \<Longrightarrow> accept_tokens fam s' \<le> accept_tokens fam s + 1 \<and>
           (sv_isOpen s' fam \<longrightarrow> 1 \<le> accept_tokens fam s')"
    using four(1) [of V6] four(3) six(1) [of V4] six(3) by (cases fam) (auto split: if_splits)
qed

lemma stop_fields:
  "sv_isOpen (stop s) fam = False" "sv_exists (stop s) = sv_exists s" "sv_reads (stop s) = sv_reads s"
  "accept_tokens fam (stop s) \<le> accept_tokens fam s"
proof -
  have one: "accept_tokens fam (stopTcpAccept f v) \<le> accept_tokens fam v" for f and v :: "('a, 'b, 'c, 'd) server"
    using tokens_close(1) [of fam f v] by (simp add: stopTcpAccept_def)
  show "accept_tokens fam (stop s) \<le> accept_tokens fam s"
    unfolding stop_def using one [of V4 s] one [of V6 "stopTcpAccept V4 s"] by (rule order_trans [rotated])
  show "sv_isOpen (stop s) fam = False" by (cases fam) (auto simp: stop_def stopTcpAccept_def close_acceptor_def)
qed (simp_all add: stop_def stopTcpAccept_def close_acceptor_def)

text \<open>The tokens of one acceptor around a request that is done with.\<close>

lemma requestHandler_tokens:
  assumes "leaves (requestHandler B A f ec k s) t"
  shows "sv_exists t = sv_exists s" and "sv_isOpen t = sv_isOpen s" and "sv_reads t = sv_reads s"
    and "accept_tokens fam t = accept_tokens fam s + (if f = fam \<and> sv_exists s \<and> sv_isOpen s f then 1 else 0)"
  using requestHandler_cases [OF assms]
  by (elim disjE exE conjE; simp add: server_emit_def startTcpAccept_def accept_tokens_def start_op_def)+

lemma upgradeHandler_same:
  assumes "leaves (upgradeHandler suggested u streamsOpen remote ec up s) t"
  shows "sv_exists t = sv_exists s" and "sv_isOpen t = sv_isOpen s" and "sv_reads t = sv_reads s"
    and "accept_tokens fam t = accept_tokens fam s" and "sv_onNewSession t = sv_onNewSession s"
  using upgradeHandler_cases [OF assms] by (elim disjE exE; simp add: server_emit_def accept_tokens_def)+

lemma acceptingD:
  assumes "accepting s"
  shows "sv_exists (vs_server s) \<Longrightarrow> sv_isOpen (vs_server s) fam \<Longrightarrow> 1 \<le> accept_tokens fam (vs_server s)"
    and "vs_starts s = 0 \<Longrightarrow> \<not> sv_isOpen (vs_server s) fam \<and> accept_tokens fam (vs_server s) = 0"
    and "vs_starts s = 1 \<Longrightarrow> accept_tokens fam (vs_server s) \<le> 1"
    and "op \<in> set (sv_reads (vs_server s)) \<Longrightarrow> snd op = Running"
  using assms by (simp_all add: accepting_def)

lemma accepting_stopped:
  assumes "accepting s" and closed: "\<And>fam. \<not> sv_isOpen v fam"
    and le: "\<And>fam. accept_tokens fam v \<le> accept_tokens fam (vs_server s)"
    and "sv_reads v = sv_reads (vs_server s)"
  shows "accepting (s\<lparr>vs_server := v\<rparr>)"
proof -
  have "vs_starts s = 0 \<Longrightarrow> accept_tokens fam v = 0" for fam
    using acceptingD(2) [OF assms(1), of fam] le [of fam] by simp
  moreover have "vs_starts s = 1 \<Longrightarrow> accept_tokens fam v \<le> 1" for fam
    using acceptingD(3) [OF assms(1), of fam] le [of fam] by simp
  ultimately show ?thesis using assms closed by (simp add: accepting_def)
qed

lemma request_done_accepting:
  assumes s: "accepting s" and i: "i < length (sv_reads (vs_server s))" "sv_reads (vs_server s) ! i = ((f, k), Running)"
    and t: "leaves (requestHandler B A f ec k ((vs_server s)\<lparr>sv_reads :=
      take i (sv_reads (vs_server s)) @ drop (Suc i) (sv_reads (vs_server s))\<rparr>)) t"
  shows "accepting (s\<lparr>vs_server := t\<rparr>)"
proof -
  have "set (take i xs @ drop (Suc i) xs) \<subseteq> set xs" for xs :: "((family \<times> nat) \<times> op_status) list"
    using set_take_subset [of i xs] set_drop_subset [of "Suc i" xs] by auto
  from this [of "sv_reads (vs_server s)"] have reads: "\<forall>op \<in> set (sv_reads t). snd op = Running"
    using s requestHandler_tokens(3) [OF t] by (auto simp: accepting_def)
  have tokens: "accept_tokens fam t + (if f = fam then 1 else 0) =
      accept_tokens fam (vs_server s) + (if f = fam \<and> sv_exists (vs_server s) \<and> sv_isOpen (vs_server s) f then 1 else 0)" for fam
    using requestHandler_tokens(4) [OF t, of fam] tokens_read_removed [OF i, of fam] by simp
  have started: "vs_starts s \<noteq> 0"
    using acceptingD(2) [OF s, of f] tokens_read_removed [OF i, of f] by auto
  have "sv_exists (vs_server s) \<Longrightarrow> sv_isOpen (vs_server s) fam \<Longrightarrow> 1 \<le> accept_tokens fam t"
    "vs_starts s = 1 \<Longrightarrow> accept_tokens fam t \<le> 1" for fam
    using acceptingD(1,3) [OF s, of fam] tokens [of fam] by (auto split: if_splits)
  then show ?thesis
    using reads started requestHandler_tokens(1,2) [OF t] by (simp add: accepting_def)
qed

lemma accepting_step: "server_step E s e t \<Longrightarrow> accepting s \<Longrightarrow> accepting t"
proof (induction rule: server_step.induct)
  case (start_server s net port)
  note tokens = start_tokens [where net = net and port = port, OF start_server(2) refl]
  have "sv_reads (snd (start net port (vs_server s))) = sv_reads (vs_server s)"
    using same_connections_start [of "vs_server s" net port] by (simp add: same_connections_def)
  moreover have "sv_isOpen (snd (start net port (vs_server s))) fam \<Longrightarrow> 1 \<le> accept_tokens fam (snd (start net port (vs_server s)))" for fam
    using start_server(1,3) tokens(1,2) [of fam] by (cases "sv_isOpen (vs_server s) fam") (simp_all add: accepting_def)
  moreover have "vs_starts s = 0 \<Longrightarrow> accept_tokens fam (snd (start net port (vs_server s))) \<le> 1" for fam
    using start_server(3) tokens(2) [of fam] by (fastforce simp: accepting_def)
  ultimately show ?case using start_server(3) by (simp add: accepting_def)
next
  case (stop_server s)
  then show ?case by (intro accepting_stopped) (simp_all add: stop_fields)
next
  case (drop_server s)
  moreover have "accept_tokens fam (destroy_Server (vs_server s)) \<le> accept_tokens fam (vs_server s)" for fam
    using stop_fields(4) [of fam "vs_server s"] by (simp add: destroy_Server_def accept_tokens_def)
  ultimately show ?case by (intro accepting_stopped) (simp_all add: destroy_Server_def stop_fields)
next
  case (finish_accept i ec s ops)
  then show ?case by (simp add: accepting_def tokens_accept_finished)
next
  case (accept_completed i s f ec ops)
  let ?v = "(vs_server s)\<lparr>sv_accepts := ops\<rparr>"
  note removed = tokens_accept_removed [OF accept_completed(1)]
  let ?t = "acceptHandler f ec ?v"
  have tokens: "accept_tokens fam ?t = accept_tokens fam ?v +
      (if f = fam \<and> sv_exists (vs_server s) \<and> ec \<noteq> OperationAborted \<and> (failed ec \<longrightarrow> sv_isOpen (vs_server s) f)
       then 1 else 0)" for fam
    by (cases "sv_exists (vs_server s)"; cases "failed ec")
       (simp_all add: acceptHandler_def onAcceptTcpConnection_def Let_def failed_def,
        auto simp: accept_tokens_def start_op_def)
  have same: "sv_isOpen ?t = sv_isOpen (vs_server s)" "sv_exists ?t = sv_exists (vs_server s)"
    by (simp_all add: acceptHandler_def onAcceptTcpConnection_def startTcpAccept_def Let_def)
  have "\<forall>op \<in> set (sv_reads ?t). snd op = Running"
    using acceptingD(4) [OF accept_completed(2)]
    by (auto simp: acceptHandler_def onAcceptTcpConnection_def startTcpAccept_def start_op_def Let_def)
  moreover have "sv_exists (vs_server s) \<Longrightarrow> sv_isOpen (vs_server s) fam \<Longrightarrow> 1 \<le> accept_tokens fam ?t" for fam
    using acceptingD(1) [OF accept_completed(2), of fam] removed [of fam] tokens [of fam]
    by (auto split: if_splits)
  moreover have "vs_starts s = 0 \<Longrightarrow> accept_tokens fam ?t = 0" for fam
    using acceptingD(2) [OF accept_completed(2), of fam] removed [of fam] tokens [of fam]
    by (auto split: if_splits)
  moreover have "vs_starts s = 1 \<Longrightarrow> accept_tokens fam ?t \<le> 1" for fam
    using acceptingD(3) [OF accept_completed(2), of fam] removed [of fam] tokens [of fam]
    by (auto split: if_splits)
  ultimately show ?case
    using acceptingD(2) [OF accept_completed(2)] by (simp add: accepting_def same)
next
  case (request_partial i s bs s')
  then show ?case by (simp add: accepting_def accept_tokens_def readRequest_fields [OF request_partial(2)])
next
  case (request_complete i s f k bs s' t)
  note fields = readRequest_fields [OF request_complete(3)]
  have "accepting (s\<lparr>vs_server := s'\<rparr>)"
    using request_complete(5) by (simp add: accepting_def accept_tokens_def fields)
  then show ?case
    using request_done_accepting [of "s\<lparr>vs_server := s'\<rparr>" i f k] request_complete(1,2,4) by (simp add: fields)
next
  case (request_failed i s f k ec t)
  then show ?case by (intro request_done_accepting) simp_all
next
  case (finish_upgrade i ec s ops)
  then show ?case by (simp add: accepting_def accept_tokens_def)
next
  case (upgrade_completed i s up ec ops streamsOpen remote t)
  then show ?case by (simp add: accepting_def upgradeHandler_same [OF upgrade_completed(2)]) (simp add: accept_tokens_def)
qed

lemma callback_step:
  "server_step E s e t \<Longrightarrow> sv_onNewSession (vs_server t) = sv_onNewSession (vs_server s)"
proof (induction rule: server_step.induct)
  case (request_complete i s fam k bs s' t)
  from requestHandler_cases [OF request_complete(4)] show ?case
    by (elim disjE exE conjE)
       (simp_all add: readRequest_fields [OF request_complete(3)] server_emit_def startTcpAccept_def)
next
  case (request_failed i s fam k ec t)
  from requestHandler_cases [OF request_failed(4)] show ?case
    by (elim disjE exE conjE) (simp_all add: server_emit_def startTcpAccept_def)
next
  case (upgrade_completed i s up ec ops streamsOpen remote t)
  then show ?case by (simp add: upgradeHandler_same(5) [OF upgrade_completed(2)])
next
  case (request_partial i s bs s')
  then show ?case by (simp add: readRequest_fields [OF request_partial(2)])
qed (simp_all add: same_connections_distinct [OF same_connections_start] same_connections_distinct [OF same_connections_stop(1)]
    same_connections_distinct [OF same_connections_stop(2)] acceptHandler_def onAcceptTcpConnection_def startTcpAccept_def Let_def)

lemma server_inv_step: "server_step E s e t \<Longrightarrow> server_inv E s \<Longrightarrow> server_inv E t"
  by (simp add: server_inv_def authentic_step distinct_step accepting_step callback_step)

interpretation serving: invariant_system server_init "server_step E" "server_inv E" for E
  by unfold_locales (rule server_inv_init server_inv_step; assumption)+

end
