(* ===== verification/Server_Connections.thy ===== *)
theory Server_Connections
  imports Server_Machine
begin

section \<open>The life of one connection\<close>

text \<open>
  What the server does with one connection, told without its acceptors, buffers and queues: the
  connection is accepted, its request is read, the user is asked about its credentials at most once,
  and only when they are accepted the stream is upgraded and becomes at most one session. The server
  is a family of such connections: every step of it is a step of at most one of them
  (interpretation of \<open>simulation\<close>).
\<close>

datatype 'ctx stage = Unborn | Reading | Upgrading "'ctx option" | Finished

record ('ctx, 'x) connection =
  co_stage :: "'ctx stage"
  co_asked :: "authentication list"
  co_sessions :: "'x list"

datatype connection_event =
  Accepted | RequestLost | Rejected authentication | LetIn authentication | UpgradeLost | Established

definition connection_init :: "('ctx, 'x) connection \<Rightarrow> bool" where
  "connection_init c \<longleftrightarrow> c = \<lparr>co_stage = Unborn, co_asked = [], co_sessions = []\<rparr>"

inductive connection_step ::
  "('f, 'ctx, 'u) server_env \<Rightarrow> nat \<Rightarrow> ('ctx, ('ctx, 'h, 'w, 'd, 'u) session) connection \<Rightarrow> connection_event \<Rightarrow>
   ('ctx, ('ctx, 'h, 'w, 'd, 'u) session) connection \<Rightarrow> bool"
  for E :: "('f, 'ctx, 'u) server_env" and k :: nat
where
  accepted: "co_stage c = Unborn \<Longrightarrow> connection_step E k c Accepted (c\<lparr>co_stage := Reading\<rparr>)"
| request_lost: "co_stage c = Reading \<Longrightarrow> connection_step E k c RequestLost (c\<lparr>co_stage := Finished\<rparr>)"
| rejected: "co_stage c = Reading \<Longrightarrow> env_authenticate E k auth = (False, ctx) \<Longrightarrow>
     connection_step E k c (Rejected auth) (c\<lparr>co_stage := Finished, co_asked := co_asked c @ [auth]\<rparr>)"
| let_in: "co_stage c = Reading \<Longrightarrow> env_authenticate E k auth = (True, ctx) \<Longrightarrow>
     connection_step E k c (LetIn auth) (c\<lparr>co_stage := Upgrading ctx, co_asked := co_asked c @ [auth]\<rparr>)"
| upgrade_lost: "co_stage c = Upgrading ctx \<Longrightarrow> connection_step E k c UpgradeLost (c\<lparr>co_stage := Finished\<rparr>)"
| established: "co_stage c = Upgrading ctx \<Longrightarrow>
     connection_step E k c Established (c\<lparr>co_stage := Finished,
       co_sessions := co_sessions c @ [createSession_s (env_suggested E) (env_user E) ctx address port]\<rparr>)"

inductive_cases connection_stepE: "connection_step E k c f d"

inductive_simps connection_step_simps:
  "connection_step E k c Accepted d"
  "connection_step E k c RequestLost d"
  "connection_step E k c (Rejected auth) d"
  "connection_step E k c (LetIn auth) d"
  "connection_step E k c UpgradeLost d"
  "connection_step E k c Established d"

text \<open>What a connection can be: asked about at most once, at most one session, and that one after the
  answer was yes, with the context of the answer.\<close>

fun connection_ok ::
  "('f, 'ctx, 'u) server_env \<Rightarrow> nat \<Rightarrow> 'ctx stage \<Rightarrow> authentication list \<Rightarrow> ('ctx, 'h, 'w, 'd, 'u) session list \<Rightarrow> bool" where
  "connection_ok E k (Upgrading ctx) asked sessions \<longleftrightarrow>
     (\<exists>auth. asked = [auth] \<and> env_authenticate E k auth = (True, ctx)) \<and> sessions = []"
| "connection_ok E k Finished asked sessions \<longleftrightarrow>
     asked = [] \<and> sessions = [] \<or>
     (\<exists>auth. asked = [auth] \<and> (sessions = [] \<or> (\<exists>ctx address port. env_authenticate E k auth = (True, ctx) \<and>
        sessions = [createSession_s (env_suggested E) (env_user E) ctx address port])))"
| "connection_ok E k stage asked sessions \<longleftrightarrow> asked = [] \<and> sessions = []"

definition connection_inv ::
  "('f, 'ctx, 'u) server_env \<Rightarrow> nat \<Rightarrow> ('ctx, ('ctx, 'h, 'w, 'd, 'u) session) connection \<Rightarrow> bool" where
  "connection_inv E k c \<longleftrightarrow> connection_ok E k (co_stage c) (co_asked c) (co_sessions c)"

lemma connection_inv_step: "connection_inv E k c \<Longrightarrow> connection_step E k c f d \<Longrightarrow> connection_inv E k d"
  by (erule connection_stepE) (auto simp: connection_inv_def)

interpretation connections: invariant_system connection_init "connection_step E k" "connection_inv E k" for E k
  by unfold_locales (auto simp: connection_init_def connection_inv_def intro: connection_inv_step [unfolded connection_inv_def])

lemma connection_invD:
  assumes "connection_inv E k c"
  shows "length (co_asked c) \<le> 1" and "length (co_sessions c) \<le> 1"
    and "x \<in> set (co_sessions c) \<Longrightarrow> \<exists>auth ctx address port. co_asked c = [auth] \<and>
          env_authenticate E k auth = (True, ctx) \<and> x = createSession_s (env_suggested E) (env_user E) ctx address port"
    and "x \<in> set (co_sessions c) \<Longrightarrow> co_sessions c = [x]"
  using assms by (cases "co_stage c"; auto simp: connection_inv_def)+

subsection \<open>The connections of a server\<close>

fun asked_about :: "nat \<Rightarrow> ('c, 'x) server_effect \<Rightarrow> authentication list" where
  "asked_about k (AuthenticateCalled j auth) = (if j = k then [auth] else [])"
| "asked_about k (ServerSession cb j x) = []"

fun session_of :: "nat \<Rightarrow> ('c, 'x) server_effect \<Rightarrow> 'x list" where
  "session_of k (AuthenticateCalled j auth) = []"
| "session_of k (ServerSession cb j x) = (if j = k then [x] else [])"

definition upgrades_map :: "('f, 'ctx) upgrade ops \<Rightarrow> (nat \<times> 'ctx option) list" where
  "upgrades_map ops = map (\<lambda>up. (up_stream up, up_context up)) (op_keys ops)"

definition stage_of :: "('c, 'f, 'ctx, 'x) server \<Rightarrow> nat \<Rightarrow> 'ctx stage" where
  "stage_of s k =
     (if length (sv_streams s) \<le> k then Unborn
      else if k \<in> set (map snd (op_keys (sv_reads s))) then Reading
      else case map_of (upgrades_map (sv_upgrades s)) k of Some ctx \<Rightarrow> Upgrading ctx | None \<Rightarrow> Finished)"

definition connection_of :: "nat \<Rightarrow> ('c, 'f, 'ctx, 'x) server \<Rightarrow> ('ctx, 'x) connection" where
  "connection_of k s =
     \<lparr>co_stage = stage_of s k, co_asked = concat (map (asked_about k) (sv_trace s)),
      co_sessions = concat (map (session_of k) (sv_trace s))\<rparr>"

lemma asked_about_simp [simp]: "auth \<in> set (asked_about k e) \<longleftrightarrow> e = AuthenticateCalled k auth"
  by (cases e) auto

lemma session_of_simp [simp]: "x \<in> set (session_of k e) \<longleftrightarrow> (\<exists>cb. e = ServerSession cb k x)"
  by (cases e) auto

lemma asked_about_in: "auth \<in> set (co_asked (connection_of k s)) \<longleftrightarrow> AuthenticateCalled k auth \<in> set (sv_trace s)"
  by (auto simp: connection_of_def)

lemma session_of_in: "x \<in> set (co_sessions (connection_of k s)) \<longleftrightarrow> (\<exists>cb. ServerSession cb k x \<in> set (sv_trace s))"
  by (auto simp: connection_of_def)

lemma connection_of_cong:
  assumes "sv_streams t = sv_streams s" and "op_keys (sv_reads t) = op_keys (sv_reads s)"
    and "op_keys (sv_upgrades t) = op_keys (sv_upgrades s)" and "sv_trace t = sv_trace s"
  shows "connection_of k t = connection_of k s"
  using assms by (simp add: connection_of_def stage_of_def upgrades_map_def del: set_map map_map)

lemma connection_of_same: "same_connections s t \<Longrightarrow> connection_of k t = connection_of k s"
  by (rule connection_of_cong) (simp_all add: same_connections_def)

lemma connection_of_accept [simp]: "connection_of k (startTcpAccept fam s) = connection_of k s"
  by (rule connection_of_same) simp

lemma upgrades_map_None: "map_of (upgrades_map ops) k = None \<longleftrightarrow> k \<notin> set (map up_stream (op_keys ops))"
  by (simp add: upgrades_map_def map_of_eq_None_iff image_image)

text \<open>The reading connections are neither upgraded nor in use.\<close>

lemma stage_read_removed:
  assumes s: "streams_distinct s" and i: "i < length (sv_reads s)" "sv_reads s ! i = ((fam, j), st)"
    and v: "v = s\<lparr>sv_reads := take i (sv_reads s) @ drop (Suc i) (sv_reads s)\<rparr>"
  shows "stage_of s j = Reading" and "stage_of v j = Finished" and "k \<noteq> j \<Longrightarrow> stage_of v k = stage_of s k"
    and "j \<notin> set (map snd (op_keys (sv_reads v)))" and "map_of (upgrades_map (sv_upgrades v)) j = None"
    and "j < length (sv_streams v)"
proof -
  have reads: "sv_reads s = take i (sv_reads s) @ ((fam, j), st) # drop (Suc i) (sv_reads s)"
    using take_drop_split [OF i(1)] i(2) by simp
  note removed = read_removed [OF s i v]
  show unread: "j \<notin> set (map snd (op_keys (sv_reads v)))" and new: "map_of (upgrades_map (sv_upgrades v)) j = None"
    using removed(2) unfolding streams_used_def upgrades_map_None by simp_all
  show len: "j < length (sv_streams v)" by (rule removed(3))
  show "stage_of v j = Finished"
    using unread new len by (simp add: stage_of_def del: set_map map_map)
  have keys: "set (map snd (op_keys (sv_reads s))) = insert j (set (map snd (op_keys (sv_reads v))))"
    by (subst reads) (auto simp: v)
  then show "stage_of s j = Reading" "k \<noteq> j \<Longrightarrow> stage_of v k = stage_of s k"
    using len by (simp_all add: stage_of_def v del: set_map map_map)
qed

lemma stage_start_upgrade:
  assumes "j \<notin> set (map snd (op_keys (sv_reads s)))" and "map_of (upgrades_map (sv_upgrades s)) j = None"
    and "j < length (sv_streams s)" and "up_stream up = j"
  shows "stage_of (s\<lparr>sv_upgrades := start_op up (sv_upgrades s)\<rparr>) k = (if k = j then Upgrading (up_context up) else stage_of s k)"
  using assms by (auto simp: stage_of_def upgrades_map_def map_add_def simp del: set_map map_map split: option.splits)

lemma connection_emit:
  "connection_of k (server_emit e s) =
     \<lparr>co_stage = stage_of s k, co_asked = co_asked (connection_of k s) @ asked_about k e,
      co_sessions = co_sessions (connection_of k s) @ session_of k e\<rparr>"
  by (simp add: connection_of_def stage_of_def server_emit_def)

lemma emit_upgrades: "(server_emit e s)\<lparr>sv_upgrades := ops\<rparr> = server_emit e (s\<lparr>sv_upgrades := ops\<rparr>)"
  by (simp add: server_emit_def)

lemma stage_upgrade_removed:
  assumes s: "streams_distinct s" and take: "take_op i (sv_upgrades s) = Some ((up, ec), ops)"
  shows "stage_of s (up_stream up) = Upgrading (up_context up)"
    and "stage_of (s\<lparr>sv_upgrades := ops\<rparr>) k = (if k = up_stream up then Finished else stage_of s k)"
proof -
  from take_op_split [OF take] obtain a b where ab: "sv_upgrades s = a @ (up, Ready ec) # b" "ops = a @ b"
    by blast
  note removed = upgrade_removed [OF assms]
  then have unused: "up_stream up \<notin> set (map snd (op_keys (sv_reads s)))" "map_of (upgrades_map ops) (up_stream up) = None"
    unfolding streams_used_def upgrades_map_None by simp_all
  have find: "map_of (upgrades_map (sv_upgrades s)) k =
      (if k = up_stream up then Some (up_context up) else map_of (upgrades_map ops) k)" for k
    using unused(2) by (auto simp: ab upgrades_map_def map_add_def split: option.splits)
  show "stage_of s (up_stream up) = Upgrading (up_context up)"
    using removed(3) unused by (simp add: stage_of_def find del: set_map map_map)
  show "stage_of (s\<lparr>sv_upgrades := ops\<rparr>) k = (if k = up_stream up then Finished else stage_of s k)"
    using removed(3) unused by (simp add: stage_of_def find del: set_map map_map)
qed

subsection \<open>A step of the server is a step of one connection\<close>

text \<open>All connections but \<open>j\<close> are as before, and \<open>j\<close> is or has made a step.\<close>

definition one_connection_moves ::
  "('f, 'ctx, 'u) server_env \<Rightarrow> nat \<Rightarrow> ('c, 'f, 'ctx, ('ctx, 'h, 'w, 'd, 'u) session) server \<Rightarrow>
   ('c, 'f, 'ctx, ('ctx, 'h, 'w, 'd, 'u) session) server \<Rightarrow> bool" where
  "one_connection_moves E j s t \<longleftrightarrow>
     (\<forall>k. k \<noteq> j \<longrightarrow> connection_of k t = connection_of k s) \<and>
     (connection_of j t = connection_of j s \<or> (\<exists>f. connection_step E j (connection_of j s) f (connection_of j t)))"

lemma none_moves: "(\<And>k. connection_of k t = connection_of k s) \<Longrightarrow> one_connection_moves E j s t"
  by (simp add: one_connection_moves_def)

lemma moves_trans_accept: "one_connection_moves E j s t \<Longrightarrow> one_connection_moves E j s (startTcpAccept fam t)"
  by (simp add: one_connection_moves_def)

text \<open>A connection whose request was read, or could not be read.\<close>

lemma requestHandler_moves:
  assumes s: "streams_distinct s" and i: "i < length (sv_reads s)" "sv_reads s ! i = ((fam, j), st)"
    and t: "leaves (requestHandler B (env_authenticate E j) fam ec j
      (s\<lparr>sv_reads := take i (sv_reads s) @ drop (Suc i) (sv_reads s)\<rparr>)) t"
  shows "one_connection_moves E j s t"
proof -
  let ?v = "s\<lparr>sv_reads := take i (sv_reads s) @ drop (Suc i) (sv_reads s)\<rparr>"
  note stages = stage_read_removed [OF s i refl]
  have lost: "one_connection_moves E j s ?v"
    using stages request_lost [of "connection_of j s" E j]
    by (auto simp: one_connection_moves_def connection_of_def)
  have called: "one_connection_moves E j s (server_emit (AuthenticateCalled j auth) ?v)"
    if "env_authenticate E j auth = (False, ctx)" for auth ctx
    using stages rejected [OF _ that, of "connection_of j s"]
    by (auto simp: one_connection_moves_def connection_emit) (auto simp: connection_of_def)
  have "one_connection_moves E j s (server_emit (AuthenticateCalled j auth) (?v\<lparr>sv_upgrades := start_op
      \<lparr>up_stream = j, up_context = ctx, up_request = req\<rparr> (sv_upgrades ?v)\<rparr>))"
    if "env_authenticate E j auth = (True, ctx)" for auth ctx req
    using stages stage_start_upgrade [OF stages(4-6), of "\<lparr>up_stream = j, up_context = ctx, up_request = req\<rparr>"]
      let_in [OF _ that, of "connection_of j s"]
    by (auto simp: one_connection_moves_def connection_emit) (auto simp: connection_of_def)
  with requestHandler_cases [OF t] lost called show ?thesis
    by (elim disjE exE conjE) (simp_all add: moves_trans_accept emit_upgrades)
qed

lemma upgradeHandler_moves:
  assumes s: "streams_distinct s" and take: "take_op i (sv_upgrades s) = Some ((up, ec), ops)"
    and t: "leaves (upgradeHandler (env_suggested E) (env_user E) streamsOpen remote ec up (s\<lparr>sv_upgrades := ops\<rparr>)) t"
  shows "one_connection_moves E (up_stream up) s t"
proof -
  note stages = stage_upgrade_removed [OF s take]
  have lost: "one_connection_moves E (up_stream up) s (s\<lparr>sv_upgrades := ops\<rparr>)"
    using stages upgrade_lost [of "connection_of (up_stream up) s" "up_context up" E "up_stream up"]
    by (auto simp: one_connection_moves_def connection_of_def)
  have "one_connection_moves E (up_stream up) s (server_emit (ServerSession cb (up_stream up)
      (createSession_s (env_suggested E) (env_user E) (up_context up) address port)) (s\<lparr>sv_upgrades := ops\<rparr>))"
    for cb address port
    using stages established [of "connection_of (up_stream up) s" "up_context up" E "up_stream up" address port]
    by (auto simp: one_connection_moves_def connection_emit) (auto simp: connection_of_def)
  with upgradeHandler_cases [OF t] lost show ?thesis by (elim disjE exE) simp_all
qed

lemma server_step_moves:
  "server_step E s e t \<Longrightarrow> streams_distinct (vs_server s) \<Longrightarrow>
   \<exists>j. one_connection_moves E j (vs_server s) (vs_server t)"
proof (induction rule: server_step.induct)
  case (start_server s net port)
  then show ?case by (simp add: none_moves connection_of_same [OF same_connections_start])
next
  case (stop_server s)
  then show ?case by (simp add: none_moves connection_of_same [OF same_connections_stop(1)])
next
  case (drop_server s)
  then show ?case by (simp add: none_moves connection_of_same [OF same_connections_stop(2)])
next
  case (finish_accept i ec s ops)
  then show ?case by (simp add: none_moves connection_of_same)
next
  case (accept_completed i s fam ec ops)
  let ?s = "vs_server s" and ?n = "length (sv_streams (vs_server s))"
  have new: "one_connection_moves E ?n ?s (?s\<lparr>sv_accepts := ops, sv_streams := sv_streams ?s @ [ws],
      sv_reads := start_op (fam, ?n) (sv_reads ?s)\<rparr>)" for ws
    using accepted [of "connection_of ?n ?s" E ?n]
    by (auto simp: one_connection_moves_def connection_of_def stage_of_def simp del: set_map)
  have same: "one_connection_moves E j ?s (startTcpAccept fam (?s\<lparr>sv_accepts := ops\<rparr>))"
    "one_connection_moves E j ?s (?s\<lparr>sv_accepts := ops\<rparr>)" for j
    by (simp_all add: none_moves connection_of_same)
  show ?case
    using new same by (auto simp: acceptHandler_def onAcceptTcpConnection_def Let_def)
next
  case (request_partial i s bs s')
  have "connection_of k s' = connection_of k (vs_server s)" for k
    by (rule connection_of_cong) (simp_all add: readRequest_fields [OF request_partial(2)])
  then show ?case by (simp add: none_moves)
next
  case (request_complete i s fam k bs s' t)
  note fields = readRequest_fields [OF request_complete(3)]
  have "streams_distinct s'" using request_complete(5) by (simp add: streams_distinct_def streams_used_def fields)
  moreover have "sv_reads s' ! i = ((fam, k), Running)" "i < length (sv_reads s')"
    using request_complete(1,2) by (simp_all add: fields)
  ultimately have "one_connection_moves E k s' t" using request_complete(4) by (blast intro: requestHandler_moves)
  moreover have "connection_of j s' = connection_of j (vs_server s)" for j
    by (rule connection_of_cong) (simp_all add: fields)
  ultimately show ?case by (auto simp: one_connection_moves_def)
next
  case (request_failed i s fam k ec t)
  from requestHandler_moves [OF request_failed(5,1,2,4)] show ?case by auto
next
  case (finish_upgrade i ec s ops)
  have "connection_of k ((vs_server s)\<lparr>sv_upgrades := ops\<rparr>) = connection_of k (vs_server s)" for k
    using finish_op_keys [OF finish_upgrade(1)] by (intro connection_of_cong) simp_all
  then show ?case by (simp add: none_moves)
next
  case (upgrade_completed i s up ec ops streamsOpen remote t)
  from upgradeHandler_moves [OF upgrade_completed(3,1,2)] show ?case by auto
qed

text \<open>Seen from one stream, the server is a machine of one connection.\<close>

lemma connection_of_step:
  assumes "server_inv E s" and "server_step E s e t"
  shows "connection_of k (vs_server t) = connection_of k (vs_server s) \<or>
     (\<exists>f. connection_step E k (connection_of k (vs_server s)) f (connection_of k (vs_server t)))"
proof -
  from assms(1) have "streams_distinct (vs_server s)" by (simp add: server_inv_def)
  from server_step_moves [OF assms(2) this] obtain j where "one_connection_moves E j (vs_server s) (vs_server t)" ..
  then show ?thesis by (cases "k = j") (simp_all add: one_connection_moves_def)
qed

lemma connection_of_init: "server_init s \<Longrightarrow> connection_init (connection_of k (vs_server s))"
  by (auto simp: server_init_def connection_init_def connection_of_def stage_of_def new_Server_def)

interpretation connected: simulation server_init "server_step E" "server_inv E" connection_init "connection_step E k"
    "\<lambda>s. connection_of k (vs_server s)" for E k
  by unfold_locales (rule connection_of_init connection_of_step; assumption)+

text \<open>What the invariant of connections says of a server.\<close>

lemma reachable_connection: "reachable server_init (server_step E) s \<Longrightarrow> connection_inv E k (connection_of k (vs_server s))"
  by (rule connections.reachable_inv [OF connected.reachable_abs])

lemma asked_once:
  assumes "reachable server_init (server_step E) s"
    and "AuthenticateCalled k auth \<in> set (sv_trace (vs_server s))"
    and "AuthenticateCalled k auth' \<in> set (sv_trace (vs_server s))"
  shows "auth' = auth"
proof -
  from reachable_connection [OF assms(1), of k] have "length (co_asked (connection_of k (vs_server s))) \<le> 1"
    by (rule connection_invD)
  with assms(2,3) show ?thesis
    by (cases "co_asked (connection_of k (vs_server s))") (auto simp flip: asked_about_in)
qed

lemma server_trace_grows: "server_step E s e t \<Longrightarrow> prefix (sv_trace (vs_server s)) (sv_trace (vs_server t))"
proof (induction rule: server_step.induct)
  case (request_complete i s fam k bs s' t)
  from requestHandler_cases [OF request_complete(4)] show ?case
    by (elim disjE exE conjE)
       (simp_all add: server_emit_def startTcpAccept_def readRequest_fields [OF request_complete(3)])
next
  case (request_failed i s fam k ec t)
  from requestHandler_cases [OF request_failed(4)] show ?case
    by (elim disjE exE conjE) (simp_all add: server_emit_def startTcpAccept_def)
next
  case (upgrade_completed i s up ec ops streamsOpen remote t)
  from upgradeHandler_cases [OF upgrade_completed(2)] show ?case
    by (elim disjE exE) (simp_all add: server_emit_def)
next
  case (start_server s net port)
  have "sv_trace (snd (start net port (vs_server s))) = sv_trace (vs_server s)"
    using same_connections_start [of "vs_server s" net port] by (simp add: same_connections_def)
  then show ?case by simp
next
  case (stop_server s)
  show ?case using same_connections_stop(1) [of "vs_server s"] by (simp add: same_connections_def)
next
  case (drop_server s)
  show ?case using same_connections_stop(2) [of "vs_server s"] by (simp add: same_connections_def)
next
  case (request_partial i s bs s')
  then show ?case by (simp add: readRequest_fields [OF request_partial(2)])
qed (simp_all add: acceptHandler_def onAcceptTcpConnection_def startTcpAccept_def Let_def)

interpretation calls: growing_output "server_step E" "\<lambda>s. sv_trace (vs_server s)" for E
  by unfold_locales (rule server_trace_grows)

text \<open>Once the user was asked about a connection, the answer stands for ever.\<close>

lemma answer_stands:
  assumes "reachable server_init (server_step E) s" and "AuthenticateCalled k auth \<in> set (sv_trace (vs_server s))"
    and "run (server_step E) s es t"
  shows "AuthenticateCalled k auth' \<in> set (sv_trace (vs_server t)) \<Longrightarrow> auth' = auth"
    and "ServerSession cb k x \<in> set (sv_trace (vs_server t)) \<Longrightarrow> env_authenticate E k auth = (True, getUserContext x)"
proof -
  have t: "reachable server_init (server_step E) t" using assms(1,3) by (rule run_reachable)
  have asked: "AuthenticateCalled k auth \<in> set (sv_trace (vs_server t))"
    using calls.run_grows [OF assms(3)] assms(2) by (auto dest: set_mono_prefix)
  then show once: "auth' = auth" if "AuthenticateCalled k auth' \<in> set (sv_trace (vs_server t))" for auth'
    using asked_once [OF t] that by blast
  assume "ServerSession cb k x \<in> set (sv_trace (vs_server t))"
  then have "x \<in> set (co_sessions (connection_of k (vs_server t)))" by (auto simp: session_of_in)
  from connection_invD(3) [OF reachable_connection [OF t] this] obtain auth' ctx address port where
    "co_asked (connection_of k (vs_server t)) = [auth']" and yes: "env_authenticate E k auth' = (True, ctx)"
    and x: "x = createSession_s (env_suggested E) (env_user E) ctx address port" by blast
  then have "auth' = auth" using once by (metis asked_about_in list.set_intros(1))
  with yes x show "env_authenticate E k auth = (True, getUserContext x)"
    by (simp add: createSession_s_def getUserContext_def new_Session_def setOptions_def Let_def)
qed

text \<open>A session is a fresh one, made after a positive answer about its connection, with the context of
  that answer.\<close>

lemma session_decided:
  assumes "reachable server_init (server_step E) s" and "ServerSession cb k x \<in> set (sv_trace (vs_server s))"
  obtains auth ctx address port where "AuthenticateCalled k auth \<in> set (sv_trace (vs_server s))"
    and "env_authenticate E k auth = (True, ctx)" and "getUserContext x = ctx"
    and "x = new_Session (env_suggested E) (env_user E) ctx server_role address port"
proof -
  have "x \<in> set (co_sessions (connection_of k (vs_server s)))" using assms(2) by (auto simp: session_of_in)
  from connection_invD(3) [OF reachable_connection [OF assms(1)] this] obtain auth ctx address port where
    auth: "co_asked (connection_of k (vs_server s)) = [auth]" "env_authenticate E k auth = (True, ctx)"
      "x = createSession_s (env_suggested E) (env_user E) ctx address port" by blast
  have "AuthenticateCalled k auth \<in> set (sv_trace (vs_server s))" using auth(1) by (simp flip: asked_about_in)
  then show ?thesis
    using that auth(2,3) by (simp add: createSession_s_def getUserContext_def new_Session_def setOptions_def Let_def)
qed

end
