(* ===== verification/Server_Properties.thy ===== *)
theory Server_Properties
  imports Server_Connections
begin

section \<open>Properties of the server\<close>

subsection \<open>Concrete runs\<close>

type_synonym example_server =
  "(nat, (http_field \<times> string) list, nat, (nat, unit, nat, nat, unit) session) server_system"

text \<open>A parser of requests of two bytes: the request of \<open>[1, 1]\<close> has credentials, others have none.\<close>

fun parse0 :: "byte list \<Rightarrow> ((http_field \<times> string) list \<times> byte list) option" where
  "parse0 (a # b # bs) =
     Some (if a = 1 \<and> b = 1 then [(AuthorizationField, ''Basic anVyZTpqdXJlMTIz'')] else [], bs)"
| "parse0 _ = None"

definition jure :: authentication where
  "jure = Authentication_basic ''jure'' ''jure123''"

definition env0 :: "((http_field \<times> string) list, nat, unit) server_env" where
  "env0 = \<lparr>env_boost = rfc_boost, env_parse = parse0,
     env_authenticate = (\<lambda>k auth. if auth = jure then (True, Some 5) else (False, None)),
     env_suggested = (\<lambda>role. \<lparr>handshake_timeout = 30000, idle_timeout = None, keep_alive_pings = False\<rparr>),
     env_user = ()\<rparr>"

definition net0 :: "16 word \<Rightarrow> family \<Rightarrow> net_results" where
  "net0 port fam = \<lparr>open_result = (if fam = V6 then OtherError 97 else NoError), v6_only_result = NoError,
     reuse_address_result = NoError, bind_result = NoError, listen_result = NoError\<rparr>"

lemma request_of_jure:
  "request_authentication rfc_boost [(AuthorizationField, ''Basic anVyZTpqdXJlMTIz'')] = Some jure"
  by code_simp

lemma request_of_nobody: "request_authentication rfc_boost [] = Some Authentication_default"
  by code_simp

definition vsystem0 :: example_server where
  "vsystem0 = \<lparr>vs_server = new_Server [] (Fn 1), vs_starts = 0\<rparr>"

lemma vsystem0_init: "server_init vsystem0"
  unfolding server_init_def vsystem0_def by blast

text \<open>The server is vsystem_started (without IPv6), a client connects.\<close>

definition server1 ::
  "(nat, (http_field \<times> string) list, nat, (nat, unit, nat, nat, unit) session) server" where
  "server1 = \<lparr>sv_onNewSession = Fn 1, sv_isOpen = (\<lambda>fam. False)(V4 := True), sv_acceptBuffer = [], sv_acceptRequest = [],
     sv_exists = True, sv_streams = [\<lparr>write_buffer_bytes = 65536, read_message_max = 0x10000000\<rparr>],
     sv_accepts = [], sv_reads = [((V4, 0), Running)], sv_upgrades = [], sv_trace = []\<rparr>"

definition vsystem1 :: example_server where
  "vsystem1 = \<lparr>vs_server = server1, vs_starts = 1\<rparr>"

lemmas server_run_defs =
  server_step_simps server_ops start_op_def cancel_ops_def finish_op_def take_op_def Let_def

definition vsystem_started :: example_server where
  "vsystem_started = \<lparr>vs_server = server1\<lparr>sv_streams := [], sv_accepts := [(V4, Running)], sv_reads := []\<rparr>, vs_starts = 1\<rparr>"

lemma start_vsystem0: "server_step E vsystem0 (StartServer 7420) vsystem_started"
proof -
  have "\<forall>fam. sv_isOpen (vs_server vsystem0) fam \<longrightarrow> failed (open_result (net0 7420 fam))"
    by (simp add: vsystem0_def new_Server_def)
  from start_server [of vsystem0 net0 7420 E, OF _ this] show ?thesis
    by (simp add: vsystem0_def vsystem_started_def server1_def server_ops net0_def start_op_def Let_def)
qed

lemma reachable_started: "reachable server_init (server_step E) vsystem_started"
  using reachable_step [of server_init "server_step E", OF reachable_init [of server_init, OF vsystem0_init] start_vsystem0] .

lemma run_vsystem1: "run (server_step E) vsystem_started [FinishAccept 0 NoError, AcceptCompleted 0] vsystem1"
  by (simp add: vsystem_started_def vsystem1_def server1_def server_run_defs)

lemma reachable_vsystem1: "reachable server_init (server_step E) vsystem1"
  by (rule run_reachable [OF reachable_started run_vsystem1])

text \<open>The client sends its request, byte by byte, and two bytes too many; the upgrade succeeds.\<close>

definition session0 :: "(nat, unit, nat, nat, unit) session" where
  "session0 = createSession_s (env_suggested env0) () (Some 5) ''::1'' 50000"

definition vsystem2 :: example_server where
  "vsystem2 = vsystem1\<lparr>vs_server := server1\<lparr>sv_acceptBuffer := [2, 2],
     sv_acceptRequest := [(AuthorizationField, ''Basic anVyZTpqdXJlMTIz'')], sv_accepts := [(V4, Running)],
     sv_reads := [], sv_trace := [AuthenticateCalled 0 jure, ServerSession 1 0 session0]\<rparr>\<rparr>"

lemma run_vsystem2: "run (server_step env0) vsystem1
    [RequestBytes 0 [1], RequestBytes 0 [1, 2, 2], FinishUpgrade 0 NoError, UpgradeCompleted 0 True (Inr (''::1'', 50000))]
    vsystem2"
  by (simp add: vsystem2_def vsystem1_def server1_def session0_def env0_def server_run_defs request_of_jure)

lemma reachable_vsystem2: "reachable server_init (server_step env0) vsystem2"
  by (rule run_reachable [OF reachable_vsystem1 run_vsystem2])

subsection \<open>A stopped server\<close>

text \<open>Only open acceptors have an accept running.\<close>

definition no_strays :: "('c, 'f, 'ctx, 'x) server \<Rightarrow> bool" where
  "no_strays v \<longleftrightarrow> (\<forall>fam \<in> set (running (sv_accepts v)). sv_isOpen v fam)"

lemma no_strays_ops:
  "no_strays v \<Longrightarrow> no_strays (startTcpAccept fam v)"
  "no_strays v \<Longrightarrow> no_strays (close_acceptor fam v)"
  "no_strays v \<Longrightarrow> no_strays (stopTcpAccept fam v)"
  "no_strays v \<Longrightarrow> no_strays (stop v)"
  "no_strays v \<Longrightarrow> no_strays (v\<lparr>sv_isOpen := (sv_isOpen v)(fam := True)\<rparr>)"
  "no_strays (v\<lparr>sv_exists := b\<rparr>) = no_strays v" "no_strays (v\<lparr>sv_reads := r\<rparr>) = no_strays v"
  "no_strays (v\<lparr>sv_upgrades := u\<rparr>) = no_strays v" "no_strays (server_emit e v) = no_strays v"
  by (auto simp: no_strays_def startTcpAccept_def close_acceptor_def stopTcpAccept_def stop_def server_emit_def)

lemma no_strays_init: "no_strays v \<Longrightarrow> no_strays (snd (snd (initAcceptor fam net v)))"
  by (simp add: initAcceptor_def no_strays_ops Let_def)

lemma no_strays_step: "server_step E s e t \<Longrightarrow> no_strays (vs_server s) \<Longrightarrow> no_strays (vs_server t)"
proof (induction rule: server_step.induct)
  case (start_server s net port)
  then show ?case by (simp add: start_server_state no_strays_init)
next
  case (stop_server s)
  then show ?case by (simp add: no_strays_ops)
next
  case (drop_server s)
  then show ?case by (simp add: destroy_Server_def no_strays_ops)
next
  case (finish_accept i ec s ops)
  then show ?case by (auto simp: no_strays_def dest!: finish_op_running_subset)
next
  case (accept_completed i s fam ec ops)
  then have "no_strays ((vs_server s)\<lparr>sv_accepts := ops\<rparr>)"
    by (simp add: no_strays_def take_op_running)
  then show ?case
    by (simp add: acceptHandler_def onAcceptTcpConnection_def no_strays_ops Let_def) (simp add: no_strays_def)
next
  case (request_partial i s bs s')
  then show ?case by (simp add: no_strays_def readRequest_fields [OF request_partial(2)])
next
  case (request_complete i s fam k bs s' t)
  then have "no_strays s'" by (simp add: no_strays_def readRequest_fields [OF request_complete(3)])
  with requestHandler_cases [OF request_complete(4)] show ?case
    by (elim disjE exE conjE) (simp_all add: no_strays_ops)
next
  case (request_failed i s fam k ec t)
  from requestHandler_cases [OF request_failed(4)] request_failed(5) show ?case
    by (elim disjE exE conjE) (simp_all add: no_strays_ops)
next
  case (finish_upgrade i ec s ops)
  then show ?case by (simp add: no_strays_ops)
next
  case (upgrade_completed i s up ec ops streamsOpen remote t)
  from upgradeHandler_cases [OF upgrade_completed(2)] upgrade_completed(3) show ?case
    by (elim disjE exE) (simp_all add: no_strays_ops)
qed

lemma no_strays_initially: "server_init s \<Longrightarrow> no_strays (vs_server s)"
  by (auto simp: server_init_def new_Server_def no_strays_def)

interpretation strays: invariant_system server_init "server_step E" "\<lambda>s. no_strays (vs_server s)" for E
  by unfold_locales (rule no_strays_initially no_strays_step; assumption)+

text \<open>The steps other than starting, and a server that has no acceptor open.\<close>

definition later_step where
  "later_step E s e t \<longleftrightarrow> server_step E s e t \<and> (\<forall>port. e \<noteq> StartServer port)"

definition stopped :: "('c, 'f, 'ctx, 'x) server_system \<Rightarrow> bool" where
  "stopped s \<longleftrightarrow> (\<forall>fam. \<not> sv_isOpen (vs_server s) fam) \<and> no_strays (vs_server s)"

lemma stopped_step: "later_step E s e t \<Longrightarrow> stopped s \<Longrightarrow> stopped t"
  unfolding later_step_def stopped_def
proof (elim conjE, intro conjI)
  assume step: "server_step E s e t" and "\<forall>fam. \<not> sv_isOpen (vs_server s) fam" and "\<forall>port. e \<noteq> StartServer port"
  then show "\<forall>fam. \<not> sv_isOpen (vs_server t) fam"
  proof (induction rule: server_step.induct)
    case (request_complete i s fam k bs s' t)
    then show ?case
      by (simp add: requestHandler_tokens(2) [OF request_complete(4)] readRequest_fields [OF request_complete(3)])
  next
    case (request_failed i s fam k ec t)
    then show ?case by (simp add: requestHandler_tokens(2) [OF request_failed(4)])
  next
    case (upgrade_completed i s up ec ops streamsOpen remote t)
    then show ?case by (simp add: upgradeHandler_same(2) [OF upgrade_completed(2)])
  next
    case (request_partial i s bs s')
    then show ?case by (simp add: readRequest_fields [OF request_partial(2)])
  qed (simp_all add: stop_fields destroy_Server_def acceptHandler_def onAcceptTcpConnection_def
      startTcpAccept_def Let_def)
  assume "no_strays (vs_server s)"
  with step show "no_strays (vs_server t)" by (rule no_strays_step)
qed

interpretation silence: invariant_system stopped "later_step E" stopped for E
  by unfold_locales (auto intro: stopped_step)

lemma stopped_quiet:
  assumes "stopped t"
  shows "\<not> sv_isOpen (vs_server t) fam \<and> running (sv_accepts (vs_server t)) = []"
proof
  show "\<not> sv_isOpen (vs_server t) fam" using assms by (simp add: stopped_def)
  have "set (running (sv_accepts (vs_server t))) \<subseteq> {}"
    using assms by (auto simp: stopped_def no_strays_def)
  then show "running (sv_accepts (vs_server t)) = []" by simp
qed

subsection \<open>A request that has been read\<close>

lemma requestHandler_asks:
  assumes "sv_exists s" and "request_authentication B (sv_acceptRequest s) = Some auth"
  shows "\<exists>t. leaves (requestHandler B A fam NoError k s) t \<and> AuthenticateCalled k auth \<in> set (sv_trace t)"
proof -
  obtain ok ctx where "A auth = (ok, ctx)" by fastforce
  with assms show ?thesis
    by (cases ok) (simp_all add: requestHandler_def onReadAcceptRequest_def startTcpAccept_def server_emit_def Let_def)
qed

text \<open>A request that is completed by the bytes \<open>bs\<close> is answered for the connection that brought them.\<close>

lemma request_answered:
  assumes "sv_exists (vs_server s)" and "i < length (sv_reads (vs_server s))"
    and "sv_reads (vs_server s) ! i = ((fam, k), Running)"
    and "env_parse E (sv_acceptBuffer (vs_server s) @ bs) = Some (request, rest)"
    and "request_authentication (env_boost E) request = Some auth"
  shows "\<exists>t. server_step E s (RequestBytes i bs) t \<and> AuthenticateCalled k auth \<in> set (sv_trace (vs_server t))"
proof -
  let ?s' = "(vs_server s)\<lparr>sv_acceptBuffer := rest, sv_acceptRequest := request\<rparr>"
  obtain t where t: "leaves (requestHandler (env_boost E) (env_authenticate E k) fam NoError k
      (?s'\<lparr>sv_reads := take i (sv_reads ?s') @ drop (Suc i) (sv_reads ?s')\<rparr>)) t"
    "AuthenticateCalled k auth \<in> set (sv_trace t)"
    using requestHandler_asks [of "?s'\<lparr>sv_reads := take i (sv_reads ?s') @ drop (Suc i) (sv_reads ?s')\<rparr>"]
      assms(1,5) by fastforce
  have "readRequest (env_parse E) bs (vs_server s) = (?s', True)"
    using assms(4) by (simp add: readRequest_def)
  from request_complete [OF assms(2,3) this t(1)] t(2) show ?thesis by fastforce
qed

lemma request_rest_kept:
  assumes "server_step E s (RequestBytes i bs) t" and "env_parse E (sv_acceptBuffer (vs_server s) @ bs) = Some (request, rest)"
  shows "sv_acceptBuffer (vs_server t) = rest"
proof -
  have "readRequest (env_parse E) bs (vs_server s) =
      ((vs_server s)\<lparr>sv_acceptBuffer := rest, sv_acceptRequest := request\<rparr>, True)"
    using assms(2) by (simp add: readRequest_def)
  with assms(1) obtain fam k where "leaves (requestHandler (env_boost E) (env_authenticate E k) fam NoError k
      ((vs_server s)\<lparr>sv_acceptBuffer := rest, sv_acceptRequest := request,
         sv_reads := take i (sv_reads (vs_server s)) @ drop (Suc i) (sv_reads (vs_server s))\<rparr>)) (vs_server t)"
    by (auto simp: server_step_simps)
  from requestHandler_cases [OF this] show ?thesis
    by (elim disjE exE conjE) (simp_all add: startTcpAccept_def server_emit_def)
qed

text \<open>What it leaves of the server: the acceptor accepts again and the bytes after the request are kept.\<close>

lemma request_read_on:
  assumes "sv_exists (vs_server s)" and "i < length (sv_reads (vs_server s))"
    and "sv_reads (vs_server s) ! i = ((fam, k), Running)"
    and "env_parse E (sv_acceptBuffer (vs_server s) @ bs) = Some (request, rest)"
    and "request_authentication (env_boost E) request = Some auth" and "sv_isOpen (vs_server s) fam"
  shows "\<exists>t. server_step E s (RequestBytes i bs) t \<and> AuthenticateCalled k auth \<in> set (sv_trace (vs_server t)) \<and>
     sv_exists (vs_server t) \<and> sv_acceptBuffer (vs_server t) = rest \<and> sv_streams (vs_server t) = sv_streams (vs_server s) \<and>
     sv_accepts (vs_server t) = start_op fam (sv_accepts (vs_server s)) \<and>
     sv_reads (vs_server t) = take i (sv_reads (vs_server s)) @ drop (Suc i) (sv_reads (vs_server s))"
proof -
  from request_answered [OF assms(1-5)] obtain t where
    t: "server_step E s (RequestBytes i bs) t" "AuthenticateCalled k auth \<in> set (sv_trace (vs_server t))" by blast
  have read: "readRequest (env_parse E) bs (vs_server s) =
      ((vs_server s)\<lparr>sv_acceptBuffer := rest, sv_acceptRequest := request\<rparr>, True)"
    using assms(4) by (simp add: readRequest_def)
  from t(1) have "leaves (requestHandler (env_boost E) (env_authenticate E k) fam NoError k
      ((vs_server s)\<lparr>sv_acceptBuffer := rest, sv_acceptRequest := request,
         sv_reads := take i (sv_reads (vs_server s)) @ drop (Suc i) (sv_reads (vs_server s))\<rparr>)) (vs_server t)"
    using assms(3) read by (auto simp: server_step_simps)
  from requestHandler_cases [OF this] t assms(1,6) show ?thesis
    by (intro exI [of _ t]) (elim disjE exE conjE; simp add: startTcpAccept_def server_emit_def)
qed

subsection \<open>Starting\<close>

definition set_up :: "(16 word \<Rightarrow> family \<Rightarrow> net_results) \<Rightarrow> 16 word \<Rightarrow> family \<Rightarrow> bool" where
  "set_up net port fam \<longleftrightarrow>
     \<not> failed (open_result (net port fam)) \<and> \<not> failed (first_failure (setup_calls fam (net port fam)))"

lemma start_code:
  "fst (start net port s) =
      (if \<exists>fam. set_up net port fam then NoError
       else if failed (open_result (net port V6)) then open_result (net port V6)
            else first_failure (setup_calls V6 (net port V6)))"
  unfolding ex_family set_up_def by (simp add: start_def initAcceptor_def Let_def)

lemma not_set_up_failed:
  "\<not> set_up net port fam \<Longrightarrow> \<not> failed (open_result (net port fam)) \<Longrightarrow>
   first_failure (setup_calls fam (net port fam)) \<noteq> NoError"
  by (auto simp: set_up_def)

text \<open>No acceptor is open, none has an accept outstanding, and no connection was ever accepted.\<close>

definition unstarted :: "('c, 'f, 'ctx, 'x) server \<Rightarrow> bool" where
  "unstarted v \<longleftrightarrow> (\<forall>fam. \<not> sv_isOpen v fam) \<and> sv_accepts v = [] \<and> sv_streams v = []"

lemma unstarted_step: "later_step E s e t \<Longrightarrow> unstarted (vs_server s) \<Longrightarrow> unstarted (vs_server t)"
  unfolding later_step_def
proof (elim conjE)
  assume "server_step E s e t" and "\<forall>port. e \<noteq> StartServer port" and "unstarted (vs_server s)"
  then show "unstarted (vs_server t)"
  proof (induction rule: server_step.induct)
    case (request_complete i s fam k bs s' t)
    from requestHandler_cases [OF request_complete(4)] request_complete(6) show ?case
      by (elim disjE exE conjE)
         (simp_all add: unstarted_def startTcpAccept_def server_emit_def readRequest_fields [OF request_complete(3)])
  next
    case (request_failed i s fam k ec t)
    from requestHandler_cases [OF request_failed(4)] request_failed(6) show ?case
      by (elim disjE exE conjE) (simp_all add: unstarted_def startTcpAccept_def server_emit_def)
  next
    case (upgrade_completed i s up ec ops streamsOpen remote t)
    from upgradeHandler_cases [OF upgrade_completed(2)] upgrade_completed(4) show ?case
      by (elim disjE exE) (simp_all add: unstarted_def server_emit_def)
  next
    case (request_partial i s bs s')
    then show ?case by (simp add: unstarted_def readRequest_fields [OF request_partial(2)])
  qed (auto simp: unstarted_def stop_def stopTcpAccept_def destroy_Server_def finish_op_def take_op_def)
qed

interpretation deaf: invariant_system "\<lambda>s. unstarted (vs_server s)" "later_step E" "\<lambda>s. unstarted (vs_server s)" for E
  by unfold_locales (auto intro: unstarted_step)

lemma starts_grow: "server_step E s e t \<Longrightarrow> vs_starts t = 0 \<Longrightarrow> vs_starts s = 0 \<and> later_step E s e t"
  unfolding later_step_def by (erule server_step.cases) (auto intro: server_step.intros)

lemma unborn_init: "server_init s \<Longrightarrow> vs_starts s = 0 \<longrightarrow> unstarted (vs_server s)"
  by (auto simp: server_init_def new_Server_def unstarted_def)

lemma unborn_step:
  "vs_starts s = 0 \<longrightarrow> unstarted (vs_server s) \<Longrightarrow> server_step E s e t \<Longrightarrow> vs_starts t = 0 \<longrightarrow> unstarted (vs_server t)"
  using starts_grow [of E s e t] unstarted_step [of E s e t] by (cases "vs_starts t = 0") simp_all

interpretation unborn: invariant_system server_init "server_step E" "\<lambda>s. vs_starts s = 0 \<longrightarrow> unstarted (vs_server s)" for E
  by unfold_locales (rule unborn_init unborn_step; assumption)+

lemma init_acceptor_effect:
  assumes "\<not> sv_isOpen v fam" and "fam \<notin> set (op_keys (sv_accepts v))"
  shows "sv_isOpen (snd (snd (initAcceptor fam (net port fam) v))) = (sv_isOpen v)(fam := set_up net port fam) \<and>
     sv_accepts (snd (snd (initAcceptor fam (net port fam) v))) =
       sv_accepts v @ (if set_up net port fam then [(fam, Running)] else []) \<and>
     sv_exists (snd (snd (initAcceptor fam (net port fam) v))) = sv_exists v \<and>
     sv_streams (snd (snd (initAcceptor fam (net port fam) v))) = sv_streams v"
proof -
  have none: "cancel_ops (\<lambda>k. k = fam) (sv_accepts v) = sv_accepts v"
    unfolding cancel_ops_def using assms(2) by (intro map_idI) force
  have closed: "(sv_isOpen v)(fam := False) = sv_isOpen v" using assms(1) by (simp add: fun_upd_idem)
  show ?thesis
    by (simp add: initAcceptor_def set_up_def startTcpAccept_def close_acceptor_def start_op_def none closed Let_def)
qed

lemma start_unstarted:
  assumes "unstarted v"
  shows "sv_isOpen (snd (start net port v)) fam = set_up net port fam"
    and "fam \<in> set (running (sv_accepts (snd (start net port v)))) \<longleftrightarrow> set_up net port fam"
    and "sv_exists (snd (start net port v)) = sv_exists v"
    and "(\<nexists>fam. set_up net port fam) \<Longrightarrow> unstarted (snd (start net port v))"
proof -
  let ?v4 = "snd (snd (initAcceptor V4 (net port V4) v))" and ?v = "snd (start net port v)"
  have v: "\<not> sv_isOpen v f" "sv_accepts v = []" "sv_streams v = []" for f using assms by (simp_all add: unstarted_def)
  have v4: "sv_isOpen ?v4 = (sv_isOpen v)(V4 := set_up net port V4)" "sv_exists ?v4 = sv_exists v"
    "sv_accepts ?v4 = (if set_up net port V4 then [(V4, Running)] else [])" "sv_streams ?v4 = []"
    using init_acceptor_effect [of v V4 net port] v by simp_all
  have "sv_isOpen ?v = (sv_isOpen ?v4)(V6 := set_up net port V6) \<and>
     sv_accepts ?v = sv_accepts ?v4 @ (if set_up net port V6 then [(V6, Running)] else []) \<and>
     sv_exists ?v = sv_exists ?v4 \<and> sv_streams ?v = sv_streams ?v4"
    unfolding start_server_state by (rule init_acceptor_effect) (auto simp: v4 v)
  then have all: "sv_isOpen ?v = (sv_isOpen v)(V4 := set_up net port V4, V6 := set_up net port V6)"
    "sv_accepts ?v = (if set_up net port V4 then [(V4, Running)] else []) @ (if set_up net port V6 then [(V6, Running)] else [])"
    "sv_exists ?v = sv_exists v" "sv_streams ?v = []" by (simp_all add: v4)
  show "sv_isOpen ?v fam = set_up net port fam" by (cases fam) (simp_all add: all)
  show "fam \<in> set (running (sv_accepts ?v)) \<longleftrightarrow> set_up net port fam" by (cases fam) (auto simp: all running_def)
  show "sv_exists ?v = sv_exists v" by (rule all)
  show "unstarted ?v" if "\<nexists>fam. set_up net port fam"
    using that v by (simp add: unstarted_def all)
qed

text \<open>A running accept can take a connection.\<close>

lemma accepts_next:
  assumes "fam \<in> set (running (sv_accepts (vs_server s)))" and "sv_exists (vs_server s)"
  shows "\<exists>es t. run (later_step E) s es t \<and> sv_streams (vs_server t) \<noteq> []"
proof -
  let ?a = "sv_accepts (vs_server s)"
  from assms(1) obtain i where i: "i < length ?a" "?a ! i = (fam, Running)"
    by (auto simp: running_def in_set_conv_nth)
  let ?u = "s\<lparr>vs_server := (vs_server s)\<lparr>sv_accepts := ?a[i := (fam, Ready NoError)]\<rparr>\<rparr>"
  have u: "later_step E s (FinishAccept i NoError) ?u"
    unfolding later_step_def using i by (intro conjI finish_accept) (simp_all add: finish_op_def)
  obtain ops where take: "take_op i (sv_accepts (vs_server ?u)) = Some ((fam, NoError), ops)"
    using i by (auto simp: take_op_def)
  let ?t = "?u\<lparr>vs_server := acceptHandler fam NoError ((vs_server ?u)\<lparr>sv_accepts := ops\<rparr>)\<rparr>"
  have "later_step E ?u (AcceptCompleted i) ?t"
    unfolding later_step_def using accept_completed [OF take] by simp
  with u have "run (later_step E) s [FinishAccept i NoError, AcceptCompleted i] ?t" by (simp only: run.simps) blast
  moreover have "sv_streams (vs_server ?t) \<noteq> []"
    using assms(2) by (simp add: acceptHandler_def onAcceptTcpConnection_def Let_def)
  ultimately show ?thesis by blast
qed

subsection \<open>Properties\<close>

text \<open>C10: A session exists only for a connection whose request the user's callback has let in: the
  callback was asked about that connection exactly once, about the credentials of its request, and
  accepted them, the session is the only one of the connection, and carries the context of that
  answer.\<close>

theorem session_requires_authentication:
  assumes "reachable server_init (server_step E) s" and "ServerSession cb k x \<in> set (sv_trace (vs_server s))"
  shows "\<exists>auth ctx address port. concat (map (asked_about k) (sv_trace (vs_server s))) = [auth] \<and>
     concat (map (session_of k) (sv_trace (vs_server s))) = [x] \<and>
     env_authenticate E k auth = (True, ctx) \<and> getUserContext x = ctx \<and>
     x = new_Session (env_suggested E) (env_user E) ctx server_role address port"
proof -
  have x: "x \<in> set (co_sessions (connection_of k (vs_server s)))" using assms(2) by (auto simp: session_of_in)
  note once = connection_invD(3,4) [OF reachable_connection [OF assms(1)] x]
  then show ?thesis
    by (auto simp: connection_of_def createSession_s_def getUserContext_def new_Session_def setOptions_def Let_def)
qed

theorem session_requires_authentication_witness:
  "\<exists>auth. concat (map (asked_about 0) (sv_trace (vs_server vsystem2))) = [auth] \<and>
     env_authenticate env0 0 auth = (True, getUserContext session0)"
  using session_requires_authentication [OF reachable_vsystem2, of 1 0 session0]
  by (auto simp: vsystem2_def)

text \<open>C14: The server refines a family of independent connections: every step of it leaves all connections but
  one as they are, and that one makes a step of its life or none; so each connection is accepted, read,
  asked about at most once, upgraded only after a yes, and becomes at most one session.\<close>

theorem server_refines_connections:
  assumes "reachable server_init (server_step E) s" and "server_step E s e t"
  shows "(\<exists>j. (\<forall>k. k \<noteq> j \<longrightarrow> connection_of k (vs_server t) = connection_of k (vs_server s)) \<and>
       (connection_of j (vs_server t) = connection_of j (vs_server s) \<or>
        (\<exists>f. connection_step E j (connection_of j (vs_server s)) f (connection_of j (vs_server t))))) \<and>
     (\<forall>k. reachable connection_init (connection_step E k) (connection_of k (vs_server t)))"
proof
  have "streams_distinct (vs_server s)" using serving.reachable_inv [OF assms(1)] by (simp add: server_inv_def)
  from server_step_moves [OF assms(2) this]
  show "\<exists>j. (\<forall>k. k \<noteq> j \<longrightarrow> connection_of k (vs_server t) = connection_of k (vs_server s)) \<and>
       (connection_of j (vs_server t) = connection_of j (vs_server s) \<or>
        (\<exists>f. connection_step E j (connection_of j (vs_server s)) f (connection_of j (vs_server t))))"
    by (simp add: one_connection_moves_def)
  show "\<forall>k. reachable connection_init (connection_step E k) (connection_of k (vs_server t))"
    using connected.reachable_abs [OF reachable_step [OF assms]] by blast
qed

text \<open>A client without credentials is turned away.\<close>

theorem server_refines_connections_witness:
  "\<exists>t. server_step env0 vsystem1 (RequestBytes 0 [2, 2]) t \<and>
     connection_of 0 (vs_server t) = \<lparr>co_stage = Finished, co_asked = [Authentication_default], co_sessions = []\<rparr> \<and>
     reachable connection_init (connection_step env0 0) (connection_of 0 (vs_server t))"
proof -
  let ?t = "vsystem1\<lparr>vs_server := server1\<lparr>sv_accepts := [(V4, Running)], sv_reads := [],
      sv_trace := [AuthenticateCalled 0 Authentication_default]\<rparr>\<rparr>"
  have step: "server_step env0 vsystem1 (RequestBytes 0 [2, 2]) ?t"
    by (simp add: vsystem1_def server1_def env0_def jure_def authentication_ops server_run_defs request_of_nobody)
  moreover have "connection_of 0 (vs_server ?t) =
      \<lparr>co_stage = Finished, co_asked = [Authentication_default], co_sessions = []\<rparr>"
    by (simp add: connection_of_def stage_of_def upgrades_map_def server1_def vsystem1_def)
  ultimately show ?thesis
    using server_refines_connections [OF reachable_vsystem1 step] by metis
qed

text \<open>A connection becomes at most one session: no stream is handed out twice, and none that is still
  being read or upgraded has been handed out.\<close>

theorem one_session_per_connection:
  assumes "reachable server_init (server_step E) s"
  shows "distinct (map snd (op_keys (sv_reads (vs_server s))) @ map up_stream (op_keys (sv_upgrades (vs_server s))) @
     concat (map session_stream (sv_trace (vs_server s))))"
  using serving.reachable_inv [OF assms] by (simp add: server_inv_def streams_distinct_def streams_used_def del: map_map)

theorem one_session_per_connection_witness:
  "distinct (concat (map session_stream (sv_trace (vs_server vsystem2)))) \<and>
   concat (map session_stream (sv_trace (vs_server vsystem2))) = [0]"
  using one_session_per_connection [OF reachable_vsystem2] by (simp add: vsystem2_def)

text \<open>C25: An open acceptor never stops accepting: there is always an accept outstanding that was not
  aborted, or the request of a connection that was accepted; the server started once has exactly one
  of them.\<close>

theorem acceptor_goes_on:
  assumes "reachable server_init (server_step E) s" and "sv_exists (vs_server s)" and "sv_isOpen (vs_server s) fam"
  shows "1 \<le> accept_tokens fam (vs_server s) \<and> (vs_starts s = 1 \<longrightarrow> accept_tokens fam (vs_server s) = 1)"
proof -
  have "accepting s" using serving.reachable_inv [OF assms(1)] by (simp add: server_inv_def)
  from acceptingD(1) [OF this assms(2,3)] acceptingD(3) [OF this, of fam] show ?thesis by auto
qed

theorem acceptor_goes_on_witness: "accept_tokens V4 (vs_server vsystem2) = 1"
  using acceptor_goes_on [OF reachable_vsystem2, of V4] by (simp add: vsystem2_def vsystem1_def server1_def)

text \<open>While the request of an accepted connection is being read, its acceptor accepts nothing: a client
  that connects and sends nothing keeps every later client of that acceptor waiting, and no timer
  ends the read.\<close>

theorem silent_client_blocks_acceptor:
  assumes "reachable server_init (server_step E) s" and "vs_starts s = 1"
    and "((fam, k), st) \<in> set (sv_reads (vs_server s))"
  shows "fam \<notin> set (running (sv_accepts (vs_server s)))"
proof
  assume "fam \<in> set (running (sv_accepts (vs_server s)))"
  then have "(fam, Running) \<in> set (sv_accepts (vs_server s))" by (auto simp: running_def)
  then have "filter (\<lambda>(f, st). f = fam \<and> st \<noteq> Ready OperationAborted) (sv_accepts (vs_server s)) \<noteq> []"
    by (force simp: filter_empty_conv)
  moreover have "filter (\<lambda>((f, k), st). f = fam) (sv_reads (vs_server s)) \<noteq> []"
    using assms(3) by (force simp: filter_empty_conv)
  ultimately have "2 \<le> accept_tokens fam (vs_server s)"
    unfolding accept_tokens_def by (metis add_mono length_greater_0_conv One_nat_def Suc_leI one_add_one)
  moreover have "accepting s" using serving.reachable_inv [OF assms(1)] by (simp add: server_inv_def)
  ultimately show False using acceptingD(3) [of s fam] assms(2) by simp
qed

theorem silent_client_blocks_acceptor_witness: "V4 \<notin> set (running (sv_accepts (vs_server vsystem1)))"
  using silent_client_blocks_acceptor [OF reachable_vsystem1, of V4 0 Running]
  by (simp add: vsystem1_def server1_def)

text \<open>C30: An existing server that was not started before starts successfully exactly when one of its two acceptors
  could be opened and set up, although the other one may have failed; otherwise the error is the one of
  the IPv6 acceptor. The acceptors that could be set up, and no others, are open and accepting
  afterwards, and success means that the server can be connected to: from then on a connection can be
  accepted, without starting it again, exactly when success was returned.\<close>

theorem start_result:
  assumes "reachable server_init (server_step E) s" and "vs_starts s = 0" and "sv_exists (vs_server s)"
  shows "fst (start net port (vs_server s)) =
      (if \<exists>fam. set_up net port fam then NoError
       else if failed (open_result (net port V6)) then open_result (net port V6)
            else first_failure (setup_calls V6 (net port V6))) \<and>
    (\<forall>fam. sv_isOpen (snd (start net port (vs_server s))) fam = set_up net port fam \<and>
       (fam \<in> set (running (sv_accepts (snd (start net port (vs_server s))))) \<longleftrightarrow> set_up net port fam)) \<and>
    ((\<exists>es t. run (later_step E) (s\<lparr>vs_server := snd (start net port (vs_server s))\<rparr>) es t \<and> sv_streams (vs_server t) \<noteq> [])
       \<longleftrightarrow> fst (start net port (vs_server s)) = NoError)"
proof (intro conjI)
  let ?s = "s\<lparr>vs_server := snd (start net port (vs_server s))\<rparr>"
  have none: "unstarted (vs_server s)" using unborn.reachable_inv [OF assms(1)] assms(2) by simp
  note started = start_unstarted [OF none, where net = net and port = port]
  show "fst (start net port (vs_server s)) =
      (if \<exists>fam. set_up net port fam then NoError
       else if failed (open_result (net port V6)) then open_result (net port V6)
            else first_failure (setup_calls V6 (net port V6)))" by (rule start_code)
  show "\<forall>fam. sv_isOpen (snd (start net port (vs_server s))) fam = set_up net port fam \<and>
      (fam \<in> set (running (sv_accepts (snd (start net port (vs_server s))))) \<longleftrightarrow> set_up net port fam)"
    using started(1,2) by simp
  have exists: "sv_exists (vs_server ?s)" using started(3) assms(3) by simp
  show "(\<exists>es t. run (later_step E) ?s es t \<and> sv_streams (vs_server t) \<noteq> []) \<longleftrightarrow> fst (start net port (vs_server s)) = NoError"
  proof (cases "\<exists>fam. set_up net port fam")
    case True
    then obtain fam where "fam \<in> set (running (sv_accepts (vs_server ?s)))" using started(2) by auto
    from accepts_next [OF this exists] True show ?thesis by (auto simp: start_code)
  next
    case False
    then have "unstarted (vs_server ?s)" using started(4) by simp
    then have "sv_streams (vs_server t) = []" if "run (later_step E) ?s es t" for es t
      using deaf.run_inv [OF _ that] by (simp add: unstarted_def)
    moreover have "fst (start net port (vs_server s)) \<noteq> NoError"
      using False not_set_up_failed [of net port V6] by (auto simp: start_code)
    ultimately show ?thesis by blast
  qed
qed

theorem start_result_witness:
  "fst (start net0 7420 (vs_server vsystem0)) = NoError \<and> failed (open_result (net0 7420 V6)) \<and>
   (\<exists>es t. run (later_step env0) (vsystem0\<lparr>vs_server := snd (start net0 7420 (vs_server vsystem0))\<rparr>) es t \<and>
      sv_streams (vs_server t) \<noteq> [])"
proof -
  have "set_up net0 7420 V4" by (simp add: set_up_def net0_def setup_calls_def)
  moreover have "failed (open_result (net0 7420 V6))" by (simp add: net0_def)
  moreover note start_result [OF reachable_init [of server_init, OF vsystem0_init], of net0 7420 env0]
  ultimately show ?thesis by (auto simp: vsystem0_def new_Server_def)
qed

text \<open>A server that listens cannot be started again: opening an open acceptor fails, the error is
  returned and nothing changes.\<close>

theorem restart_rejected:
  assumes "failed (open_result (net port V4))" and "failed (open_result (net port V6))"
  shows "start net port s = (open_result (net port V6), s)"
  using assms by (simp add: start_def initAcceptor_def Let_def)

theorem restart_rejected_witness:
  "start (\<lambda>port fam. (net0 port fam)\<lparr>open_result := OtherError 1\<rparr>) 7420 server1 = (OtherError 1, server1)"
  using restart_rejected [of "\<lambda>port fam. (net0 port fam)\<lparr>open_result := OtherError 1\<rparr>" 7420 server1] by simp

text \<open>C29: A stopped server stays silent until it is started again: its acceptors stay closed and no accept
  is ever started, whatever connections and requests are still in progress.\<close>

theorem stopped_server_accepts_nothing:
  assumes "reachable server_init (server_step E) s" and "run (later_step E) (s\<lparr>vs_server := stop (vs_server s)\<rparr>) es t"
  shows "\<not> sv_isOpen (vs_server t) fam \<and> running (sv_accepts (vs_server t)) = []"
proof -
  have "no_strays (vs_server s)" using assms(1) by (rule strays.reachable_inv)
  then have "stopped (s\<lparr>vs_server := stop (vs_server s)\<rparr>)"
    by (simp add: stopped_def stop_fields no_strays_ops)
  then have "stopped t" using assms(2) by (rule silence.run_inv)
  then show ?thesis by (rule stopped_quiet)
qed

theorem stopped_server_accepts_nothing_witness:
  "\<exists>t. run (later_step env0) (vsystem1\<lparr>vs_server := stop (vs_server vsystem1)\<rparr>) [RequestBytes 0 [1, 1]] t \<and>
     running (sv_accepts (vs_server t)) = []"
proof -
  have "\<exists>t. run (later_step env0) (vsystem1\<lparr>vs_server := stop (vs_server vsystem1)\<rparr>) [RequestBytes 0 [1, 1]] t"
    by (simp add: later_step_def vsystem1_def server1_def env0_def server_run_defs request_of_jure)
  then obtain t where t: "run (later_step env0) (vsystem1\<lparr>vs_server := stop (vs_server vsystem1)\<rparr>) [RequestBytes 0 [1, 1]] t" ..
  from stopped_server_accepts_nothing [OF reachable_vsystem1 t] t show ?thesis by blast
qed

text \<open>A request whose authorization header cannot be parsed counts as anonymous, as one without the
  header does; a parsed header gives its credentials.\<close>

theorem request_authentication_spec:
  shows "request_authentication B request =
     (if field_count B request AuthorizationField = 0 then Some Authentication_default
      else map_option (case_sum (\<lambda>x. Authentication_default) (\<lambda>a. a)) (fromHeader B (field_at B request AuthorizationField)))"
  by (auto simp: request_authentication_def split: option.splits sum.splits)

text \<open>C36: The buffer of request bytes is shared by all connections and is never emptied: when, on an existing
  server with the acceptor open, bytes that come after the request of one connection make up a request
  themselves (and decoding the header of neither overflows), then the next connection that the acceptor
  takes, from whichever client, can be asked about with what they say, although it has sent nothing at
  all: the parser takes what is buffered before it reads.\<close>

theorem leftover_bytes_authenticate_next:
  assumes "sv_exists (vs_server s)" and "sv_isOpen (vs_server s) fam" and "i < length (sv_reads (vs_server s))"
    and "sv_reads (vs_server s) ! i = ((fam, k), Running)"
    and "env_parse E (sv_acceptBuffer (vs_server s) @ bs) = Some (request, rest)"
    and "request_authentication (env_boost E) request = Some auth"
    and "env_parse E rest = Some (request', rest')"
    and "request_authentication (env_boost E) request' = Some auth'"
  shows "\<exists>t. run (server_step E) s
      [RequestBytes i bs,
       FinishAccept (length (sv_accepts (vs_server s))) NoError, AcceptCompleted (length (sv_accepts (vs_server s))),
       RequestBytes (length (sv_reads (vs_server s)) - 1) []] t \<and>
     AuthenticateCalled k auth \<in> set (sv_trace (vs_server t)) \<and>
     AuthenticateCalled (length (sv_streams (vs_server s))) auth' \<in> set (sv_trace (vs_server t)) \<and>
     sv_acceptBuffer (vs_server t) = rest'"
proof -
  let ?n = "length (sv_accepts (vs_server s))" and ?j = "length (sv_streams (vs_server s))"
  let ?rs = "take i (sv_reads (vs_server s)) @ drop (Suc i) (sv_reads (vs_server s))"
  obtain u where u: "server_step E s (RequestBytes i bs) u" "AuthenticateCalled k auth \<in> set (sv_trace (vs_server u))"
    and open_u: "sv_exists (vs_server u)" "sv_acceptBuffer (vs_server u) = rest" "sv_streams (vs_server u) = sv_streams (vs_server s)"
      "sv_accepts (vs_server u) = start_op fam (sv_accepts (vs_server s))" "sv_reads (vs_server u) = ?rs"
    using request_read_on [OF assms(1,3-6,2)] by blast
  let ?v = "u\<lparr>vs_server := (vs_server u)\<lparr>sv_accepts := sv_accepts (vs_server s) @ [(fam, Ready NoError)]\<rparr>\<rparr>"
  have v: "server_step E u (FinishAccept ?n NoError) ?v"
    by (rule finish_accept) (simp_all add: open_u start_op_def finish_op_def)
  have take: "take_op ?n (sv_accepts (vs_server ?v)) = Some ((fam, NoError), sv_accepts (vs_server s))"
    by (simp add: take_op_def)
  let ?w = "?v\<lparr>vs_server := acceptHandler fam NoError ((vs_server ?v)\<lparr>sv_accepts := sv_accepts (vs_server s)\<rparr>)\<rparr>"
  note w = accept_completed [OF take, of E]
  have reads: "sv_reads (vs_server ?w) = ?rs @ [((fam, ?j), Running)]" and exists: "sv_exists (vs_server ?w)"
    and buffer: "sv_acceptBuffer (vs_server ?w) = rest"
    using open_u by (simp_all add: acceptHandler_def onAcceptTcpConnection_def start_op_def Let_def)
  have last: "length (sv_reads (vs_server s)) - 1 = length ?rs" using assms(3) by simp
  have trace: "sv_trace (vs_server ?w) = sv_trace (vs_server u)"
    using open_u(1) by (simp add: acceptHandler_def onAcceptTcpConnection_def Let_def)
  obtain t where t: "server_step E ?w (RequestBytes (length ?rs) []) t"
      "AuthenticateCalled ?j auth' \<in> set (sv_trace (vs_server t))"
  proof -
    have "length ?rs < length (sv_reads (vs_server ?w))" unfolding reads by simp
    moreover have "sv_reads (vs_server ?w) ! length ?rs = ((fam, ?j), Running)" unfolding reads by (rule nth_append_length)
    moreover have "env_parse E (sv_acceptBuffer (vs_server ?w) @ []) = Some (request', rest')"
      unfolding buffer using assms(7) by simp
    ultimately show ?thesis using request_answered [OF exists _ _ _ assms(8)] that by blast
  qed
  have "sv_acceptBuffer (vs_server t) = rest'"
    using request_rest_kept [OF t(1)] assms(7) unfolding buffer by simp
  moreover have "AuthenticateCalled k auth \<in> set (sv_trace (vs_server t))"
    using set_mono_prefix [OF server_trace_grows [OF t(1)]] u(2) unfolding trace by blast
  ultimately show ?thesis
    using u(1) v w t unfolding last by (simp only: run.simps) blast
qed

text \<open>The request of jure is followed by two more bytes: the next client, which
  sends nothing, is asked about as anonymous.\<close>

theorem leftover_bytes_authenticate_next_witness:
  "\<exists>t. run (server_step env0) vsystem1
      [RequestBytes 0 [1, 1, 2, 2], FinishAccept 0 NoError, AcceptCompleted 0, RequestBytes 0 []] t \<and>
    AuthenticateCalled 0 jure \<in> set (sv_trace (vs_server t)) \<and>
    AuthenticateCalled 1 Authentication_default \<in> set (sv_trace (vs_server t))"
  using leftover_bytes_authenticate_next [of vsystem1 V4 0 0 env0 "[1, 1, 2, 2]" "[(AuthorizationField, ''Basic anVyZTpqdXJlMTIz'')]"
      "[2, 2]" jure "[]" "[]" Authentication_default]
  by (auto simp: vsystem1_def server1_def env0_def request_of_jure request_of_nobody)

text \<open>Two connections whose requests are read at the same time, one for each version of IP, share the
  buffer: the bytes of both are parsed as one request, which is taken for that of the connection that
  completes it.\<close>

theorem concurrent_requests_mix:
  assumes "sv_exists (vs_server s)" and "i < length (sv_reads (vs_server s))" and "j < length (sv_reads (vs_server s))"
    and "sv_reads (vs_server s) ! j = ((fam, k), Running)"
    and "env_parse E (sv_acceptBuffer (vs_server s) @ bs) = None"
    and "env_parse E (sv_acceptBuffer (vs_server s) @ bs @ cs) = Some (request, rest)"
    and "request_authentication (env_boost E) request = Some auth"
  shows "\<exists>t. run (server_step E) s [RequestBytes i bs, RequestBytes j cs] t \<and>
     AuthenticateCalled k auth \<in> set (sv_trace (vs_server t))"
proof -
  let ?u = "(vs_server s)\<lparr>sv_acceptBuffer := sv_acceptBuffer (vs_server s) @ bs\<rparr>"
  have "readRequest (env_parse E) bs (vs_server s) = (?u, False)"
    using assms(5) by (simp add: readRequest_def Let_def)
  from request_partial [OF assms(2) this] have first: "server_step E s (RequestBytes i bs) (s\<lparr>vs_server := ?u\<rparr>)" .
  have "\<exists>t. server_step E (s\<lparr>vs_server := ?u\<rparr>) (RequestBytes j cs) t \<and>
      AuthenticateCalled k auth \<in> set (sv_trace (vs_server t))"
    by (rule request_answered [where fam = fam and request = request and rest = rest])
       (use assms(1,3,4,6,7) in simp_all)
  with first show ?thesis by auto
qed

definition two_connections :: example_server where
  "two_connections = \<lparr>vs_server = server1\<lparr>sv_isOpen := (\<lambda>fam. True), sv_reads := [((V4, 0), Running), ((V6, 1), Running)],
     sv_streams := sv_streams server1 @ sv_streams server1\<rparr>, vs_starts = 1\<rparr>"

theorem concurrent_requests_mix_witness:
  "\<exists>t. run (server_step env0) two_connections [RequestBytes 0 [1], RequestBytes 1 [1]] t \<and>
     AuthenticateCalled 1 jure \<in> set (sv_trace (vs_server t))"
  by (rule concurrent_requests_mix [where fam = V6 and request = "[(AuthorizationField, ''Basic anVyZTpqdXJlMTIz'')]" and rest = "[]"])
     (simp_all add: two_connections_def server1_def env0_def request_of_jure)

text \<open>A connection that is lost in the middle of its request leaves what it has sent in the buffer, and
  the next connection's request begins with it.\<close>

theorem partial_request_spoils_next:
  assumes "sv_exists (vs_server s)" and "i < length (sv_reads (vs_server s))"
    and "sv_reads (vs_server s) ! i = ((fam, k), Running)" and "failed ec"
  shows "\<exists>t. server_step E s (RequestFailed i ec) t \<and> sv_acceptBuffer (vs_server t) = sv_acceptBuffer (vs_server s) \<and>
     length (sv_reads (vs_server t)) < length (sv_reads (vs_server s))"
proof -
  let ?v = "(vs_server s)\<lparr>sv_reads := take i (sv_reads (vs_server s)) @ drop (Suc i) (sv_reads (vs_server s))\<rparr>"
  have "leaves (requestHandler (env_boost E) (env_authenticate E k) fam ec k ?v) (startTcpAccept fam ?v)"
    using assms(1,4) by (simp add: requestHandler_def onReadAcceptRequest_def)
  from request_failed [OF assms(2-4) this] assms(2) show ?thesis by (fastforce simp: startTcpAccept_def)
qed

text \<open>The first connection sends half of jure's request and is lost, the second one, which sends the other
  half only, is taken for jure.\<close>

theorem partial_request_spoils_next_witness:
  "\<exists>s t. run (server_step env0) vsystem1 [RequestBytes 0 [1]] s \<and> server_step env0 s (RequestFailed 0 (OtherError 2)) t \<and>
     sv_acceptBuffer (vs_server t) = [1] \<and>
     (\<exists>v. run (server_step env0) t [FinishAccept 0 NoError, AcceptCompleted 0, RequestBytes 0 [1]] v \<and>
        AuthenticateCalled 1 jure \<in> set (sv_trace (vs_server v)))"
proof -
  let ?s = "vsystem1\<lparr>vs_server := server1\<lparr>sv_acceptBuffer := [1]\<rparr>\<rparr>"
  have s: "run (server_step env0) vsystem1 [RequestBytes 0 [1]] ?s"
    by (simp add: vsystem1_def server1_def env0_def server_run_defs)
  obtain t where t: "server_step env0 ?s (RequestFailed 0 (OtherError 2)) t" "sv_acceptBuffer (vs_server t) = [1]"
    using partial_request_spoils_next [of ?s 0 V4 0 "OtherError 2" env0] by (auto simp: vsystem1_def server1_def)
  have "\<exists>v. run (server_step env0) t [FinishAccept 0 NoError, AcceptCompleted 0, RequestBytes 0 [1]] v \<and>
      AuthenticateCalled 1 jure \<in> set (sv_trace (vs_server v))"
    using t(1) by (auto simp: vsystem1_def server1_def env0_def server_run_defs request_of_jure jure_def)
  with s t show ?thesis by blast
qed

end
