(* ===== verification/Network.thy ===== *)
theory Network
  imports Http_Wire Session_Link Client_Properties Server_Properties
begin

section \<open>Clients, a server and the network between them\<close>

text \<open>
  Any number of clients and one server, each driven by its own environment as in \<open>Client_Machine\<close>
  and \<open>Server_Machine\<close>, and the network that joins them. What needs the other side happens only
  when the other side has done its part: a connect succeeds by joining the server's backlog, an
  accept succeeds by taking the oldest connection of it, the bytes that come in for a connection are
  those of the request its client has sent, in order and in pieces of any size, and a handshake
  succeeds only after the server has begun to answer it. Everything else may happen at any time:
  failures, timeouts, cancellations, users that stop or drop their server and their clients.

  The server reads all requests into one buffer, so what it makes of a request depends on how other
  clients behave (\<open>leftover_bytes_authenticate_next\<close>, \<open>concurrent_requests_mix\<close>,
  \<open>partial_request_spoils_next\<close> of \<open>Server_Properties\<close>). The network here is the one in which it
  works: all clients come over one version of IP, send nothing before the answer but their request,
  and none is cut off in the middle of it; the server is started once.
\<close>

record ('f, 'ctx, 'u, 'v) network_env =
  ne_server :: "('f, 'ctx, 'u) server_env"
  ne_upgrade :: "string \<Rightarrow> string \<Rightarrow> 'f"
  ne_user :: 'v
  ne_wire :: "'f \<Rightarrow> byte list"
  ne_family :: family

text \<open>A connection is known by its client and the client's stream. \<open>nw_accepted\<close> lists them by the
  server's stream; \<open>nw_received\<close> is what the server's stream has brought of the request.\<close>

type_synonym wire_id = "nat \<times> nat"

record ('cl, 'sv, 'f) network =
  nw_clients :: "nat \<Rightarrow> 'cl"
  nw_server :: 'sv
  nw_backlog :: "wire_id list"
  nw_accepted :: "wire_id list"
  nw_sent :: "(wire_id \<times> 'f) list"
  nw_received :: "nat \<Rightarrow> byte list"
  nw_answered :: "wire_id list"

datatype network_event =
    ClientAlone nat client_event
  | TcpConnect nat nat
  | SendRequest nat nat
  | AnswerArrives nat nat
  | ServerAlone server_event
  | TcpAccept nat
  | Accepting nat
  | Deliver nat "byte list"
  | RequestCut nat error_code
  | Answer nat

text \<open>What a client and a server can do without the other side.\<close>

fun client_alone :: "client_event \<Rightarrow> bool" where
  "client_alone (FinishConnect i ec) = failed ec"
| "client_alone (FinishHandshake i ec) = failed ec"
| "client_alone e = True"

fun server_alone :: "('c, 'f, 'ctx, 'x) server_system \<Rightarrow> server_event \<Rightarrow> bool" where
  "server_alone s (StartServer port) \<longleftrightarrow> vs_starts s = 0"
| "server_alone s (FinishAccept i ec) \<longleftrightarrow> failed ec"
| "server_alone s (AcceptCompleted i) \<longleftrightarrow>
     (\<forall>fam ops. take_op i (sv_accepts (vs_server s)) \<noteq> Some ((fam, NoError), ops))"
| "server_alone s (RequestBytes i bs) \<longleftrightarrow> False"
| "server_alone s (RequestFailed i ec) \<longleftrightarrow> False"
| "server_alone s e \<longleftrightarrow> True"

abbreviation net_client_step ::
  "('f, 'ctx, 'u, 'v) network_env \<Rightarrow> ('c, 'f, ('ct, 'h, 'w, 'd, 'v) session) client_system \<Rightarrow> client_event \<Rightarrow>
   ('c, 'f, ('ct, 'h, 'w, 'd, 'v) session) client_system \<Rightarrow> bool" where
  "net_client_step N \<equiv>
     client_step (env_boost (ne_server N)) (ne_upgrade N) (env_suggested (ne_server N)) (ne_user N)"

definition network_init ::
  "(('c, 'f, 'x) client_system, ('k, 'f, 'ctx, 'y) server_system, 'f) network \<Rightarrow> bool" where
  "network_init s \<longleftrightarrow> (\<forall>j. client_init (nw_clients s j)) \<and> server_init (nw_server s) \<and> nw_backlog s = [] \<and>
     nw_accepted s = [] \<and> nw_sent s = [] \<and> nw_received s = (\<lambda>k. []) \<and> nw_answered s = []"

inductive network_step ::
  "('f, 'ctx, 'u, 'v) network_env \<Rightarrow>
   (('c, 'f, ('ct, 'h, 'w, 'd, 'v) session) client_system,
    ('k, 'f, 'ctx, ('ctx, 'g, 'a, 'b, 'u) session) server_system, 'f) network \<Rightarrow> network_event \<Rightarrow>
   (('c, 'f, ('ct, 'h, 'w, 'd, 'v) session) client_system,
    ('k, 'f, 'ctx, ('ctx, 'g, 'a, 'b, 'u) session) server_system, 'f) network \<Rightarrow> bool"
  for N :: "('f, 'ctx, 'u, 'v) network_env"
where
  client_moves: "client_alone e \<Longrightarrow> net_client_step N (nw_clients s j) e c \<Longrightarrow>
     network_step N s (ClientAlone j e) (s\<lparr>nw_clients := (nw_clients s)(j := c)\<rparr>)"
| tcp_connect: "i < length (cl_connects (cs_client (nw_clients s j))) \<Longrightarrow>
     cl_connects (cs_client (nw_clients s j)) ! i = (k, Running) \<Longrightarrow>
     net_client_step N (nw_clients s j) (FinishConnect i NoError) c \<Longrightarrow>
     network_step N s (TcpConnect j i)
       (s\<lparr>nw_clients := (nw_clients s)(j := c), nw_backlog := nw_backlog s @ [(j, k)]\<rparr>)"
| send_request: "i < length (cl_handshakes (cs_client (nw_clients s j))) \<Longrightarrow>
     cl_handshakes (cs_client (nw_clients s j)) ! i = (h, Running) \<Longrightarrow>
     network_step N s (SendRequest j i) (s\<lparr>nw_sent := nw_sent s @ [((j, hs_stream h), hs_request h)]\<rparr>)"
| answer_arrives: "i < length (cl_handshakes (cs_client (nw_clients s j))) \<Longrightarrow>
     cl_handshakes (cs_client (nw_clients s j)) ! i = (h, Running) \<Longrightarrow>
     (j, hs_stream h) \<in> set (nw_answered s) \<Longrightarrow>
     net_client_step N (nw_clients s j) (FinishHandshake i NoError) c \<Longrightarrow>
     network_step N s (AnswerArrives j i) (s\<lparr>nw_clients := (nw_clients s)(j := c)\<rparr>)"
| server_moves: "server_alone (nw_server s) e \<Longrightarrow> server_step (ne_server N) (nw_server s) e v \<Longrightarrow>
     network_step N s (ServerAlone e) (s\<lparr>nw_server := v\<rparr>)"
| tcp_accept: "i < length (sv_accepts (vs_server (nw_server s))) \<Longrightarrow>
     sv_accepts (vs_server (nw_server s)) ! i = (ne_family N, Running) \<Longrightarrow> nw_backlog s \<noteq> [] \<Longrightarrow>
     server_step (ne_server N) (nw_server s) (FinishAccept i NoError) v \<Longrightarrow>
     network_step N s (TcpAccept i) (s\<lparr>nw_server := v\<rparr>)"
| accepting: "take_op i (sv_accepts (vs_server (nw_server s))) = Some ((ne_family N, NoError), ops) \<Longrightarrow>
     nw_backlog s = w # rest \<Longrightarrow> server_step (ne_server N) (nw_server s) (AcceptCompleted i) v \<Longrightarrow>
     network_step N s (Accepting i) (s\<lparr>nw_server := v, nw_backlog := rest,
       nw_accepted := nw_accepted s @ (if sv_exists (vs_server (nw_server s)) then [w] else [])\<rparr>)"
| deliver: "i < length (sv_reads (vs_server (nw_server s))) \<Longrightarrow>
     sv_reads (vs_server (nw_server s)) ! i = ((fam, k), st) \<Longrightarrow> k < length (nw_accepted s) \<Longrightarrow>
     (nw_accepted s ! k, r) \<in> set (nw_sent s) \<Longrightarrow> prefix (nw_received s k @ bs) (ne_wire N r) \<Longrightarrow>
     server_step (ne_server N) (nw_server s) (RequestBytes i bs) v \<Longrightarrow>
     network_step N s (Deliver i bs)
       (s\<lparr>nw_server := v, nw_received := (nw_received s)(k := nw_received s k @ bs)\<rparr>)"
| request_cut: "i < length (sv_reads (vs_server (nw_server s))) \<Longrightarrow>
     sv_reads (vs_server (nw_server s)) ! i = ((fam, k), st) \<Longrightarrow> nw_received s k = [] \<Longrightarrow>
     server_step (ne_server N) (nw_server s) (RequestFailed i ec) v \<Longrightarrow>
     network_step N s (RequestCut i ec) (s\<lparr>nw_server := v\<rparr>)"
| answer: "i < length (sv_upgrades (vs_server (nw_server s))) \<Longrightarrow>
     sv_upgrades (vs_server (nw_server s)) ! i = (up, Running) \<Longrightarrow> up_stream up < length (nw_accepted s) \<Longrightarrow>
     network_step N s (Answer i) (s\<lparr>nw_answered := (nw_accepted s ! up_stream up) # nw_answered s\<rparr>)"

inductive_simps network_step_simps:
  "network_step N s (ClientAlone j e) t"
  "network_step N s (TcpConnect j i) t"
  "network_step N s (SendRequest j i) t"
  "network_step N s (AnswerArrives j i) t"
  "network_step N s (ServerAlone e) t"
  "network_step N s (TcpAccept i) t"
  "network_step N s (Accepting i) t"
  "network_step N s (Deliver i bs) t"
  "network_step N s (RequestCut i ec) t"
  "network_step N s (Answer i) t"

subsection \<open>The parts of the network\<close>

lemma network_client: "network_step N s e t \<Longrightarrow>
  nw_clients t j = nw_clients s j \<or> (\<exists>f. net_client_step N (nw_clients s j) f (nw_clients t j))"
  by (induction rule: network_step.induct) auto

lemma network_server: "network_step N s e t \<Longrightarrow>
  nw_server t = nw_server s \<or> (\<exists>f. server_step (ne_server N) (nw_server s) f (nw_server t))"
  by (induction rule: network_step.induct) auto

interpretation net_client: component_of network_init "network_step N" client_init "net_client_step N"
    "client_inv (env_boost (ne_server N)) (ne_upgrade N) (env_suggested (ne_server N)) (ne_user N)"
    "\<lambda>s. nw_clients s j" for N j
  by unfold_locales (simp_all add: network_init_def network_client connecting.reachable_inv)

interpretation net_server: component_of network_init "network_step N" server_init "server_step (ne_server N)"
    "server_inv (ne_server N)" nw_server for N
  by unfold_locales (simp_all add: network_init_def network_server serving.reachable_inv)

subsection \<open>What the server does to its reading\<close>

text \<open>Streams, reads, the buffer and the questions asked: steps that leave them alone.\<close>

definition same_reading :: "('c, 'f, 'ctx, 'x) server \<Rightarrow> ('c, 'f, 'ctx, 'x) server \<Rightarrow> bool" where
  "same_reading s t \<longleftrightarrow> sv_streams t = sv_streams s \<and> sv_reads t = sv_reads s \<and> sv_acceptBuffer t = sv_acceptBuffer s \<and>
     (\<forall>k auth. AuthenticateCalled k auth \<in> set (sv_trace t) \<longleftrightarrow> AuthenticateCalled k auth \<in> set (sv_trace s))"

lemma same_reading_connections:
  "same_connections s t \<Longrightarrow> sv_acceptBuffer t = sv_acceptBuffer s \<Longrightarrow> same_reading s t"
  by (simp add: same_reading_def same_connections_def)

lemma buffer_kept [simp]:
  "sv_acceptBuffer (startTcpAccept fam s) = sv_acceptBuffer s" "sv_acceptBuffer (close_acceptor fam s) = sv_acceptBuffer s"
  "sv_acceptBuffer (stop s) = sv_acceptBuffer s" "sv_acceptBuffer (destroy_Server s) = sv_acceptBuffer s"
  "sv_acceptBuffer (snd (snd (initAcceptor fam net s))) = sv_acceptBuffer s"
  "sv_acceptBuffer (snd (start n port s)) = sv_acceptBuffer s"
  by (simp_all add: start_server_state destroy_Server_def stop_def stopTcpAccept_def initAcceptor_def
      startTcpAccept_def close_acceptor_def Let_def)

lemma server_alone_step:
  "server_step E s e t \<Longrightarrow> server_alone s e \<Longrightarrow>
   same_reading (vs_server s) (vs_server t) \<and> (vs_starts s \<le> 1 \<longrightarrow> vs_starts t \<le> 1)"
proof (induction rule: server_step.induct)
  case (start_server s net port)
  then show ?case by (simp add: same_reading_connections same_connections_start)
next
  case (stop_server s)
  then show ?case by (simp add: same_reading_connections same_connections_stop)
next
  case (drop_server s)
  then show ?case by (simp add: same_reading_connections same_connections_stop)
next
  case (accept_completed i s fam ec ops)
  then have "failed ec" by (cases ec) auto
  then show ?case by (simp add: acceptHandler_def onAcceptTcpConnection_def startTcpAccept_def same_reading_def)
next
  case (upgrade_completed i s up ec ops streamsOpen remote t)
  from upgradeHandler_cases [OF upgrade_completed(2)] show ?case
    by (elim disjE exE) (simp_all add: same_reading_def server_emit_def)
qed (simp_all add: same_reading_def)

text \<open>What a request handler asks, it asks about the request it was given.\<close>

lemma requestHandler_asked:
  assumes "leaves (requestHandler B A fam ec k s) t"
  shows "sv_streams t = sv_streams s" and "sv_acceptBuffer t = sv_acceptBuffer s"
    and "AuthenticateCalled j auth \<in> set (sv_trace t) \<Longrightarrow>
      AuthenticateCalled j auth \<in> set (sv_trace s) \<or>
      \<not> failed ec \<and> j = k \<and> request_authentication B (sv_acceptRequest s) = Some auth"
proof -
  show "sv_streams t = sv_streams s" and "sv_acceptBuffer t = sv_acceptBuffer s"
    using requestHandler_cases [OF assms] by (elim disjE exE conjE; simp add: server_emit_def startTcpAccept_def)+
  assume "AuthenticateCalled j auth \<in> set (sv_trace t)"
  with assms show "AuthenticateCalled j auth \<in> set (sv_trace s) \<or>
      \<not> failed ec \<and> j = k \<and> request_authentication B (sv_acceptRequest s) = Some auth"
    by (auto simp: requestHandler_def onReadAcceptRequest_def startTcpAccept_def server_emit_def Let_def
        split: if_splits option.splits prod.splits)
qed

lemma request_bytes_step:
  assumes "server_step E s (RequestBytes i bs) t" and reads: "sv_reads (vs_server s) = [((fam, k), st)]"
    and parse: "\<And>r' rest. env_parse E (sv_acceptBuffer (vs_server s) @ bs) = Some (r', rest) \<Longrightarrow> r' = r \<and> rest = []"
  shows "sv_reads (vs_server t) = sv_reads (vs_server s) \<and>
       sv_acceptBuffer (vs_server t) = sv_acceptBuffer (vs_server s) @ bs \<or>
     sv_reads (vs_server t) = [] \<and> sv_acceptBuffer (vs_server t) = []"
    and "sv_streams (vs_server t) = sv_streams (vs_server s)" and "vs_starts t = vs_starts s"
    and "AuthenticateCalled j auth \<in> set (sv_trace (vs_server t)) \<Longrightarrow>
      AuthenticateCalled j auth \<in> set (sv_trace (vs_server s)) \<or>
      j = k \<and> request_authentication (env_boost E) r = Some auth"
proof -
  let ?s = "vs_server s"
  from assms(1) consider
    (partial) s' where "readRequest (env_parse E) bs ?s = (s', False)" "t = s\<lparr>vs_server := s'\<rparr>"
  | (complete) f j' s' v where "sv_reads ?s ! i = ((f, j'), Running)" "i < length (sv_reads ?s)"
      "readRequest (env_parse E) bs ?s = (s', True)" "t = s\<lparr>vs_server := v\<rparr>"
      "leaves (requestHandler (env_boost E) (env_authenticate E j') f NoError j'
        (s'\<lparr>sv_reads := take i (sv_reads s') @ drop (Suc i) (sv_reads s')\<rparr>)) v"
    by (auto simp: server_step_simps)
  then have "(sv_reads (vs_server t) = sv_reads ?s \<and> sv_acceptBuffer (vs_server t) = sv_acceptBuffer ?s @ bs \<or>
      sv_reads (vs_server t) = [] \<and> sv_acceptBuffer (vs_server t) = []) \<and>
    sv_streams (vs_server t) = sv_streams ?s \<and> vs_starts t = vs_starts s \<and>
    (AuthenticateCalled j auth \<in> set (sv_trace (vs_server t)) \<longrightarrow>
      AuthenticateCalled j auth \<in> set (sv_trace ?s) \<or> j = k \<and> request_authentication (env_boost E) r = Some auth)"
  proof cases
    case partial
    then show ?thesis by (auto simp: readRequest_def Let_def split: option.splits)
  next
    case complete
    then have ij: "i = 0" "j' = k" using reads by auto
    from complete(3) obtain r' rest where "env_parse E (sv_acceptBuffer ?s @ bs) = Some (r', rest)"
      and s': "s' = ?s\<lparr>sv_acceptBuffer := rest, sv_acceptRequest := r'\<rparr>"
      by (auto simp: readRequest_def Let_def split: option.splits)
    with parse have "r' = r" "rest = []" by blast+
    with requestHandler_asked [OF complete(5)] requestHandler_tokens(3) [OF complete(5)]
    show ?thesis by (auto simp: s' reads ij complete(4))
  qed
  then show "sv_reads (vs_server t) = sv_reads ?s \<and> sv_acceptBuffer (vs_server t) = sv_acceptBuffer ?s @ bs \<or>
      sv_reads (vs_server t) = [] \<and> sv_acceptBuffer (vs_server t) = []"
    and "sv_streams (vs_server t) = sv_streams ?s" and "vs_starts t = vs_starts s"
    and "AuthenticateCalled j auth \<in> set (sv_trace (vs_server t)) \<Longrightarrow>
      AuthenticateCalled j auth \<in> set (sv_trace ?s) \<or> j = k \<and> request_authentication (env_boost E) r = Some auth"
    by blast+
qed

lemma request_failed_step:
  assumes "server_step E s (RequestFailed i ec) t" and reads: "sv_reads (vs_server s) = [((fam, k), st)]"
  shows "sv_reads (vs_server t) = [] \<and> sv_acceptBuffer (vs_server t) = sv_acceptBuffer (vs_server s) \<and>
     sv_streams (vs_server t) = sv_streams (vs_server s) \<and> vs_starts t = vs_starts s \<and>
     (AuthenticateCalled j auth \<in> set (sv_trace (vs_server t)) \<longrightarrow> AuthenticateCalled j auth \<in> set (sv_trace (vs_server s)))"
proof -
  let ?s = "vs_server s"
  from assms(1) obtain f j' v where t: "i < length (sv_reads ?s)" "failed ec" "t = s\<lparr>vs_server := v\<rparr>"
      "leaves (requestHandler (env_boost E) (env_authenticate E j') f ec j'
        (?s\<lparr>sv_reads := take i (sv_reads ?s) @ drop (Suc i) (sv_reads ?s)\<rparr>)) v"
    by (auto simp: server_step_simps)
  then have "i = 0" using reads by simp
  with requestHandler_asked [OF t(4)] requestHandler_tokens(3) [OF t(4)] t(2)
  show ?thesis by (auto simp: reads t(3))
qed

subsection \<open>One request at a time\<close>

text \<open>The server reads the request of one connection at a time, and its buffer holds what that connection
  has brought.\<close>

definition reading_ok ::
  "('f, 'ctx, 'u, 'v) network_env \<Rightarrow> ('cl, ('k, 'f, 'ctx, 'y) server_system, 'f) network \<Rightarrow> bool" where
  "reading_ok N s \<longleftrightarrow> vs_starts (nw_server s) \<le> 1 \<and>
     length (nw_accepted s) = length (sv_streams (vs_server (nw_server s))) \<and>
     (\<forall>k. length (nw_accepted s) \<le> k \<longrightarrow> nw_received s k = []) \<and>
     (sv_reads (vs_server (nw_server s)) = [] \<and> sv_acceptBuffer (vs_server (nw_server s)) = [] \<or>
      (\<exists>k st. sv_reads (vs_server (nw_server s)) = [((ne_family N, k), st)] \<and> k < length (nw_accepted s) \<and>
         sv_acceptBuffer (vs_server (nw_server s)) = nw_received s k))"

text \<open>Every question the user was asked is about the request of the connection.\<close>

definition asked_ok ::
  "('f, 'ctx, 'u, 'v) network_env \<Rightarrow> ('cl, ('k, 'f, 'ctx, 'y) server_system, 'f) network \<Rightarrow> bool" where
  "asked_ok N s \<longleftrightarrow>
     (\<forall>k auth. AuthenticateCalled k auth \<in> set (sv_trace (vs_server (nw_server s))) \<longrightarrow> k < length (nw_accepted s) \<and>
        (\<exists>r. (nw_accepted s ! k, r) \<in> set (nw_sent s) \<and>
           request_authentication (env_boost (ne_server N)) r = Some auth))"

lemma reading_same:
  assumes "reading_ok N s" and "same_reading (vs_server (nw_server s)) (vs_server v)"
    and "vs_starts (nw_server s) \<le> 1 \<longrightarrow> vs_starts v \<le> 1"
  shows "reading_ok N (s\<lparr>nw_server := v\<rparr>)"
  using assms by (auto simp: reading_ok_def same_reading_def)

lemma asked_same:
  assumes "asked_ok N s" and "same_reading (vs_server (nw_server s)) (vs_server v)"
  shows "asked_ok N (s\<lparr>nw_server := v\<rparr>)"
  using assms by (simp add: asked_ok_def same_reading_def)

text \<open>When an accept has completed nothing is being read.\<close>

lemma nothing_read:
  assumes "reading_ok N s" and "accepting (nw_server s)"
    and take: "take_op i (sv_accepts (vs_server (nw_server s))) = Some ((ne_family N, NoError), ops)"
  shows "sv_reads (vs_server (nw_server s)) = []"
proof (rule ccontr)
  let ?v = "vs_server (nw_server s)"
  assume "sv_reads ?v \<noteq> []"
  then obtain k st where reads: "sv_reads ?v = [((ne_family N, k), st)]"
    using assms(1) by (auto simp: reading_ok_def)
  have "accept_tokens (ne_family N) ?v = accept_tokens (ne_family N) (?v\<lparr>sv_accepts := ops\<rparr>) + 1"
    using tokens_accept_removed [OF take, of "ne_family N"] by simp
  moreover have "1 \<le> accept_tokens (ne_family N) (?v\<lparr>sv_accepts := ops\<rparr>)"
    by (simp add: accept_tokens_def reads)
  moreover have "vs_starts (nw_server s) = 0 \<or> vs_starts (nw_server s) = 1"
    using assms(1) by (auto simp: reading_ok_def)
  ultimately show False
    using acceptingD(2,3) [OF assms(2), of "ne_family N"] by auto
qed

lemma accept_taken_step:
  assumes "server_step E s (AcceptCompleted i) t" and "take_op i (sv_accepts (vs_server s)) = Some ((fam, NoError), ops)"
  shows "vs_starts t = vs_starts s \<and> sv_acceptBuffer (vs_server t) = sv_acceptBuffer (vs_server s) \<and>
     sv_trace (vs_server t) = sv_trace (vs_server s) \<and>
     (if sv_exists (vs_server s)
      then length (sv_streams (vs_server t)) = Suc (length (sv_streams (vs_server s))) \<and>
        sv_reads (vs_server t) = start_op (fam, length (sv_streams (vs_server s))) (sv_reads (vs_server s))
      else sv_streams (vs_server t) = sv_streams (vs_server s) \<and> sv_reads (vs_server t) = sv_reads (vs_server s))"
  using assms by (auto simp: server_step_simps acceptHandler_def onAcceptTcpConnection_def Let_def)

locale request_wire = http_wire "env_parse (ne_server N)" "ne_wire N" for N :: "('f, 'ctx, 'u, 'v) network_env"
begin

lemma deliver_reading:
  assumes ok: "reading_ok N s" and asked: "asked_ok N s"
    and i: "i < length (sv_reads (vs_server (nw_server s)))" "sv_reads (vs_server (nw_server s)) ! i = ((fam, k), st)"
    and r: "(nw_accepted s ! k, r) \<in> set (nw_sent s)" and bs: "prefix (nw_received s k @ bs) (ne_wire N r)"
    and step: "server_step (ne_server N) (nw_server s) (RequestBytes i bs) v"
    and t: "t = s\<lparr>nw_server := v, nw_received := (nw_received s)(k := nw_received s k @ bs)\<rparr>"
  shows "reading_ok N t \<and> asked_ok N t"
proof -
  from ok i have reads: "sv_reads (vs_server (nw_server s)) = [((ne_family N, k), st)]" "k < length (nw_accepted s)"
    and buffer: "sv_acceptBuffer (vs_server (nw_server s)) = nw_received s k"
    by (auto simp: reading_ok_def)
  have parse: "env_parse (ne_server N) (sv_acceptBuffer (vs_server (nw_server s)) @ bs) = Some (r', rest) \<Longrightarrow>
      r' = r \<and> rest = []" for r' rest
    using parse_prefix [OF bs] by (simp add: buffer)
  note step = request_bytes_step [OF step reads(1) parse]
  have "reading_ok N t"
    using step(1-3) ok reads(2) by (auto simp: reading_ok_def t reads(1) buffer)
  moreover have "asked_ok N t"
    using step(4) asked reads(2) r by (fastforce simp: asked_ok_def t)
  ultimately show ?thesis ..
qed

lemma reading_step:
  "network_step N s e t \<Longrightarrow> accepting (nw_server s) \<Longrightarrow> reading_ok N s \<Longrightarrow> asked_ok N s \<Longrightarrow>
   reading_ok N t \<and> asked_ok N t"
proof (induction rule: network_step.induct)
  case (server_moves s e v)
  from server_alone_step [OF server_moves(2,1)] server_moves(4,5) show ?case
    by (blast intro: reading_same asked_same)
next
  case (tcp_accept i s v)
  have "same_reading (vs_server (nw_server s)) (vs_server v)"
    and "vs_starts (nw_server s) \<le> 1 \<longrightarrow> vs_starts v \<le> 1"
    using tcp_accept(4) by (auto simp: server_step_simps same_reading_def)
  with tcp_accept(6,7) show ?case by (blast intro: reading_same asked_same)
next
  case (accepting i s ops w rest v)
  from nothing_read [OF accepting(5,4,1)] have none: "sv_reads (vs_server (nw_server s)) = []" .
  from accept_taken_step [OF accepting(3,1)] accepting(5,6) none show ?case
    by (cases "sv_exists (vs_server (nw_server s))")
       (fastforce simp: reading_ok_def asked_ok_def start_op_def nth_append)+
next
  case (deliver i s fam k st r bs v)
  from deliver_reading [OF deliver(8,9,1,2,4,5,6) refl] show ?case .
next
  case (request_cut i s fam k st ec v)
  from request_cut(1,2,6) have reads: "sv_reads (vs_server (nw_server s)) = [((ne_family N, k), st)]"
    "sv_acceptBuffer (vs_server (nw_server s)) = []"
    using request_cut(3) by (auto simp: reading_ok_def)
  from request_failed_step [OF request_cut(4) reads(1)] request_cut(6,7) reads show ?case
    by (fastforce simp: reading_ok_def asked_ok_def)
next
  case (send_request i s j h)
  then show ?case by (auto 0 3 simp: reading_ok_def) (fastforce simp: asked_ok_def)+
qed (auto simp: reading_ok_def asked_ok_def)

end

subsection \<open>What a client does to its connections\<close>

lemma client_constants:
  "client_step B upgrade suggested u s e t \<Longrightarrow> callbacks_set (cs_client s) \<Longrightarrow>
   cl_host (cs_client t) = cl_host (cs_client s) \<and> cl_path (cs_client t) = cl_path (cs_client s) \<and>
   cl_authentication (cs_client t) = cl_authentication (cs_client s)"
proof (induction rule: client_step.induct)
  case (resolve_completed i s k ec ops c)
  then have "callbacks_set ((cs_client s)\<lparr>cl_resolves := ops\<rparr>)" by simp
  from resolveHandler_cases [OF this resolve_completed(2)] show ?case by (elim disjE exE conjE) simp_all
next
  case (connect_completed i s k ec ops c)
  then have "callbacks_set ((cs_client s)\<lparr>cl_connects := ops\<rparr>)" by simp
  from connectHandler_cases [OF this connect_completed(2)] show ?case by (elim disjE exE conjE) simp_all
next
  case (handshake_completed i s h ec ops remote c)
  then have "callbacks_set ((cs_client s)\<lparr>cl_handshakes := ops\<rparr>)" by simp
  from handshakeHandler_cases [OF this handshake_completed(2)] show ?case by (elim disjE exE conjE) simp_all
qed simp_all

text \<open>A session comes of a handshake that has succeeded.\<close>

lemma finish_op_ready:
  assumes "finish_op i ec ops = Some ops'" and "(k, Ready e) \<in> set ops'"
  shows "(k, Ready e) \<in> set ops \<or> e = ec \<and> i < length ops \<and> ops ! i = (k, Running)"
  using assms by (auto simp: finish_op_def prod_eq_iff split: if_splits dest!: set_update_subset_insert [THEN subsetD])

lemma cancel_ops_ready: "(k, Ready NoError) \<in> set (cancel_ops P ops) \<longleftrightarrow> (k, Ready NoError) \<in> set ops"
  by (force simp: cancel_ops_def split: if_splits)

lemma timeout_handshakes_ready:
  "(h, Ready NoError) \<in> set (cl_handshakes (timeoutHandler ec c)) \<longleftrightarrow> (h, Ready NoError) \<in> set (cl_handshakes c)"
  by (auto simp: timeoutHandler_def onConnectionTimeout_def cancel_stream_def cancel_ops_ready Let_def split: option.splits)

lemma start_op_ready: "(k, Ready e) \<in> set (start_op k' ops) \<longleftrightarrow> (k, Ready e) \<in> set ops"
  by (simp add: start_op_def)

definition answered_handshakes :: "('c, 'f, 'x) client \<Rightarrow> nat set" where
  "answered_handshakes c = {hs_stream h |h. (h, Ready NoError) \<in> set (cl_handshakes c)} \<union> fst ` set (sessions_of c)"

lemma answered_handshakes_step:
  "client_step B upgrade suggested u s e t \<Longrightarrow> callbacks_set (cs_client s) \<Longrightarrow>
   k \<in> answered_handshakes (cs_client t) \<Longrightarrow>
   k \<in> answered_handshakes (cs_client s) \<or>
   (\<exists>i h. e = FinishHandshake i NoError \<and> i < length (cl_handshakes (cs_client s)) \<and>
      cl_handshakes (cs_client s) ! i = (h, Running) \<and> hs_stream h = k)"
proof (induction rule: client_step.induct)
  case (resolve_completed i s k ec ops c)
  then have "callbacks_set ((cs_client s)\<lparr>cl_resolves := ops\<rparr>)" by simp
  from resolveHandler_cases [OF this resolve_completed(2)] resolve_completed(4) show ?case
    by (elim disjE exE conjE) (simp_all add: answered_handshakes_def)
next
  case (connect_completed i s k ec ops c)
  then have "callbacks_set ((cs_client s)\<lparr>cl_connects := ops\<rparr>)" by simp
  from connectHandler_cases [OF this connect_completed(2)] connect_completed(4) show ?case
    by (elim disjE exE conjE) (simp_all add: answered_handshakes_def start_op_ready)
next
  case (handshake_completed i s h ec ops remote c)
  then have "callbacks_set ((cs_client s)\<lparr>cl_handshakes := ops\<rparr>)" by simp
  note cases = handshakeHandler_cases [OF this handshake_completed(2)]
  have less: "(h', Ready NoError) \<in> set ops \<Longrightarrow> (h', Ready NoError) \<in> set (cl_handshakes (cs_client s))" for h'
    using take_op_subset [OF handshake_completed(1)] by blast
  have this_one: "\<not> failed ec \<Longrightarrow> (h, Ready NoError) \<in> set (cl_handshakes (cs_client s))"
    using take_op_in [OF handshake_completed(1)] by (simp add: not_failed_iff)
  from cases handshake_completed(4) show ?case
    by (elim disjE exE conjE) (auto simp: answered_handshakes_def dest: less this_one)
next
  case (finish_handshake i ec s ops)
  then show ?case
    by (fastforce simp: answered_handshakes_def dest: finish_op_ready [OF finish_handshake(1)])
qed (auto simp: answered_handshakes_def timeout_handshakes_ready)

text \<open>Every stream is connected once: what is being connected is on a stream of its own.\<close>

lemma finish_op_running:
  assumes "finish_op i ec ops = Some ops'" and "i < length ops" "ops ! i = (k, Running)"
    and "distinct (running ops)"
  shows "distinct (running ops')" and "k \<notin> set (running ops')" and "set (running ops') \<subseteq> set (running ops)"
proof -
  have ops: "ops = take i ops @ (k, Running) # drop (Suc i) ops" using take_drop_split [OF assms(2)] assms(3) by simp
  have ops': "ops' = take i ops @ (k, Ready ec) # drop (Suc i) ops"
    using assms(1-3) by (auto simp: finish_op_def upd_conv_take_nth_drop split: if_splits)
  have run: "running ops = running (take i ops) @ k # running (drop (Suc i) ops)"
    by (subst ops) (simp add: running_def)
  have run': "running ops' = running (take i ops) @ running (drop (Suc i) ops)"
    by (simp add: ops' running_def)
  show "distinct (running ops')" and "k \<notin> set (running ops')" and "set (running ops') \<subseteq> set (running ops)"
    using assms(4) by (auto simp: run run')
qed

lemma timeout_running:
  "distinct (running (cl_connects c)) \<Longrightarrow> distinct (running (cl_connects (timeoutHandler ec c)))"
  "set (running (cl_connects (timeoutHandler ec c))) \<subseteq> set (running (cl_connects c))"
  by (auto simp: timeoutHandler_def onConnectionTimeout_def cancel_stream_def Let_def split: option.splits)

lemma connects_step:
  "client_step B upgrade suggested u s e t \<Longrightarrow> callbacks_set (cs_client s) \<Longrightarrow>
   \<forall>k \<in> set (running (cl_connects (cs_client s))). k < length (cl_streams (cs_client s)) \<Longrightarrow>
   distinct (running (cl_connects (cs_client s))) \<Longrightarrow>
   distinct (running (cl_connects (cs_client t))) \<and>
   set (running (cl_connects (cs_client t))) \<subseteq> set (running (cl_connects (cs_client s))) \<union> {length (cl_streams (cs_client s))..} \<and>
   length (cl_streams (cs_client s)) \<le> length (cl_streams (cs_client t))"
proof (induction rule: client_step.induct)
  case (resolve_completed i s k ec ops c)
  then have "callbacks_set ((cs_client s)\<lparr>cl_resolves := ops\<rparr>)" by simp
  from resolveHandler_cases [OF this resolve_completed(2)] resolve_completed(4,5) show ?case
    by (elim disjE exE conjE) auto
next
  case (connect_completed i s k ec ops c)
  then have "callbacks_set ((cs_client s)\<lparr>cl_connects := ops\<rparr>)" by simp
  from connectHandler_cases [OF this connect_completed(2)] connect_completed(5) take_op_running [OF connect_completed(1)]
  show ?case by (elim disjE exE conjE) auto
next
  case (handshake_completed i s h ec ops remote c)
  then have "callbacks_set ((cs_client s)\<lparr>cl_handshakes := ops\<rparr>)" by simp
  from handshakeHandler_cases [OF this handshake_completed(2)] handshake_completed(5) show ?case
    by (elim disjE exE conjE) auto
next
  case (finish_connect i ec s ops)
  then have "i < length (cl_connects (cs_client s))" "snd (cl_connects (cs_client s) ! i) = Running"
    by (auto simp: finish_op_def split: if_splits)
  with finish_op_running [OF finish_connect(1)] finish_connect(4) show ?case
    by (cases "cl_connects (cs_client s) ! i") auto
next
  case (timeout_completed i s d ec ops)
  then show ?case
    using timeout_running [where c = "(cs_client s)\<lparr>cl_timers := ops\<rparr>" and ec = ec] by auto
qed auto

subsection \<open>The invariant of the network\<close>

definition constants_ok where
  "constants_ok N s \<longleftrightarrow> (\<forall>((j, k), r) \<in> set (nw_sent s).
     decorator (env_boost (ne_server N)) (cl_authentication (cs_client (nw_clients s j)))
       (ne_upgrade N (cl_host (cs_client (nw_clients s j))) (cl_path (cs_client (nw_clients s j)))) = Some r)"

text \<open>A client has a session only on a connection that the server has answered, and the server answers
  only connections that the user has let in.\<close>

definition answers_ok where
  "answers_ok N s \<longleftrightarrow>
     (\<forall>j. \<forall>k \<in> answered_handshakes (cs_client (nw_clients s j)). (j, k) \<in> set (nw_answered s)) \<and>
     (\<forall>w \<in> set (nw_answered s). \<exists>k < length (nw_accepted s). nw_accepted s ! k = w \<and>
        (\<exists>ctx. let_in (ne_server N) (sv_trace (vs_server (nw_server s))) k ctx))"

lemma constants_client:
  assumes "constants_ok N s" and "net_client_step N (nw_clients s j) f c" and "callbacks_set (cs_client (nw_clients s j))"
    and "nw_clients t = (nw_clients s)(j := c)" and "nw_sent t = nw_sent s"
  shows "constants_ok N t"
  using assms(1) client_constants [OF assms(2,3)] by (auto simp: constants_ok_def assms(4,5))

lemma constants_step:
  "network_step N s e t \<Longrightarrow> \<forall>j. callbacks_set (cs_client (nw_clients s j)) \<Longrightarrow>
   \<forall>j. requests_ok (env_boost (ne_server N)) (ne_upgrade N) (cs_client (nw_clients s j)) \<Longrightarrow>
   constants_ok N s \<Longrightarrow> constants_ok N t"
proof (induction rule: network_step.induct)
  case (client_moves e s j c)
  from client_moves(3) show ?case by (intro constants_client [OF client_moves(5,2)]) simp_all
next
  case (tcp_connect i s j k c)
  from tcp_connect(4) show ?case by (intro constants_client [OF tcp_connect(6,3)]) simp_all
next
  case (answer_arrives i s j h c)
  from answer_arrives(5) show ?case by (intro constants_client [OF answer_arrives(7,4)]) simp_all
next
  case (send_request i s j h)
  have "h \<in> set (op_keys (cl_handshakes (cs_client (nw_clients s j))))"
    using send_request(1,2) by (metis fst_conv image_eqI list.set_map nth_mem)
  with send_request(4,5) show ?case by (fastforce simp: requests_ok_def constants_ok_def)
qed (simp_all add: constants_ok_def)

lemma answers_client:
  assumes "answers_ok N s" and "net_client_step N (nw_clients s j) f c" and "callbacks_set (cs_client (nw_clients s j))"
    and "\<And>i h. f = FinishHandshake i NoError \<Longrightarrow> cl_handshakes (cs_client (nw_clients s j)) ! i = (h, Running) \<Longrightarrow>
      (j, hs_stream h) \<in> set (nw_answered s)"
    and "nw_clients t = (nw_clients s)(j := c)" and "nw_answered t = nw_answered s" and "nw_accepted t = nw_accepted s"
    and "nw_server t = nw_server s"
  shows "answers_ok N t"
proof -
  have "(j, k) \<in> set (nw_answered s)" if "k \<in> answered_handshakes (cs_client c)" for k
    using answered_handshakes_step [OF assms(2,3) that] assms(1) unfolding answers_ok_def
    by (elim disjE exE conjE) (blast, metis assms(4))
  with assms(1) show ?thesis unfolding answers_ok_def assms(5-8) by simp
qed

lemma answers_server:
  assumes "answers_ok N s" and "server_step (ne_server N) (nw_server s) f v" and "nw_server t = v"
    and "nw_clients t = nw_clients s" and "nw_answered t = nw_answered s" and "prefix (nw_accepted s) (nw_accepted t)"
  shows "answers_ok N t"
proof -
  have tr: "set (sv_trace (vs_server (nw_server s))) \<subseteq> set (sv_trace (vs_server v))"
    using server_trace_grows [OF assms(2)] by (rule set_mono_prefix)
  obtain ws where "nw_accepted t = nw_accepted s @ ws" using assms(6) by (auto simp: prefix_def)
  with assms(1) let_in_mono [OF _ tr] show ?thesis
    unfolding answers_ok_def assms(3-5) by (fastforce simp: nth_append)
qed

lemma answers_step:
  "network_step N s e t \<Longrightarrow> \<forall>j. callbacks_set (cs_client (nw_clients s j)) \<Longrightarrow>
   sessions_authentic (ne_server N) (vs_server (nw_server s)) \<Longrightarrow> answers_ok N s \<Longrightarrow> answers_ok N t"
proof (induction rule: network_step.induct)
  case (client_moves e s j c)
  from client_moves(1,3) show ?case by (intro answers_client [OF client_moves(5,2)]) auto
next
  case (tcp_connect i s j k c)
  from tcp_connect(4) show ?case by (intro answers_client [OF tcp_connect(6,3)]) auto
next
  case (answer_arrives i s j h c)
  from answer_arrives(2,3,5) show ?case by (intro answers_client [OF answer_arrives(7,4)]) auto
next
  case (answer i s up)
  have "up \<in> set (op_keys (sv_upgrades (vs_server (nw_server s))))"
    using answer(1,2) by (metis fst_conv image_eqI list.set_map nth_mem)
  with answer(5) have "let_in (ne_server N) (sv_trace (vs_server (nw_server s))) (up_stream up) (up_context up)"
    unfolding sessions_authentic_def by blast
  with answer(3,6) show ?case by (fastforce simp: answers_ok_def)
next
  case (server_moves s e v)
  then show ?case by (intro answers_server [OF server_moves(5,2)]) simp_all
next
  case (tcp_accept i s v)
  then show ?case by (intro answers_server [OF tcp_accept(7,4)]) simp_all
next
  case (accepting i s ops w rest v)
  then show ?case by (intro answers_server [OF accepting(6,3)]) simp_all
next
  case (deliver i s fam k st r bs v)
  then show ?case by (intro answers_server [OF deliver(9,6)]) simp_all
next
  case (request_cut i s fam k st ec v)
  then show ?case by (intro answers_server [OF request_cut(7,4)]) simp_all
qed (simp add: answers_ok_def)

text \<open>The connections of one client.\<close>

definition client_links :: "('c, 'f, 'x) client \<Rightarrow> nat set \<Rightarrow> bool" where
  "client_links c K \<longleftrightarrow> distinct (running (cl_connects c)) \<and>
     (\<forall>k \<in> set (running (cl_connects c)). k < length (cl_streams c)) \<and>
     (\<forall>k \<in> K. k < length (cl_streams c) \<and> k \<notin> set (running (cl_connects c)))"

lemma client_links_step:
  assumes "client_links (cs_client s) K" and "client_step B upgrade suggested u s e t" and "callbacks_set (cs_client s)"
    and "streams_ok suggested u (cs_client t)"
  shows "client_links (cs_client t) K"
proof -
  have new: "\<forall>k \<in> set (running (cl_connects (cs_client t))). k < length (cl_streams (cs_client t))"
  proof -
    have "\<forall>k \<in> set (op_keys (cl_connects (cs_client t))). k < length (cl_streams (cs_client t))"
      using assms(4) by (simp add: streams_ok_def)
    then show ?thesis using running_subset [of "cl_connects (cs_client t)"] by blast
  qed
  have "distinct (running (cl_connects (cs_client t)))"
    and sub: "set (running (cl_connects (cs_client t))) \<subseteq> set (running (cl_connects (cs_client s))) \<union> {length (cl_streams (cs_client s))..}"
    and le: "length (cl_streams (cs_client s)) \<le> length (cl_streams (cs_client t))"
    using connects_step [OF assms(2,3)] assms(1) by (simp_all add: client_links_def)
  moreover have "k < length (cl_streams (cs_client t)) \<and> k \<notin> set (running (cl_connects (cs_client t)))" if "k \<in> K" for k
  proof -
    from that assms(1) have "k < length (cl_streams (cs_client s))" "k \<notin> set (running (cl_connects (cs_client s)))"
      by (auto simp: client_links_def)
    with sub le show ?thesis by auto
  qed
  ultimately show ?thesis using new by (simp add: client_links_def)
qed

lemma client_links_connected:
  assumes "client_links (cs_client s) K" and "client_step B upgrade suggested u s (FinishConnect i NoError) t"
    and "i < length (cl_connects (cs_client s))" "cl_connects (cs_client s) ! i = (k, Running)"
  shows "k \<notin> K" and "client_links (cs_client t) (insert k K)"
proof -
  from assms(2) obtain ops where fin: "finish_op i NoError (cl_connects (cs_client s)) = Some ops"
    and t: "t = s\<lparr>cs_client := (cs_client s)\<lparr>cl_connects := ops\<rparr>\<rparr>"
    by (auto simp: client_step_simps)
  have "(k, Running) \<in> set (cl_connects (cs_client s))" using assms(3,4) by (metis nth_mem)
  then have k: "k \<in> set (running (cl_connects (cs_client s)))" by (force simp: running_def)
  then show "k \<notin> K" using assms(1) by (auto simp: client_links_def)
  have "distinct (running (cl_connects (cs_client s)))" using assms(1) by (simp add: client_links_def)
  from finish_op_running [OF fin assms(3,4) this] k show "client_links (cs_client t) (insert k K)"
    using assms(1) by (auto simp: client_links_def t)
qed

definition links_of :: "('cl, 'sv, 'f) network \<Rightarrow> nat \<Rightarrow> nat set" where
  "links_of s j = {k. (j, k) \<in> set (nw_accepted s @ nw_backlog s)}"

text \<open>No connection is accepted twice.\<close>

definition links_ok where
  "links_ok s \<longleftrightarrow> distinct (nw_accepted s @ nw_backlog s) \<and>
     (\<forall>j. client_links (cs_client (nw_clients s j)) (links_of s j))"

lemma links_client:
  assumes "links_ok s" and "net_client_step N (nw_clients s j) f c" and "callbacks_set (cs_client (nw_clients s j))"
    and "streams_ok (env_suggested (ne_server N)) (ne_user N) (cs_client c)" and "nw_clients t = (nw_clients s)(j := c)"
    and "nw_accepted t = nw_accepted s" and "nw_backlog t = nw_backlog s"
  shows "links_ok t"
  using assms(1) client_links_step [OF _ assms(2-4)] by (simp add: links_ok_def links_of_def assms(5-7))

lemma links_fewer:
  assumes "links_ok s" and "nw_clients t = nw_clients s" and "distinct (nw_accepted t @ nw_backlog t)"
    and "set (nw_accepted t @ nw_backlog t) \<subseteq> set (nw_accepted s @ nw_backlog s)"
  shows "links_ok t"
proof -
  have "links_of t j \<subseteq> links_of s j" for j using assms(4) unfolding links_of_def by blast
  with assms(1) have "client_links (cs_client (nw_clients s j)) (links_of t j)" for j
    unfolding links_ok_def client_links_def by blast
  with assms(3) show ?thesis by (simp add: links_ok_def assms(2))
qed

lemma links_step:
  "network_step N s e t \<Longrightarrow> \<forall>j. callbacks_set (cs_client (nw_clients s j)) \<Longrightarrow>
   \<forall>j. streams_ok (env_suggested (ne_server N)) (ne_user N) (cs_client (nw_clients t j)) \<Longrightarrow> links_ok s \<Longrightarrow> links_ok t"
proof (induction rule: network_step.induct)
  case (client_moves e s j c)
  have "streams_ok (env_suggested (ne_server N)) (ne_user N) (cs_client c)"
    using client_moves(4) by (auto dest: spec [of _ j])
  with client_moves(3) show ?case by (intro links_client [OF client_moves(5,2)]) simp_all
next
  case (answer_arrives i s j h c)
  have "streams_ok (env_suggested (ne_server N)) (ne_user N) (cs_client c)"
    using answer_arrives(6) by (auto dest: spec [of _ j])
  with answer_arrives(5) show ?case by (intro links_client [OF answer_arrives(7,4)]) simp_all
next
  case (tcp_connect i s j k c)
  let ?t = "s\<lparr>nw_clients := (nw_clients s)(j := c), nw_backlog := nw_backlog s @ [(j, k)]\<rparr>"
  have "client_links (cs_client (nw_clients s j)) (links_of s j)" using tcp_connect(6) by (simp add: links_ok_def)
  from client_links_connected [OF this tcp_connect(3,1,2)]
  have new: "k \<notin> links_of s j" "client_links (cs_client c) (insert k (links_of s j))" by simp_all
  then have "(j, k) \<notin> set (nw_accepted s @ nw_backlog s)" by (simp add: links_of_def)
  moreover have "links_of ?t j = insert k (links_of s j)" by (auto simp: links_of_def)
  with new have "client_links (cs_client c) (links_of ?t j)" by simp
  moreover have "links_of ?t i = links_of s i" if "i \<noteq> j" for i using that by (auto simp: links_of_def)
  ultimately show ?case using tcp_connect(6) by (auto simp: links_ok_def)
next
  case (accepting i s ops w rest v)
  then show ?case
    by (intro links_fewer [OF accepting(6)]) (auto simp: links_ok_def)
next
  case (send_request i s j h)
  then show ?case by (intro links_fewer [OF send_request(5)]) (simp_all add: links_ok_def)
next
  case (answer i s up)
  then show ?case by (intro links_fewer [OF answer(6)]) (simp_all add: links_ok_def)
next
  case (server_moves s e v)
  then show ?case by (intro links_fewer [OF server_moves(5)]) (simp_all add: links_ok_def)
next
  case (tcp_accept i s v)
  then show ?case by (intro links_fewer [OF tcp_accept(7)]) (simp_all add: links_ok_def)
next
  case (deliver i s fam k st r bs v)
  then show ?case by (intro links_fewer [OF deliver(9)]) (simp_all add: links_ok_def)
next
  case (request_cut i s fam k st ec v)
  then show ?case by (intro links_fewer [OF request_cut(7)]) (simp_all add: links_ok_def)
qed

definition network_inv ::
  "('f, 'ctx, 'u, 'v) network_env \<Rightarrow>
   (('c, 'f, ('ct, 'h, 'w, 'd, 'v) session) client_system,
    ('k, 'f, 'ctx, ('ctx, 'g, 'a, 'b, 'u) session) server_system, 'f) network \<Rightarrow> bool" where
  "network_inv N s \<longleftrightarrow>
     (\<forall>j. client_inv (env_boost (ne_server N)) (ne_upgrade N) (env_suggested (ne_server N)) (ne_user N) (nw_clients s j)) \<and>
     server_inv (ne_server N) (nw_server s) \<and> reading_ok N s \<and> asked_ok N s \<and> constants_ok N s \<and>
     answers_ok N s \<and> links_ok s"

lemma network_inv_init: "network_init s \<Longrightarrow> network_inv N s"
proof -
  assume init: "network_init s"
  have client: "\<exists>host port path auth ns rf cf hf. cs_client (nw_clients s j) = new_Client host port path auth (Fn ns) (Fn rf) (Fn cf) (Fn hf)" for j
  proof -
    have "client_init (nw_clients s j)" using init by (simp add: network_init_def)
    then show ?thesis unfolding client_init_def by (elim exE) (simp, blast)
  qed
  have clients: "client_inv (env_boost (ne_server N)) (ne_upgrade N) (env_suggested (ne_server N)) (ne_user N) (nw_clients s j)" for j
    using init by (intro client_inv_init) (simp add: network_init_def)
  have "cl_connects (cs_client (nw_clients s j)) = []" "answered_handshakes (cs_client (nw_clients s j)) = {}" for j
    using client [of j] by (auto simp: new_Client_def answered_handshakes_def sessions_of_def)
  moreover have "vs_starts (nw_server s) = 0" "sv_trace (vs_server (nw_server s)) = []" "sv_streams (vs_server (nw_server s)) = []"
    "sv_reads (vs_server (nw_server s)) = []" "sv_acceptBuffer (vs_server (nw_server s)) = []"
    using init by (auto simp: network_init_def server_init_def new_Server_def)
  ultimately show ?thesis
    using init clients server_inv_init
    by (auto simp: network_inv_def network_init_def reading_ok_def asked_ok_def constants_ok_def answers_ok_def
        links_ok_def links_of_def client_links_def)
qed

context request_wire
begin

lemma network_inv_step:
  assumes s: "network_inv N s" and step: "network_step N s e t"
  shows "network_inv N t"
proof -
  have clients: "client_inv (env_boost (ne_server N)) (ne_upgrade N) (env_suggested (ne_server N)) (ne_user N) (nw_clients t j)" for j
    using network_client [OF step, of j] s client_inv_step unfolding network_inv_def by metis
  have server: "server_inv (ne_server N) (nw_server t)"
    using network_server [OF step] s server_inv_step unfolding network_inv_def by metis
  have callbacks: "\<forall>j. callbacks_set (cs_client (nw_clients s j))"
    and requests: "\<forall>j. requests_ok (env_boost (ne_server N)) (ne_upgrade N) (cs_client (nw_clients s j))"
    using s by (simp_all add: network_inv_def client_inv_def)
  have streams: "\<forall>j. streams_ok (env_suggested (ne_server N)) (ne_user N) (cs_client (nw_clients t j))"
    using clients by (simp add: client_inv_def)
  have "reading_ok N t \<and> asked_ok N t"
    using s by (intro reading_step [OF step]) (simp_all add: network_inv_def server_inv_def)
  moreover have "constants_ok N t"
    using s by (intro constants_step [OF step callbacks requests]) (simp add: network_inv_def)
  moreover have "answers_ok N t"
    using s by (intro answers_step [OF step callbacks]) (simp_all add: network_inv_def server_inv_def)
  moreover have "links_ok t"
    using s by (intro links_step [OF step callbacks streams]) (simp add: network_inv_def)
  ultimately show ?thesis using clients server by (simp add: network_inv_def)
qed

end

sublocale request_wire \<subseteq> joined: invariant_system network_init "network_step N" "network_inv N"
  by unfold_locales (rule network_inv_init network_inv_step; assumption)+

context request_wire
begin

lemma network_reachable: "reachable network_init (network_step N) s \<Longrightarrow> network_inv N s"
  by (rule joined.reachable_inv)

end

subsection \<open>What the invariant says of both sides\<close>

text \<open>The upgrade request that the websocket library builds has no authorization header of its own.\<close>

definition bare_requests :: "'f boost \<Rightarrow> (string \<Rightarrow> string \<Rightarrow> 'f) \<Rightarrow> bool" where
  "bare_requests B upgrade \<longleftrightarrow> (\<forall>host path. field_count B (upgrade host path) AuthorizationField = 0)"

text \<open>What a server makes of a request that a client has decorated: the credentials that the header
  carries.\<close>

lemma decorated_request_authentication:
  assumes "auth_http B" and "decorator B a req = Some r" and "field_count B req AuthorizationField = 0"
  shows "request_authentication B r = Some (carried a)"
proof -
  note laws = auth_http.axioms [OF assms(1)]
  note fields = http_fields.decorated_fields [OF laws(2) assms(2)]
  show ?thesis
  proof (cases "auth_type a")
    case Anonymous
    with fields(2) assms(3) show ?thesis by (simp add: request_authentication_def carried_def)
  next
    case Basic
    then have a: "a = Authentication_basic (username a) (password a)" by (simp add: Authentication_basic_def)
    from Basic fields(3) have "field_count B r AuthorizationField = 1"
      "getEncodedHeader B a = Some (field_at B r AuthorizationField)" by simp_all
    with auth_text.header_carries [OF laws(1), of "username a" "password a"] a show ?thesis
      by (simp add: request_authentication_def)
  qed
qed

lemma asked_about_client:
  assumes "auth_http (env_boost (ne_server N))" and s: "network_inv N s"
    and bare: "bare_requests (env_boost (ne_server N)) (ne_upgrade N)"
    and asked: "AuthenticateCalled k auth \<in> set (sv_trace (vs_server (nw_server s)))" and "nw_accepted s ! k = (j, c)"
  shows "auth = carried (cl_authentication (cs_client (nw_clients s j)))"
proof -
  from s asked obtain r where "((j, c), r) \<in> set (nw_sent s)"
    and auth: "request_authentication (env_boost (ne_server N)) r = Some auth"
    using assms(5) by (fastforce simp: network_inv_def asked_ok_def)
  then have "decorator (env_boost (ne_server N)) (cl_authentication (cs_client (nw_clients s j)))
      (ne_upgrade N (cl_host (cs_client (nw_clients s j))) (cl_path (cs_client (nw_clients s j)))) = Some r"
    using s by (auto simp: network_inv_def constants_ok_def)
  from decorated_request_authentication [OF assms(1) this] auth bare
  show ?thesis by (simp add: bare_requests_def)
qed

text \<open>Whoever has a session was let in: the client, since the server has answered its request, and the
  server's user, since the server asked before it answered.\<close>

lemma client_let_in:
  assumes "network_inv N s" and "NewSession cb c x \<in> set (cl_trace (cs_client (nw_clients s j)))"
  obtains k auth where "k < length (nw_accepted s)" and "nw_accepted s ! k = (j, c)"
    and "AuthenticateCalled k auth \<in> set (sv_trace (vs_server (nw_server s)))"
    and "fst (env_authenticate (ne_server N) k auth)"
proof -
  have "(c, x) \<in> set (sessions_of (cs_client (nw_clients s j)))"
    using assms(2) by (force simp: sessions_of_def)
  then have "c \<in> answered_handshakes (cs_client (nw_clients s j))" by (force simp: answered_handshakes_def)
  then have "(j, c) \<in> set (nw_answered s)" using assms(1) by (simp add: network_inv_def answers_ok_def)
  then obtain k ctx where "k < length (nw_accepted s)" "nw_accepted s ! k = (j, c)"
    "let_in (ne_server N) (sv_trace (vs_server (nw_server s))) k ctx"
    using assms(1) by (auto simp: network_inv_def answers_ok_def)
  then show ?thesis using that by (auto simp: let_in_def)
qed

lemma session_let_in_client:
  assumes "network_inv N s" and "ServerSession cb k y \<in> set (sv_trace (vs_server (nw_server s)))"
  obtains auth where "k < length (nw_accepted s)"
    and "AuthenticateCalled k auth \<in> set (sv_trace (vs_server (nw_server s)))"
    and "env_authenticate (ne_server N) k auth = (True, getUserContext y)"
proof -
  have "session_let_in (ne_server N) (sv_trace (vs_server (nw_server s))) (ServerSession cb k y)"
    using assms unfolding network_inv_def server_inv_def sessions_authentic_def by blast
  then obtain auth where auth: "AuthenticateCalled k auth \<in> set (sv_trace (vs_server (nw_server s)))"
    "env_authenticate (ne_server N) k auth = (True, getUserContext y)"
    by (auto simp: let_in_def createSession_s_def getUserContext_def new_Session_def setOptions_def Let_def)
  moreover from auth(1) assms(1) have "k < length (nw_accepted s)" by (auto simp: network_inv_def asked_ok_def)
  ultimately show ?thesis using that by blast
qed

subsection \<open>A run\<close>

text \<open>A server for sessions that read frames, with the users of \<open>Server_Properties\<close>.\<close>

type_synonym framed_server =
  "(nat, (http_field \<times> string) list, nat, (nat, frame_handler, nat, nat, frame_vars) session) server_system"

definition framed_start :: framed_server where
  "framed_start = \<lparr>vs_server = new_Server [] (Fn 1), vs_starts = 0\<rparr>"

definition framed_server1 ::
  "(nat, (http_field \<times> string) list, nat, (nat, frame_handler, nat, nat, frame_vars) session) server" where
  "framed_server1 = \<lparr>sv_onNewSession = Fn 1, sv_isOpen = (\<lambda>fam. False)(V4 := True), sv_acceptBuffer = [], sv_acceptRequest = [],
     sv_exists = True, sv_streams = [\<lparr>write_buffer_bytes = 65536, read_message_max = 0x10000000\<rparr>],
     sv_accepts = [], sv_reads = [((V4, 0), Running)], sv_upgrades = [], sv_trace = []\<rparr>"

definition framed_started :: framed_server where
  "framed_started =
     \<lparr>vs_server = framed_server1\<lparr>sv_streams := [], sv_accepts := [(V4, Running)], sv_reads := []\<rparr>, vs_starts = 1\<rparr>"

lemma framed_start_init: "server_init framed_start"
  unfolding server_init_def framed_start_def by blast

lemma start_framed: "server_step E framed_start (StartServer 7420) framed_started"
proof -
  have "\<forall>fam. sv_isOpen (vs_server framed_start) fam \<longrightarrow> failed (open_result (net0 7420 fam))"
    by (simp add: framed_start_def new_Server_def)
  from start_server [of framed_start net0 7420 E, OF _ this] show ?thesis
    by (simp add: framed_start_def framed_started_def framed_server1_def server_ops net0_def start_op_def Let_def)
qed

definition env_wire :: "((http_field \<times> string) list, nat, frame_vars) server_env" where
  "env_wire = \<lparr>env_boost = rfc_boost, env_parse = parse_fields, env_authenticate = env_authenticate env0,
     env_suggested = env_suggested env0, env_user = vars0\<rparr>"

definition wire_session :: "(nat, frame_handler, nat, nat, frame_vars) session" where
  "wire_session = createSession_s (env_suggested env_wire) vars0 (Some 5) ''::1'' 50000"

definition example_net :: "((http_field \<times> string) list, nat, frame_vars, unit) network_env" where
  "example_net = \<lparr>ne_server = env_wire, ne_upgrade = (\<lambda>host path. [(OtherField ''Host'', host)]), ne_user = (),
     ne_wire = fields_text, ne_family = V4\<rparr>"

interpretation example_wire: request_wire example_net
  by (simp add: request_wire_def example_net_def env_wire_def fields_wire.http_wire_axioms)

type_synonym example_network = "(example_client, framed_server, (http_field \<times> string) list) network"

definition network0 :: example_network where
  "network0 = \<lparr>nw_clients = (\<lambda>j. csystem0), nw_server = framed_start, nw_backlog = [], nw_accepted = [], nw_sent = [],
     nw_received = (\<lambda>k. []), nw_answered = []\<rparr>"

definition network1 :: example_network where
  "network1 = network0\<lparr>nw_clients := (\<lambda>j. csystem0)(0 := csystem1), nw_server := framed_started,
     nw_backlog := [(0, 0)]\<rparr>"

definition network2 :: example_network where
  "network2 = network1\<lparr>nw_server := \<lparr>vs_server = framed_server1, vs_starts = 1\<rparr>, nw_backlog := [], nw_accepted := [(0, 0)], nw_sent := [((0, 0), decorated)]\<rparr>"

lemma fun_upd_same_eq: "f(a := x) = f(a := y) \<longleftrightarrow> x = y"
  by (metis fun_upd_same)

lemmas network_run_defs =
  network_step_simps fun_upd_same_eq client_run_defs server_run_defs example_net_def env_wire_def env0_def

lemma run_network1: "run (network_step example_net) network0
   [ServerAlone (StartServer 7420), ClientAlone 0 (Connect 1000), ClientAlone 0 (FinishResolve 0 NoError),
    ClientAlone 0 (ResolveCompleted 0), TcpConnect 0 0, ClientAlone 0 (ConnectCompleted 0)] network1"
proof -
  have "network_step example_net network0 (ServerAlone (StartServer 7420)) (network0\<lparr>nw_server := framed_started\<rparr>)"
    by (rule server_moves) (simp add: network0_def framed_start_def, simp add: network0_def start_framed)
  moreover have "run (network_step example_net) (network0\<lparr>nw_server := framed_started\<rparr>)
     [ClientAlone 0 (Connect 1000), ClientAlone 0 (FinishResolve 0 NoError),
      ClientAlone 0 (ResolveCompleted 0), TcpConnect 0 0, ClientAlone 0 (ConnectCompleted 0)] network1"
    by (simp add: network_run_defs network0_def network1_def csystem0_def csystem1_def client1_def decorated_request)
  ultimately show ?thesis unfolding run.simps by blast
qed

lemma run_network2: "run (network_step example_net) network1 [SendRequest 0 0, TcpAccept 0, Accepting 0] network2"
  by (simp add: network_run_defs network0_def network1_def network2_def csystem1_def client1_def
      framed_started_def framed_server1_def)

text \<open>The request arrives in two pieces; the server lets the client in and both have a session.\<close>

lemma decorated_wire: "fields_text decorated = [1, 1] @ tl (tl (fields_text decorated))"
  by (simp add: decorated_def string_text_def)

lemma decorated_asks: "request_authentication rfc_boost decorated = Some jure"
  unfolding decorated_def by code_simp

lemma run_network3: "\<exists>t. run (network_step example_net) network2
   [Deliver 0 [1, 1], Deliver 0 (tl (tl (fields_text decorated))), Answer 0, AnswerArrives 0 0,
    ClientAlone 0 (HandshakeCompleted 0 (Inr (''::1'', 7420))), ServerAlone (FinishUpgrade 0 NoError),
    ServerAlone (UpgradeCompleted 0 True (Inr (''::1'', 50000)))] t \<and>
   cl_authentication (cs_client (nw_clients t 0)) = jure \<and>
   cl_trace (cs_client (nw_clients t 0)) = cl_trace (cs_client csystem2) \<and> nw_accepted t = [(0, 0)] \<and>
   sv_trace (vs_server (nw_server t)) = [AuthenticateCalled 0 jure, ServerSession 1 0 wire_session]"
proof -
  have some: "parse_fields [1, 1] = None" by simp
  have whole: "parse_fields (1 # 1 # tl (tl (fields_text decorated))) = Some (decorated, [])"
    using fields_wire.parse_text [of decorated] decorated_wire by simp
  have part: "prefix [1, 1] (fields_text decorated)" "prefix (1 # 1 # tl (tl (fields_text decorated))) (fields_text decorated)"
    using decorated_wire by (metis prefixI, simp)
  show ?thesis
    by (simp add: network_run_defs csystem2_def csystem1_def client1_def network0_def network1_def network2_def
        framed_server1_def some whole part decorated_asks jure_def wire_session_def
        del: parse_fields.simps)
qed

lemma reachable_network2: "reachable network_init (network_step example_net) network2"
proof -
  have "network_init network0" by (simp add: network_init_def network0_def csystem0_init framed_start_init)
  from run_reachable [OF run_reachable [OF reachable_init [of network_init, OF this] run_network1] run_network2]
  show ?thesis .
qed

definition client_session :: "(nat, unit, nat, nat, unit) session" where
  "client_session = new_Session
     (\<lambda>role. \<lparr>handshake_timeout = 30000, idle_timeout = None, keep_alive_pings = False\<rparr>) () None client_role ''::1'' 7420"

lemma example_agreed:
  "\<exists>s :: example_network. reachable network_init (network_step example_net) s \<and> cl_authentication (cs_client (nw_clients s 0)) = jure \<and>
     NewSession 1 0 client_session \<in> set (cl_trace (cs_client (nw_clients s 0))) \<and> nw_accepted s = [(0, 0)] \<and>
     ServerSession 1 0 wire_session \<in> set (sv_trace (vs_server (nw_server s)))"
proof -
  obtain s es where s: "run (network_step example_net) network2 es s"
    "cl_authentication (cs_client (nw_clients s 0)) = jure"
    "cl_trace (cs_client (nw_clients s 0)) = cl_trace (cs_client csystem2)" "nw_accepted s = [(0, 0)]"
    "sv_trace (vs_server (nw_server s)) = [AuthenticateCalled 0 jure, ServerSession 1 0 wire_session]"
    using run_network3 by blast
  moreover have "NewSession 1 0 client_session \<in> set (cl_trace (cs_client (nw_clients s 0)))"
    by (simp add: s(3) csystem2_def client_session_def)
  moreover have "reachable network_init (network_step example_net) s"
    using run_reachable [OF reachable_network2 s(1)] .
  ultimately show ?thesis by (intro exI [of _ s]) simp
qed

lemma example_boost: "auth_http (env_boost (ne_server example_net))"
  using rfc.auth_http_axioms by (simp add: example_net_def env_wire_def env0_def)

lemma example_bare: "bare_requests (env_boost (ne_server example_net)) (ne_upgrade example_net)"
  by (simp add: bare_requests_def example_net_def env_wire_def rfc_boost_def)

end
