(* ===== verification/Network_Progress.thy ===== *)
theory Network_Progress
  imports Network
begin

section \<open>A client that connects can get in\<close>

text \<open>
  The network of \<open>Network\<close> never gets stuck: from every reachable state in which the server
  listens, a client whose credentials the server's user accepts and whose connect is running can get
  its session, whatever the server is doing and however many clients came before. The run is built
  stage by stage: the request that is being read is completed or given up, the connections ahead are
  accepted and given up one after the other, and then the client's request is read and answered.
  Each stage needs the invariant: an open acceptor has an accept outstanding, and what was read so far
  is a part of the request that was sent.
\<close>

subsection \<open>What a machine can be brought to\<close>

definition can_reach :: "('s \<Rightarrow> 'e \<Rightarrow> 's \<Rightarrow> bool) \<Rightarrow> 's \<Rightarrow> ('s \<Rightarrow> bool) \<Rightarrow> bool" where
  "can_reach step s P \<longleftrightarrow> (\<exists>es t. run step s es t \<and> P t)"

lemma can_now: "P s \<Longrightarrow> can_reach step s P"
  unfolding can_reach_def by (intro exI [of _ "[]"]) simp

lemma can_mono: "can_reach step s P \<Longrightarrow> (\<And>t. P t \<Longrightarrow> Q t) \<Longrightarrow> can_reach step s Q"
  unfolding can_reach_def by blast

lemma can_trans:
  assumes "can_reach step s P" and "\<And>es t. run step s es t \<Longrightarrow> P t \<Longrightarrow> can_reach step t Q"
  shows "can_reach step s Q"
proof -
  obtain es t where "run step s es t" "P t" using assms(1) unfolding can_reach_def by blast
  moreover from assms(2) [OF this] obtain fs v where "run step t fs v" "Q v" unfolding can_reach_def by blast
  ultimately have "run step s (es @ fs) v \<and> Q v" by (auto simp: run_append)
  then show ?thesis unfolding can_reach_def by blast
qed

lemma can_step:
  assumes "step s e u" and "can_reach step u P"
  shows "can_reach step s P"
proof (rule can_trans [where P = "\<lambda>t. t = u"])
  have "run step s [e] u" using assms(1) by simp
  then show "can_reach step s (\<lambda>t. t = u)" unfolding can_reach_def by blast
qed (simp add: assms(2))

lemmas network_can_step = can_step [where step = "network_step N" for N]

subsection \<open>Listening, and what has arrived\<close>

definition listening :: "('f, 'ctx, 'u, 'v) network_env \<Rightarrow> ('cl, ('k, 'f, 'ctx, 'y) server_system, 'f) network \<Rightarrow> bool" where
  "listening N s \<longleftrightarrow> sv_exists (vs_server (nw_server s)) \<and> sv_isOpen (vs_server (nw_server s)) (ne_family N)"

text \<open>What was received for a connection is a part of a request that its client has sent.\<close>

definition pieces_ok :: "('f, 'ctx, 'u, 'v) network_env \<Rightarrow> ('cl, 'sv, 'f) network \<Rightarrow> bool" where
  "pieces_ok N s \<longleftrightarrow> (\<forall>k. nw_received s k \<noteq> [] \<longrightarrow> k < length (nw_accepted s) \<and>
     (\<exists>r. (nw_accepted s ! k, r) \<in> set (nw_sent s) \<and> prefix (nw_received s k) (ne_wire N r)))"

lemma pieces_init: "network_init s \<Longrightarrow> pieces_ok N s"
  by (simp add: network_init_def pieces_ok_def)

lemma pieces_step: "network_step N s e t \<Longrightarrow> pieces_ok N s \<Longrightarrow> pieces_ok N t"
proof (induction rule: network_step.induct)
  case (accepting i s ops w rest v)
  then show ?case by (fastforce simp: pieces_ok_def nth_append)
next
  case (deliver i s fam k st r bs v)
  then show ?case by (auto simp: pieces_ok_def)
next
  case (send_request i s j h)
  then show ?case by (fastforce simp: pieces_ok_def)
qed (simp_all add: pieces_ok_def)

interpretation arriving: invariant_system network_init "network_step N" "pieces_ok N" for N
  by unfold_locales (rule pieces_init pieces_step; assumption)+

text \<open>What a stage on the side of the server leaves alone.\<close>

definition clients_wait :: "('cl, 'sv, 'f) network \<Rightarrow> ('cl, 'sv, 'f) network \<Rightarrow> bool" where
  "clients_wait s t \<longleftrightarrow> nw_clients t = nw_clients s \<and> nw_sent t = nw_sent s"

lemma clients_wait_refl [simp]: "clients_wait s s"
  by (simp add: clients_wait_def)

lemma clients_wait_trans: "clients_wait s t \<Longrightarrow> clients_wait t v \<Longrightarrow> clients_wait s v"
  by (simp add: clients_wait_def)

subsection \<open>The steps of the server, with the states they lead to\<close>

definition request_taken ::
  "('f, 'ctx, 'u) server_env \<Rightarrow> family \<Rightarrow> nat \<Rightarrow> 'f \<Rightarrow> authentication \<Rightarrow> ('c, 'f, 'ctx, 'x) server \<Rightarrow> ('c, 'f, 'ctx, 'x) server" where
  "request_taken E fam k r auth v =
     (let v' = server_emit (AuthenticateCalled k auth) (v\<lparr>sv_acceptBuffer := [], sv_acceptRequest := r, sv_reads := []\<rparr>)
      in startTcpAccept fam
           (if fst (env_authenticate E k auth)
            then v'\<lparr>sv_upgrades := async_accept k (snd (env_authenticate E k auth)) r (sv_upgrades v)\<rparr> else v'))"

lemma request_completes:
  assumes "sv_reads (vs_server s) = [((fam, k), Running)]" and "sv_exists (vs_server s)"
    and "env_parse E (sv_acceptBuffer (vs_server s) @ bs) = Some (r, [])"
    and "request_authentication (env_boost E) r = Some auth"
  shows "server_step E s (RequestBytes 0 bs) (s\<lparr>vs_server := request_taken E fam k r auth (vs_server s)\<rparr>)"
proof -
  let ?s' = "(vs_server s)\<lparr>sv_acceptBuffer := [], sv_acceptRequest := r\<rparr>"
  have read: "readRequest (env_parse E) bs (vs_server s) = (?s', True)"
    using assms(3) by (simp add: readRequest_def)
  have "leaves (requestHandler (env_boost E) (env_authenticate E k) fam NoError k
      (?s'\<lparr>sv_reads := take 0 (sv_reads ?s') @ drop (Suc 0) (sv_reads ?s')\<rparr>)) (request_taken E fam k r auth (vs_server s))"
    using assms(1,2,4)
    by (cases "env_authenticate E k auth")
       (simp add: requestHandler_def onReadAcceptRequest_def request_taken_def server_emit_def Let_def)
  from request_complete [OF _ _ read this] assms(1) show ?thesis by simp
qed

lemma request_lost_step:
  assumes "sv_reads (vs_server s) = [((fam, k), Running)]" and "sv_exists (vs_server s)" and "failed ec"
  shows "server_step E s (RequestFailed 0 ec) (s\<lparr>vs_server := startTcpAccept fam ((vs_server s)\<lparr>sv_reads := []\<rparr>)\<rparr>)"
proof -
  have "leaves (requestHandler (env_boost E) (env_authenticate E k) fam ec k
      ((vs_server s)\<lparr>sv_reads := take 0 (sv_reads (vs_server s)) @ drop (Suc 0) (sv_reads (vs_server s))\<rparr>))
      (startTcpAccept fam ((vs_server s)\<lparr>sv_reads := []\<rparr>))"
    using assms by (simp add: requestHandler_def onReadAcceptRequest_def)
  from request_failed [OF _ _ assms(3) this] assms(1) show ?thesis by simp
qed

lemma request_taken_fields [simp]:
  "sv_exists (request_taken E fam k r auth v) = sv_exists v" "sv_isOpen (request_taken E fam k r auth v) = sv_isOpen v"
  "sv_reads (request_taken E fam k r auth v) = []" "sv_streams (request_taken E fam k r auth v) = sv_streams v"
  by (simp_all add: request_taken_def startTcpAccept_def server_emit_def Let_def)

lemma accept_fields [simp]:
  "sv_exists (startTcpAccept fam v) = sv_exists v" "sv_isOpen (startTcpAccept fam v) = sv_isOpen v"
  "sv_reads (startTcpAccept fam v) = sv_reads v"
  by (simp_all add: startTcpAccept_def)

lemma take_op_ready: "i < length ops \<Longrightarrow> ops ! i = (k, Ready ec) \<Longrightarrow> \<exists>ops'. take_op i ops = Some ((k, ec), ops')"
  by (simp add: take_op_def)

subsection \<open>Accepting the next connection\<close>

definition next_accepted ::
  "('f, 'ctx, 'u, 'v) network_env \<Rightarrow> ('cl, ('k, 'f, 'ctx, 'y) server_system, 'f) network \<Rightarrow>
   ('cl, ('k, 'f, 'ctx, 'y) server_system, 'f) network \<Rightarrow> bool" where
  "next_accepted N s t \<longleftrightarrow> clients_wait s t \<and> listening N t \<and>
     nw_accepted t = nw_accepted s @ [hd (nw_backlog s)] \<and> nw_backlog t = tl (nw_backlog s) \<and> nw_received t = nw_received s \<and>
     sv_reads (vs_server (nw_server t)) = [((ne_family N, length (nw_accepted s)), Running)]"

text \<open>From an accept that has succeeded, from one that is running, and from one that has failed.\<close>

lemma accept_ready:
  assumes "listening N s" and "reading_ok N s" and "sv_reads (vs_server (nw_server s)) = []" and "nw_backlog s \<noteq> []"
    and "i < length (sv_accepts (vs_server (nw_server s)))"
    and "sv_accepts (vs_server (nw_server s)) ! i = (ne_family N, Ready NoError)"
  shows "can_reach (network_step N) s (next_accepted N s)"
proof -
  let ?v = "vs_server (nw_server s)"
  from take_op_ready [OF assms(5,6)] obtain ops where take: "take_op i (sv_accepts ?v) = Some ((ne_family N, NoError), ops)"
    by blast
  let ?t = "(nw_server s)\<lparr>vs_server := acceptHandler (ne_family N) NoError (?v\<lparr>sv_accepts := ops\<rparr>)\<rparr>"
  obtain w rest where backlog: "nw_backlog s = w # rest" using assms(4) by (cases "nw_backlog s") auto
  note step = accepting [OF take backlog accept_completed [OF take]]
  have exists: "sv_exists ?v" "sv_isOpen ?v (ne_family N)" using assms(1) by (simp_all add: listening_def)
  have "length (nw_accepted s) = length (sv_streams ?v)" using assms(2) by (simp add: reading_ok_def)
  then have "next_accepted N s (s\<lparr>nw_server := ?t, nw_backlog := rest, nw_accepted := nw_accepted s @ (if sv_exists ?v then [w] else [])\<rparr>)"
    using exists assms(3) by (simp add: next_accepted_def clients_wait_def listening_def backlog acceptHandler_def
        onAcceptTcpConnection_def start_op_def Let_def)
  then show ?thesis by (intro network_can_step [OF step] can_now)
qed

lemma accept_running:
  assumes "listening N s" and "reading_ok N s" and "sv_reads (vs_server (nw_server s)) = []" and "nw_backlog s \<noteq> []"
    and "i < length (sv_accepts (vs_server (nw_server s)))"
    and "sv_accepts (vs_server (nw_server s)) ! i = (ne_family N, Running)"
  shows "can_reach (network_step N) s (next_accepted N s)"
proof -
  let ?v = "vs_server (nw_server s)"
  let ?ops = "(sv_accepts ?v)[i := (ne_family N, Ready NoError)]"
  let ?s = "s\<lparr>nw_server := (nw_server s)\<lparr>vs_server := ?v\<lparr>sv_accepts := ?ops\<rparr>\<rparr>\<rparr>"
  have "finish_op i NoError (sv_accepts ?v) = Some ?ops" using assms(5,6) by (simp add: finish_op_def)
  from tcp_accept [OF assms(5,6,4) finish_accept [OF this]] have step: "network_step N s (TcpAccept i) ?s" by simp
  have "can_reach (network_step N) ?s (next_accepted N ?s)"
    by (rule accept_ready [where i = i]) (use assms in \<open>auto simp: listening_def reading_ok_def\<close>)
  then have "can_reach (network_step N) ?s (next_accepted N s)"
    by (rule can_mono) (simp add: next_accepted_def clients_wait_def)
  then show ?thesis by (rule network_can_step [OF step])
qed

lemma accept_failed:
  assumes "listening N s" and "reading_ok N s" and "sv_reads (vs_server (nw_server s)) = []" and "nw_backlog s \<noteq> []"
    and "i < length (sv_accepts (vs_server (nw_server s)))"
    and "sv_accepts (vs_server (nw_server s)) ! i = (ne_family N, Ready (OtherError n))"
  shows "can_reach (network_step N) s (next_accepted N s)"
proof -
  let ?v = "vs_server (nw_server s)"
  from take_op_ready [OF assms(5,6)] obtain ops where take: "take_op i (sv_accepts ?v) = Some ((ne_family N, OtherError n), ops)"
    by blast
  let ?s = "s\<lparr>nw_server := (nw_server s)\<lparr>vs_server := startTcpAccept (ne_family N) (?v\<lparr>sv_accepts := ops\<rparr>)\<rparr>\<rparr>"
  have open_now: "sv_exists ?v" "sv_isOpen ?v (ne_family N)" using assms(1) by (simp_all add: listening_def)
  have "network_step N s (ServerAlone (AcceptCompleted i)) ?s"
    using server_moves [of s "AcceptCompleted i", OF _ accept_completed [OF take]] open_now
    by (simp add: take acceptHandler_def onAcceptTcpConnection_def)
  moreover have "can_reach (network_step N) ?s (next_accepted N ?s)"
    by (rule accept_running [where i = "length ops"])
       (use assms open_now in \<open>auto simp: listening_def reading_ok_def startTcpAccept_def start_op_def\<close>)
  then have "can_reach (network_step N) ?s (next_accepted N s)"
    by (rule can_mono) (simp add: next_accepted_def clients_wait_def)
  ultimately show ?thesis by (rule can_step)
qed

lemma accept_next:
  assumes "network_inv N s" and "listening N s" and "sv_reads (vs_server (nw_server s)) = []" and "nw_backlog s \<noteq> []"
  shows "can_reach (network_step N) s (next_accepted N s)"
proof -
  let ?v = "vs_server (nw_server s)"
  have "accepting (nw_server s)" and ok: "reading_ok N s" using assms(1) by (simp_all add: network_inv_def server_inv_def)
  from acceptingD(1) [OF this(1)] assms(2) have "1 \<le> accept_tokens (ne_family N) ?v" by (simp add: listening_def)
  then have "filter (\<lambda>(f, st). f = ne_family N \<and> st \<noteq> Ready OperationAborted) (sv_accepts ?v) \<noteq> []"
    using assms(3) by (auto simp: accept_tokens_def)
  then obtain st where "(ne_family N, st) \<in> set (sv_accepts ?v)" "st \<noteq> Ready OperationAborted"
    by (auto simp: filter_empty_conv)
  then obtain i where i: "i < length (sv_accepts ?v)" "sv_accepts ?v ! i = (ne_family N, st)"
    by (auto simp: in_set_conv_nth)
  consider "st = Running" | "st = Ready NoError" | n where "st = Ready (OtherError n)"
    using \<open>st \<noteq> Ready OperationAborted\<close> by (cases st) (auto intro: error_code.exhaust)
  then show ?thesis
    using i by cases (auto intro: accept_running [OF assms(2) ok assms(3,4)] accept_ready [OF assms(2) ok assms(3,4)]
        accept_failed [OF assms(2) ok assms(3,4)])
qed

subsection \<open>The connections ahead\<close>

text \<open>The request of a connection names its client.\<close>

lemma sent_names_client:
  assumes "auth_http (env_boost (ne_server N))" and "network_inv N s"
    and "bare_requests (env_boost (ne_server N)) (ne_upgrade N)" and "((j, c), r) \<in> set (nw_sent s)"
  shows "request_authentication (env_boost (ne_server N)) r = Some (carried (cl_authentication (cs_client (nw_clients s j))))"
proof -
  have "decorator (env_boost (ne_server N)) (cl_authentication (cs_client (nw_clients s j)))
      (ne_upgrade N (cl_host (cs_client (nw_clients s j))) (cl_path (cs_client (nw_clients s j)))) = Some r"
    using assms(2,4) by (auto simp: network_inv_def constants_ok_def)
  from decorated_request_authentication [OF assms(1) this] assms(3) show ?thesis
    by (simp add: bare_requests_def)
qed

definition idle ::
  "('f, 'ctx, 'u, 'v) network_env \<Rightarrow> ('cl, ('k, 'f, 'ctx, 'y) server_system, 'f) network \<Rightarrow>
   ('cl, ('k, 'f, 'ctx, 'y) server_system, 'f) network \<Rightarrow> bool" where
  "idle N s t \<longleftrightarrow> clients_wait s t \<and> listening N t \<and> nw_backlog t = nw_backlog s \<and>
     sv_reads (vs_server (nw_server t)) = []"

text \<open>A connection whose turn it is: the server reads it and has nothing of it yet.\<close>

definition on_turn ::
  "('f, 'ctx, 'u, 'v) network_env \<Rightarrow> wire_id \<Rightarrow> ('cl, ('k, 'f, 'ctx, 'y) server_system, 'f) network \<Rightarrow>
   ('cl, ('k, 'f, 'ctx, 'y) server_system, 'f) network \<Rightarrow> bool" where
  "on_turn N w s t \<longleftrightarrow> clients_wait s t \<and> listening N t \<and>
     (\<exists>k < length (nw_accepted t). nw_accepted t ! k = w \<and> nw_received t k = [] \<and>
        sv_reads (vs_server (nw_server t)) = [((ne_family N, k), Running)])"

context request_wire
begin

text \<open>The connection that is being read is given up, or what is missing of its request arrives.\<close>

lemma reading_ends:
  assumes B: "auth_http (env_boost (ne_server N))" and s: "network_inv N s" "pieces_ok N s" and "listening N s"
    and bare: "bare_requests (env_boost (ne_server N)) (ne_upgrade N)"
  shows "can_reach (network_step N) s (idle N s)"
proof (cases "sv_reads (vs_server (nw_server s)) = []")
  case True
  with assms(4) show ?thesis by (intro can_now) (simp add: idle_def)
next
  case False
  let ?v = "vs_server (nw_server s)"
  from False s(1) obtain k st where "sv_reads ?v = [((ne_family N, k), st)]" and k: "k < length (nw_accepted s)"
    and buffer: "sv_acceptBuffer ?v = nw_received s k"
    by (auto simp: network_inv_def reading_ok_def)
  moreover have "accepting (nw_server s)" using s(1) by (simp add: network_inv_def server_inv_def)
  ultimately have reads: "sv_reads ?v = [((ne_family N, k), Running)]"
    using acceptingD(4) [of "nw_server s" "((ne_family N, k), st)"] by simp
  have live: "sv_exists ?v" "sv_isOpen ?v (ne_family N)" using assms(4) by (simp_all add: listening_def)
  show ?thesis
  proof (cases "nw_received s k = []")
    case True
    have step: "network_step N s (RequestCut 0 (OtherError 0))
        (s\<lparr>nw_server := (nw_server s)\<lparr>vs_server := startTcpAccept (ne_family N) (?v\<lparr>sv_reads := []\<rparr>)\<rparr>\<rparr>)"
      by (rule request_cut [OF _ _ True request_lost_step [OF reads live(1)]]) (simp_all add: reads)
    show ?thesis
      by (rule network_can_step [OF step can_now]) (simp add: idle_def clients_wait_def listening_def live)
  next
    case False
    then obtain r where r: "(nw_accepted s ! k, r) \<in> set (nw_sent s)" "prefix (nw_received s k) (ne_wire N r)"
      using s(2) by (auto simp: pieces_ok_def)
    then obtain q where q: "ne_wire N r = nw_received s k @ q" by (auto simp: prefix_def)
    have parse: "env_parse (ne_server N) (sv_acceptBuffer ?v @ q) = Some (r, [])"
      using parse_text [of r] by (simp add: buffer q)
    obtain auth where auth: "request_authentication (env_boost (ne_server N)) r = Some auth"
      using sent_names_client [OF B s(1) bare] r(1) by (metis surj_pair)
    have step: "network_step N s (Deliver 0 q)
        (s\<lparr>nw_server := (nw_server s)\<lparr>vs_server := request_taken (ne_server N) (ne_family N) k r auth ?v\<rparr>,
           nw_received := (nw_received s)(k := nw_received s k @ q)\<rparr>)"
      by (rule deliver [OF _ _ k r(1) _ request_completes [OF reads live(1) parse auth]]) (simp_all add: reads q)
    show ?thesis
      by (rule network_can_step [OF step can_now]) (simp add: idle_def clients_wait_def listening_def live)
  qed
qed

text \<open>The connections of the backlog come on one after the other.\<close>

lemma turn_comes:
  assumes B: "auth_http (env_boost (ne_server N))" and bare: "bare_requests (env_boost (ne_server N)) (ne_upgrade N)"
  shows "network_inv N s \<Longrightarrow> pieces_ok N s \<Longrightarrow> listening N s \<Longrightarrow>
    nw_backlog s = ahead @ w # rest \<Longrightarrow> can_reach (network_step N) s (on_turn N w s)"
proof (induction ahead arbitrary: s)
  case (Nil s)
  show ?case
  proof (rule can_trans [OF reading_ends [OF B Nil(1-3) bare]])
    fix es t assume t: "run (network_step N) s es t" "idle N s t"
    have inv: "network_inv N t" using Nil(1) t(1) by (rule joined.run_inv)
    have "can_reach (network_step N) t (next_accepted N t)"
      using accept_next [OF inv] t(2) Nil(4) by (simp add: idle_def)
    then show "can_reach (network_step N) t (on_turn N w s)"
    proof (rule can_mono)
      fix v assume v: "next_accepted N t v"
      have "nw_received t (length (nw_accepted t)) = []" using inv by (simp add: network_inv_def reading_ok_def)
      with v t(2) Nil(4) show "on_turn N w s v"
        by (auto simp: next_accepted_def on_turn_def idle_def clients_wait_def)
    qed
  qed
next
  case (Cons w' ahead s)
  show ?case
  proof (rule can_trans [OF reading_ends [OF B Cons(2-4) bare]])
    fix es t assume t: "run (network_step N) s es t" "idle N s t"
    have inv: "network_inv N t" using Cons(2) t(1) by (rule joined.run_inv)
    have pieces: "pieces_ok N t" using Cons(3) t(1) by (rule arriving.run_inv)
    have "can_reach (network_step N) t (next_accepted N t)"
      using accept_next [OF inv] t(2) Cons(5) by (simp add: idle_def)
    then show "can_reach (network_step N) t (on_turn N w s)"
    proof (rule can_trans)
      fix fs v assume v: "run (network_step N) t fs v" "next_accepted N t v"
      have waited: "clients_wait s v" "listening N v" "nw_backlog v = ahead @ w # rest"
        using v(2) t(2) Cons(5) by (auto simp: next_accepted_def idle_def clients_wait_def)
      have "can_reach (network_step N) v (on_turn N w v)"
        using waited
        by (intro Cons.IH joined.run_inv [OF inv v(1)] arriving.run_inv [OF pieces v(1)]) simp_all
      then show "can_reach (network_step N) v (on_turn N w s)"
        by (rule can_mono) (use waited(1) in \<open>auto simp: on_turn_def clients_wait_def\<close>)
    qed
  qed
qed

end

subsection \<open>The client's own steps\<close>

text \<open>Its connect succeeds, the handshake is started and the request is sent.\<close>

definition asking :: "nat \<Rightarrow> nat \<Rightarrow> (('c, 'f, 'x) client_system, 'sv, 'f) network \<Rightarrow> bool" where
  "asking j k s \<longleftrightarrow> cl_exists (cs_client (nw_clients s j)) \<and>
     (\<exists>n h. n < length (cl_handshakes (cs_client (nw_clients s j))) \<and>
        cl_handshakes (cs_client (nw_clients s j)) ! n = (h, Running) \<and> hs_stream h = k \<and>
        ((j, k), hs_request h) \<in> set (nw_sent s))"

lemma client_connects:
  assumes "base64_codec (env_boost (ne_server N))" and "cl_exists (cs_client (nw_clients s j))"
    and i: "i < length (cl_connects (cs_client (nw_clients s j)))" "cl_connects (cs_client (nw_clients s j)) ! i = (k, Running)"
  shows "can_reach (network_step N) s (\<lambda>t. asking j k t \<and> nw_server t = nw_server s \<and> nw_backlog t = nw_backlog s @ [(j, k)] \<and>
     (\<forall>i. cl_authentication (cs_client (nw_clients t i)) = cl_authentication (cs_client (nw_clients s i)) \<and>
        cl_host (cs_client (nw_clients t i)) = cl_host (cs_client (nw_clients s i)) \<and>
        cl_path (cs_client (nw_clients t i)) = cl_path (cs_client (nw_clients s i))))"
proof -
  let ?c = "cs_client (nw_clients s j)"
  obtain req where req: "decorator (env_boost (ne_server N)) (cl_authentication ?c) (ne_upgrade N (cl_host ?c) (cl_path ?c)) = Some req"
    using base64_codec.decorator_total [OF assms(1)] by blast
  let ?ops = "(cl_connects ?c)[i := (k, Ready NoError)]"
  have fin: "finish_op i NoError (cl_connects ?c) = Some ?ops" using i by (simp add: finish_op_def)
  let ?c1 = "(nw_clients s j)\<lparr>cs_client := ?c\<lparr>cl_connects := ?ops\<rparr>\<rparr>"
  let ?s1 = "s\<lparr>nw_clients := (nw_clients s)(j := ?c1), nw_backlog := nw_backlog s @ [(j, k)]\<rparr>"
  have step1: "network_step N s (TcpConnect j i) ?s1"
    by (rule tcp_connect [OF i finish_connect [OF fin]])
  obtain ops where take: "take_op i ?ops = Some ((k, NoError), ops)" using take_op_ready [of i ?ops k NoError] i by auto
  let ?h = "\<lparr>hs_stream = k, hs_host = cl_host ?c, hs_target = cl_path ?c, hs_request = req\<rparr>"
  let ?c2 = "?c1\<lparr>cs_client := ?c\<lparr>cl_connects := ops, cl_handshakes := start_op ?h (cl_handshakes ?c)\<rparr>\<rparr>"
  let ?s2 = "?s1\<lparr>nw_clients := (nw_clients s)(j := ?c2)\<rparr>"
  have "net_client_step N ?c1 (ConnectCompleted i) ?c2"
    using connect_completed [where s = ?c1 and i = i, OF _ , of k NoError ops] take assms(2) req
    by (simp add: connectHandler_def onConnect_def)
  then have step2: "network_step N ?s1 (ClientAlone j (ConnectCompleted i)) ?s2"
    using client_moves [of "ConnectCompleted i" N ?s1 j ?c2] by simp
  let ?s3 = "?s2\<lparr>nw_sent := nw_sent s @ [((j, k), req)]\<rparr>"
  have step3: "network_step N ?s2 (SendRequest j (length (cl_handshakes ?c))) ?s3"
    using send_request [of "length (cl_handshakes ?c)" ?s2 j ?h N] by (simp add: start_op_def)
  have "asking j k ?s3"
    unfolding asking_def using assms(2)
    by (auto simp: start_op_def intro!: exI [of _ "length (cl_handshakes ?c)"])
  then show ?thesis
    by (intro network_can_step [OF step1] network_can_step [OF step2] network_can_step [OF step3] can_now) simp
qed

text \<open>The answer arrives, and the client's user has a session.\<close>

lemma client_gets_session:
  assumes "asking j k s" and "callbacks_set (cs_client (nw_clients s j))" and "(j, k) \<in> set (nw_answered s)"
  shows "can_reach (network_step N) s (\<lambda>t. nw_server t = nw_server s \<and> nw_accepted t = nw_accepted s \<and>
     nw_answered t = nw_answered s \<and> (\<exists>cb x. NewSession cb k x \<in> set (cl_trace (cs_client (nw_clients t j)))))"
proof -
  let ?c = "cs_client (nw_clients s j)"
  from assms(1) obtain n h where n: "n < length (cl_handshakes ?c)" "cl_handshakes ?c ! n = (h, Running)"
    and h: "hs_stream h = k" and exists: "cl_exists ?c" by (auto simp: asking_def)
  let ?ops = "(cl_handshakes ?c)[n := (h, Ready NoError)]"
  have fin: "finish_op n NoError (cl_handshakes ?c) = Some ?ops" using n by (simp add: finish_op_def)
  let ?c1 = "(nw_clients s j)\<lparr>cs_client := ?c\<lparr>cl_handshakes := ?ops\<rparr>\<rparr>"
  let ?s1 = "s\<lparr>nw_clients := (nw_clients s)(j := ?c1)\<rparr>"
  have step1: "network_step N s (AnswerArrives j n) ?s1"
    by (rule answer_arrives [OF n _ finish_handshake [OF fin]]) (simp add: h assms(3))
  obtain ops where take: "take_op n ?ops = Some ((h, NoError), ops)" using take_op_ready [of n ?ops h NoError] n by auto
  obtain ns where ns: "cl_onNewSession ?c = Fn ns" using assms(2) by (auto simp: callbacks_set_def)
  let ?x = "new_Session (env_suggested (ne_server N)) (ne_user N) None client_role [] 0"
  let ?c2 = "?c1\<lparr>cs_client := client_emit (NewSession ns k ?x) ((cancel_timer (?c\<lparr>cl_handshakes := ops\<rparr>))\<lparr>cl_stream := None\<rparr>)\<rparr>"
  have "leaves (handshakeHandler (env_suggested (ne_server N)) (ne_user N) (Inr ([], 0)) NoError (hs_stream h)
      ((cs_client ?c1)\<lparr>cl_handshakes := ops\<rparr>)) (cs_client ?c2)"
    using exists ns h by (simp add: handshakeHandler_def onUpgradeConnection_c_def createSession_c_def Let_def)
  then have "net_client_step N ?c1 (HandshakeCompleted n (Inr ([], 0))) ?c2"
    using handshake_completed [where s = ?c1 and i = n and h = h and ec = NoError and ops = ops] take by simp
  then have step2: "network_step N ?s1 (ClientAlone j (HandshakeCompleted n (Inr ([], 0)))) (?s1\<lparr>nw_clients := (nw_clients s)(j := ?c2)\<rparr>)"
    using client_moves [of "HandshakeCompleted n (Inr ([], 0))" N ?s1 j ?c2] by simp
  have "NewSession ns k ?x \<in> set (cl_trace (cs_client ?c2))" by simp
  then show ?thesis
    by (intro network_can_step [OF step1] network_can_step [OF step2] can_now) auto
qed

subsection \<open>The server lets the connection in\<close>

definition admitted ::
  "wire_id \<Rightarrow> nat \<Rightarrow> 'ctx option \<Rightarrow> ('cl, ('k, 'f, 'ctx, ('ctx, 'g, 'a, 'b, 'u) session) server_system, 'f) network \<Rightarrow> bool" where
  "admitted w k ctx s \<longleftrightarrow> w \<in> set (nw_answered s) \<and> k < length (nw_accepted s) \<and> nw_accepted s ! k = w \<and>
     (\<exists>cb y. ServerSession cb k y \<in> set (sv_trace (vs_server (nw_server s))) \<and> getUserContext y = ctx)"

context request_wire
begin

lemma request_let_in:
  assumes s: "network_inv N s" and turn: "on_turn N w s' s" and r: "(w, r) \<in> set (nw_sent s)"
    and auth: "request_authentication (env_boost (ne_server N)) r = Some auth" "\<forall>k. env_authenticate (ne_server N) k auth = (True, ctx k)"
  shows "can_reach (network_step N) s (\<lambda>t. clients_wait s t \<and> (\<exists>k. admitted w k (ctx k) t))"
proof -
  let ?v = "vs_server (nw_server s)"
  from turn obtain k where k: "k < length (nw_accepted s)" "nw_accepted s ! k = w" "nw_received s k = []"
    and reads: "sv_reads ?v = [((ne_family N, k), Running)]" and exists: "sv_exists ?v"
    by (auto simp: on_turn_def listening_def)
  have buffer: "sv_acceptBuffer ?v = []" using s reads k(3) by (auto simp: network_inv_def reading_ok_def)
  have parse: "env_parse (ne_server N) (sv_acceptBuffer ?v @ ne_wire N r) = Some (r, [])"
    by (simp add: buffer parse_text)
  let ?v1 = "request_taken (ne_server N) (ne_family N) k r auth ?v"
  let ?s1 = "s\<lparr>nw_server := (nw_server s)\<lparr>vs_server := ?v1\<rparr>, nw_received := (nw_received s)(k := nw_received s k @ ne_wire N r)\<rparr>"
  have step1: "network_step N s (Deliver 0 (ne_wire N r)) ?s1"
    by (rule deliver [where r = r, OF _ _ k(1) _ _ request_completes [OF reads exists parse auth(1)]]) (simp_all add: reads k r)
  let ?up = "\<lparr>up_stream = k, up_context = ctx k, up_request = r\<rparr>" and ?i = "length (sv_upgrades ?v)"
  have ups: "sv_upgrades ?v1 = sv_upgrades ?v @ [(?up, Running)]"
    using auth(2) by (simp add: request_taken_def startTcpAccept_def start_op_def server_emit_def Let_def)
  let ?s2 = "?s1\<lparr>nw_answered := w # nw_answered s\<rparr>"
  have step2: "network_step N ?s1 (Answer ?i) ?s2"
    using answer [of ?i ?s1 ?up N] k(1,2) by (simp add: ups)
  let ?ops = "sv_upgrades ?v @ [(?up, Ready NoError)]"
  have fin: "finish_op ?i NoError (sv_upgrades ?v1) = Some ?ops" by (simp add: ups finish_op_def)
  let ?v3 = "?v1\<lparr>sv_upgrades := ?ops\<rparr>"
  let ?s3 = "?s2\<lparr>nw_server := (nw_server s)\<lparr>vs_server := ?v3\<rparr>\<rparr>"
  have step3: "network_step N ?s2 (ServerAlone (FinishUpgrade ?i NoError)) ?s3"
    using server_moves [of ?s2 "FinishUpgrade ?i NoError" N "(nw_server s)\<lparr>vs_server := ?v3\<rparr>"]
      finish_upgrade [of ?i NoError "(nw_server s)\<lparr>vs_server := ?v1\<rparr>" ?ops "ne_server N"] fin by simp
  have take: "take_op ?i (sv_upgrades ?v3) = Some ((?up, NoError), sv_upgrades ?v)" by (simp add: take_op_def)
  obtain ns where "sv_onNewSession ?v = Fn ns" using s by (auto simp: network_inv_def server_inv_def)
  then have ns: "sv_onNewSession ?v1 = Fn ns"
    by (simp add: request_taken_def startTcpAccept_def server_emit_def Let_def)
  let ?y = "createSession_s (env_suggested (ne_server N)) (env_user (ne_server N)) (ctx k) [] 0"
  let ?v4 = "server_emit (ServerSession ns k ?y) (?v3\<lparr>sv_upgrades := sv_upgrades ?v\<rparr>)"
  have "leaves (upgradeHandler (env_suggested (ne_server N)) (env_user (ne_server N)) True (Inr ([], 0)) NoError ?up
      (?v3\<lparr>sv_upgrades := sv_upgrades ?v\<rparr>)) ?v4"
    using exists ns by (simp add: upgradeHandler_def onUpgradeConnection_s_def)
  then have step4: "network_step N ?s3 (ServerAlone (UpgradeCompleted ?i True (Inr ([], 0)))) (?s3\<lparr>nw_server := (nw_server s)\<lparr>vs_server := ?v4\<rparr>\<rparr>)"
    using server_moves [of ?s3 "UpgradeCompleted ?i True (Inr ([], 0))" N "(nw_server s)\<lparr>vs_server := ?v4\<rparr>"]
      upgrade_completed [of ?i "(nw_server s)\<lparr>vs_server := ?v3\<rparr>" ?up NoError "sv_upgrades ?v" "ne_server N" True "Inr ([], 0)" ?v4] take
    by simp
  have "getUserContext ?y = ctx k"
    by (simp add: createSession_s_def getUserContext_def new_Session_def setOptions_def Let_def)
  then have "admitted w k (ctx k) (?s3\<lparr>nw_server := (nw_server s)\<lparr>vs_server := ?v4\<rparr>\<rparr>)"
    using k by (auto simp: admitted_def server_emit_def)
  then show ?thesis
    by (intro network_can_step [OF step1] network_can_step [OF step2] network_can_step [OF step3]
        network_can_step [OF step4] can_now) (auto simp: clients_wait_def)
qed

text \<open>All stages together.\<close>

lemma client_gets_in:
  assumes B: "auth_http (env_boost (ne_server N))" and s: "network_inv N s" "pieces_ok N s" and live: "listening N s"
    and bare: "bare_requests (env_boost (ne_server N)) (ne_upgrade N)" and exists: "cl_exists (cs_client (nw_clients s j))"
    and i: "i < length (cl_connects (cs_client (nw_clients s j)))" "cl_connects (cs_client (nw_clients s j)) ! i = (c, Running)"
    and yes: "\<forall>k. env_authenticate (ne_server N) k (carried (cl_authentication (cs_client (nw_clients s j)))) = (True, ctx k)"
  shows "can_reach (network_step N) s (\<lambda>t. (\<exists>cb x. NewSession cb c x \<in> set (cl_trace (cs_client (nw_clients t j)))) \<and>
     (\<exists>k. admitted (j, c) k (ctx k) t))"
proof -
  have codec: "base64_codec (env_boost (ne_server N))"
    using auth_text.axioms(1) [OF auth_http.axioms(1) [OF B]] .
  show ?thesis
  proof (rule can_trans [OF client_connects [OF codec exists i]], elim conjE)
    fix es t
    assume run1: "run (network_step N) s es t" and asking: "asking j c t" and server: "nw_server t = nw_server s"
      and backlog: "nw_backlog t = nw_backlog s @ [(j, c)]"
      and same: "\<forall>i. cl_authentication (cs_client (nw_clients t i)) = cl_authentication (cs_client (nw_clients s i)) \<and>
        cl_host (cs_client (nw_clients t i)) = cl_host (cs_client (nw_clients s i)) \<and>
        cl_path (cs_client (nw_clients t i)) = cl_path (cs_client (nw_clients s i))"
    have inv: "network_inv N t" using s(1) run1 by (rule joined.run_inv)
    obtain r where r: "((j, c), r) \<in> set (nw_sent t)" using asking by (auto simp: asking_def)
    have auth: "request_authentication (env_boost (ne_server N)) r = Some (carried (cl_authentication (cs_client (nw_clients s j))))"
      using sent_names_client [OF B inv bare r] same by simp
    have "listening N t" using live server by (simp add: listening_def)
    from turn_comes [OF B bare inv arriving.run_inv [OF s(2) run1] this, of "nw_backlog s" "(j, c)" "[]"] backlog
    have turn: "can_reach (network_step N) t (on_turn N (j, c) t)" by simp
    show "can_reach (network_step N) t (\<lambda>t. (\<exists>cb x. NewSession cb c x \<in> set (cl_trace (cs_client (nw_clients t j)))) \<and>
       (\<exists>k. admitted (j, c) k (ctx k) t))"
    proof (rule can_trans [OF turn])
      fix fs u assume u: "run (network_step N) t fs u" "on_turn N (j, c) t u"
      have inv_u: "network_inv N u" using inv u(1) by (rule joined.run_inv)
      have waited: "nw_clients u = nw_clients t" "nw_sent u = nw_sent t"
        using u(2) by (auto simp: on_turn_def clients_wait_def)
      show "can_reach (network_step N) u (\<lambda>t. (\<exists>cb x. NewSession cb c x \<in> set (cl_trace (cs_client (nw_clients t j)))) \<and>
         (\<exists>k. admitted (j, c) k (ctx k) t))"
      proof (rule can_trans [OF request_let_in [OF inv_u u(2) _ auth yes]], simp add: r waited, elim conjE exE)
        fix gs v k assume v: "run (network_step N) u gs v" "clients_wait u v" "admitted (j, c) k (ctx k) v"
        have asking_v: "asking j c v" using asking v(2) waited by (simp add: asking_def clients_wait_def)
        have "network_inv N v" using inv_u v(1) by (rule joined.run_inv)
        then have "callbacks_set (cs_client (nw_clients v j))" by (simp add: network_inv_def client_inv_def)
        from client_gets_session [OF asking_v this, of N] v(3)
        have "can_reach (network_step N) v (\<lambda>t. nw_server t = nw_server v \<and> nw_accepted t = nw_accepted v \<and>
            nw_answered t = nw_answered v \<and> (\<exists>cb x. NewSession cb c x \<in> set (cl_trace (cs_client (nw_clients t j)))))"
          by (simp add: admitted_def)
        then show "can_reach (network_step N) v (\<lambda>t. (\<exists>cb x. NewSession cb c x \<in> set (cl_trace (cs_client (nw_clients t j)))) \<and>
           (\<exists>k. admitted (j, c) k (ctx k) t))"
          by (rule can_mono) (use v(3) in \<open>auto simp: admitted_def\<close>)
      qed
    qed
  qed
qed

end

text \<open>The same, of reachable states and for a user who says yes to the client.\<close>

lemma welcome_client_gets_in:
  assumes "auth_http (env_boost (ne_server N))" and "request_wire N"
    and "bare_requests (env_boost (ne_server N)) (ne_upgrade N)"
    and "reachable network_init (network_step N) s"
    and "sv_exists (vs_server (nw_server s))" and "sv_isOpen (vs_server (nw_server s)) (ne_family N)"
    and "cl_exists (cs_client (nw_clients s j))"
    and "i < length (cl_connects (cs_client (nw_clients s j)))"
    and "cl_connects (cs_client (nw_clients s j)) ! i = (c, Running)"
    and "\<forall>k. fst (env_authenticate (ne_server N) k (carried (cl_authentication (cs_client (nw_clients s j)))))"
  shows "\<exists>es t. run (network_step N) s es t \<and>
     (\<exists>cb x. NewSession cb c x \<in> set (cl_trace (cs_client (nw_clients t j)))) \<and>
     (\<exists>k cb y. k < length (nw_accepted t) \<and> nw_accepted t ! k = (j, c) \<and>
        ServerSession cb k y \<in> set (sv_trace (vs_server (nw_server t))) \<and>
        getUserContext y = snd (env_authenticate (ne_server N) k (carried (cl_authentication (cs_client (nw_clients s j))))))"
proof -
  let ?a = "carried (cl_authentication (cs_client (nw_clients s j)))"
  have "network_inv N s" by (rule request_wire.network_reachable [OF assms(2,4)])
  moreover have "pieces_ok N s" by (rule arriving.reachable_inv [OF assms(4)])
  moreover have "listening N s" using assms(5,6) by (simp add: listening_def)
  moreover have "\<forall>k. env_authenticate (ne_server N) k ?a = (True, snd (env_authenticate (ne_server N) k ?a))"
    using assms(10) by (simp add: prod_eq_iff)
  ultimately have "can_reach (network_step N) s (\<lambda>t. (\<exists>cb x. NewSession cb c x \<in> set (cl_trace (cs_client (nw_clients t j)))) \<and>
     (\<exists>k. admitted (j, c) k (snd (env_authenticate (ne_server N) k ?a)) t))"
    by (rule request_wire.client_gets_in [OF assms(2,1) _ _ _ assms(3,7-9)])
  then show ?thesis unfolding can_reach_def admitted_def by blast
qed

subsection \<open>A client that connects while another one is silent\<close>

definition connecting1 :: example_client where
  "connecting1 = csystem1\<lparr>cs_client := client1\<lparr>cl_connects := [(0, Running)], cl_handshakes := []\<rparr>\<rparr>"

definition network_busy :: example_network where
  "network_busy = network2\<lparr>nw_clients := (\<lambda>j. csystem0)(0 := csystem1, 1 := connecting1)\<rparr>"

lemma run_network_busy: "run (network_step example_net) network2
   [ClientAlone 1 (Connect 1000), ClientAlone 1 (FinishResolve 0 NoError), ClientAlone 1 (ResolveCompleted 0)] network_busy"
  by (simp add: network_run_defs network_busy_def network2_def network1_def network0_def connecting1_def csystem1_def
      client1_def csystem0_def)

lemma reachable_network_busy: "reachable network_init (network_step example_net) network_busy"
  by (rule run_reachable [OF reachable_network2 run_network_busy])

lemma busy_state:
  "sv_exists (vs_server (nw_server network_busy))" "sv_isOpen (vs_server (nw_server network_busy)) (ne_family example_net)"
  "cl_exists (cs_client (nw_clients network_busy 1))" "0 < length (cl_connects (cs_client (nw_clients network_busy 1)))"
  "cl_connects (cs_client (nw_clients network_busy 1)) ! 0 = (0, Running)"
  "\<forall>k. fst (env_authenticate (ne_server example_net) k (carried (cl_authentication (cs_client (nw_clients network_busy 1)))))"
proof -
  have "carried (Authentication_basic ''jure'' ''jure123'') = jure"
    using carried_basic_iff [of "''jure''" "''jure123''"] by (simp add: jure_def)
  then show "sv_exists (vs_server (nw_server network_busy))" "sv_isOpen (vs_server (nw_server network_busy)) (ne_family example_net)"
    "cl_exists (cs_client (nw_clients network_busy 1))" "0 < length (cl_connects (cs_client (nw_clients network_busy 1)))"
    "cl_connects (cs_client (nw_clients network_busy 1)) ! 0 = (0, Running)"
    "\<forall>k. fst (env_authenticate (ne_server example_net) k (carried (cl_authentication (cs_client (nw_clients network_busy 1)))))"
    by (simp_all add: network_busy_def network2_def connecting1_def csystem1_def client1_def framed_server1_def
        example_net_def env_wire_def env0_def)
qed

end
