(* ===== verification/Spec2Isabelle.thy ===== *)
theory Spec2Isabelle
  imports Compatibility Session_Link Network_Progress
begin

text \<open>
  Verification of \<open>libNativeStreaming\<close>, the websocket streaming layer of openDAQ: authentication,
  asynchronous reader and writer, session, client and server.

  \<^bold>\<open>The program.\<close> A \<open>Client\<close> (\<open>src/src/client.cpp\<close>) resolves and connects to a \<open>Server\<close>
  (\<open>src/src/server.cpp\<close>), both do a websocket handshake that carries an \<open>Authentication\<close>
  (\<open>src/src/authentication.cpp\<close>, \<open>src/src/utils/base64.cpp\<close>) and each hands its user a \<open>Session\<close>
  (\<open>src/src/session.cpp\<close>). A session owns an \<open>AsyncReader\<close> (\<open>src/src/async_reader.cpp\<close>) and an
  \<open>AsyncWriter\<close> (\<open>src/src/async_writer.cpp\<close>) on the stream, sends a pong each heartbeat period and
  closes the stream. Everything is asynchronous: an operation of Boost.Asio or Boost.Beast is started
  with a completion handler, which the io context calls later.

  \<^bold>\<open>The shape of the model.\<close> Each class is a record of its members, of the operations of the io context,
  timers and stream that it has outstanding, and of the calls it has made (its trace). Each method and
  each lambda is a function of the record, with the source's name; a suffix tells methods of the same
  name apart (\<open>_r\<close> reader, \<open>_w\<close> writer, \<open>_s\<close> session or server, \<open>_c\<close> client). An error code is one of
  three classes (\<open>error_code\<close>), a call returns, throws or is undefined (\<open>outcome\<close>), a
  \<open>std::function\<close> is empty, the do-nothing default, or a function of the user (\<open>callback\<close>), a weak
  pointer is a flag that says whether the object exists. Times are natural numbers (milliseconds),
  ports are 16 bit words, payloads are lists of 8 bit words. A step relation then drives each class by
  its environment: user calls, completions with any result in any order, time. What is reachable is
  defined once (\<open>reachable\<close>), and so is the invariant rule (locale \<open>invariant_system\<close>).

  \<^bold>\<open>The theories.\<close>

  \<^item> \<open>NS_Prelude\<close>: error codes, outcomes and their small Hoare logic (\<open>after\<close>), callbacks, labelled
    machines with the locales \<open>invariant_system\<close>, \<open>safe_system\<close>, \<open>growing_output\<close>, \<open>simulation\<close>
    (refinement by an abstraction function) and \<open>component_of\<close> (a component inside a larger machine).
  \<^item> \<open>Asio\<close>: asynchronous operations, from the documented contract of Boost.Asio: running, ready with a
    result, cancelled, taken by the io context; nothing is assumed of the order.
  \<^item> \<open>Boost_Interface\<close>: the functions of Boost that the code calls (Base64 codec, \<open>split\<close>, HTTP fields) as
    a record of parameters with their documented laws as locales, and an instance that satisfies them
    (Base64 of RFC 4648), interpreted.
  \<^item> \<open>Authentication\<close>: the Base64 wrappers with their buffers, and the authentication object. What a
    generated header carries of any credentials (\<open>carried\<close>: the credentials themselves exactly if they
    contain no colon), normal form, exactly which headers are accepted, when decoding is memory safe.
  \<^item> \<open>Async_Reader\<close>, \<open>Reader_Machine\<close>, \<open>Framing\<close>, \<open>Reader_Properties\<close>: the reader; its mutual recursion
    \<open>read\<close>, \<open>doRead\<close>, \<open>readDone\<close> is a partial function whose value is \<open>None\<close> when it never returns. The
    reference \<open>read_stream\<close> reads the tasks one after the other off the whole input; the locale
    \<open>read_handlers\<close> states what the reader relies on, and the framing handlers of
    \<open>src/test/test_messages.cpp\<close> are an interpretation of it. The lemmas show that the reader returns and
    does what the reference does, however the network cuts the input.
  \<^item> \<open>Async_Writer\<close>, \<open>Writer_Machine\<close>, \<open>Writer_Properties\<close>: the writer with its queue and its deadline
    timers; it refines a first-in first-out channel (interpretation of \<open>simulation\<close>), keeps the order of the bytes on the wire, reports a
    timeout once and is dead afterwards, and can always be driven to write out what it has accepted.
  \<^item> \<open>Session\<close>, \<open>Session_Machine\<close>, \<open>Session_Properties\<close>: the session with its closures, heartbeat, control
    frames and closing handshakes: the heartbeat goes on and is paced, close callbacks are called once.
  \<^item> \<open>Session_Io\<close>, \<open>Session_Closures\<close>, \<open>Session_Io_Properties\<close>: the whole session, reading and writing
    included. Every step of it is a step, or none, of the machine of its reader and of its writer, so
    that their invariants hold of every session (interpretations of \<open>component_of\<close>). The lemmas show that
    no handler throws unless the user has set an empty callback, and what a dropped session still does.
  \<^item> \<open>Session_Link\<close>: two sessions and the connection between them; each end goes through any steps of a
    session, and what is delivered to one is, in order, what the other has put on the wire. Both ends are
    components of the link, so what was proved of a session holds of them; a healthy end can write
    out all it has accepted, and an end that reads frames can be brought to read them all.
  \<^item> \<open>Client\<close>, \<open>Client_Machine\<close>, \<open>Client_Serial\<close>, \<open>Client_Properties\<close>: connection attempts: one outcome
    each, the request that is sent, the session that is handed over. \<open>Client_Serial\<close> is the client whose
    user makes one attempt after the other (\<open>serial_step\<close>); what its timeout cancels and what it misses.
  \<^item> \<open>Server\<close>, \<open>Server_Machine\<close>, \<open>Server_Connections\<close>, \<open>Server_Properties\<close>: starting, accepting, reading
    requests into the one buffer all connections share, authentication, upgrade. \<open>Server_Connections\<close>
    has the life of one connection as an abstract machine; the server is a family of these
    (interpretation of \<open>simulation\<close>), so each connection is asked about at most once and becomes at
    most one session, only after a yes. Acceptors go on, a started server can be connected to exactly when
    starting it succeeded, a stopped server accepts nothing.
  \<^item> \<open>Http_Wire\<close>: what the server's parser makes of the bytes of a request, as a locale with an instance.
  \<^item> \<open>Network\<close>: any number of clients, one server and the network that joins them; each of them is a
    component of it (interpretations of \<open>component_of\<close>), and its invariant (a \<open>sublocale\<close> for any request
    format) says that the server reads one request at a time, asks about each connection what its client
    has sent, and answers only connections that were let in.
  \<^item> \<open>Network_Progress\<close>: that network does not get stuck: from every state in which the server listens, a
    client that connects and is welcome can be brought to its session, stage by stage (\<open>can_reach\<close>),
    whatever credentials it and the other clients have.
  \<^item> \<open>Compatibility\<close>: the two functions of the compatibility utilities that nothing calls.
  \<^item> this theory: messages from session to session, safely and live, credentials from client to server,
    and both together: a client that connects gets its session, the sessions at the ends of its connection
    form a link, and its messages get through it.

  \<^bold>\<open>Bounds.\<close> There is no fuel: the reader's recursion is a partial function and proved to return for handlers
  whose tasks ask for bytes (a rank must decrease where a task asks for none, \<open>progress\<close> of
  \<open>read_handlers\<close>). Sizes are natural numbers; a size read from a frame header has eight bytes, so it fits
  the \<open>size_t\<close> of the code, and messages are shorter than \<open>256 ^ 8\<close>. The differences of sizes that the code
  takes are guarded by comparisons, so none of them wraps around.

  \<^bold>\<open>What is assumed.\<close> Documented behaviour of Boost: a write that completes without an error has written its
  whole payload; a read that completes without an error has transferred at least what it was asked for;
  a wait completes without an error only when its time has come; cancelling does not change an operation
  whose handler is already queued; the upgrade request that the websocket library builds has no
  authorization header before the decorator sets one (\<open>bare_requests\<close>, a hypothesis where it is used).
  Of the user: the tasks are those the constructors assert, a read sequence is scheduled only when none
  is in progress (\<open>overlapping_sequences\<close> shows what happens otherwise), the alive callback of a
  session is not empty, none of the four callbacks given to a client is empty (\<open>client_init\<close>;
  \<open>empty_callback_throws\<close> shows what happens otherwise) nor the new-session callback of a server
  (\<open>server_init\<close>), the callbacks return: that of the authentication, which may give any answer to each
  call (\<open>env_authenticate\<close>, a function of the connection and the credentials, and no connection is asked
  about twice), throws no exception, and neither does the log callback. Of the network of \<open>Network\<close>: clients
  come over one version of IP, send nothing but their request before the answer, none is cut off in the
  middle of its request, and the server is started once; \<open>leftover_bytes_authenticate_next\<close>,
  \<open>concurrent_requests_mix\<close> and \<open>partial_request_spoils_next\<close> show what happens otherwise.

  \<^bold>\<open>What is not modelled.\<close> Logging, which has no influence on the rest. Threads: handlers run one at a time,
  as with one thread calling the io context; that the deadline handler of the writer and the read
  handler are not wrapped in their strands is not visible in the model. The insides of Boost: websocket
  frames, HTTP parsing, sockets; they are the environment's steps or parameters.
  Of the tests only the framing handlers are modelled.
\<close>

section \<open>Messages from session to session\<close>

text \<open>
  Two sessions linked by a connection, as in \<open>Session_Link\<close>. The batches of the one hold framed
  messages, divided among tasks and batches in any way; the other reads frames. What one of the ends
  is to the other holds with the ends exchanged, too (\<open>link_swap\<close>, lemma \<open>swapped.reachable_abs\<close>).
\<close>

text \<open>C1: Messages arrive as they were sent: when what one session has accepted, after bytes that earlier
  read sequences of the other one have consumed, is framed messages, and no write has failed, then
  however the bytes were written, delivered and cut, the other session has received the first of the
  messages, in order and unchanged, and all of them, with nothing left over, once everything has been
  delivered.\<close>

theorem linked_sessions_exchange_messages:
  assumes "ep_handlers Q = frame_handlers" and "ep_bufs Q = (\<lambda>b. [b])"
    and "reachable link_init (link_step P Q) s" and "\<not> io_failed (li_a s)"
    and "concat (map batch_bytes (io_accepted (li_a s))) = before @ concat (map frame ps)"
    and "li_to_b s = before @ io_input (li_b s)"
    and "reads_frames (li_b s) (length ps)"
    and "ps \<noteq> []" and "\<forall>p \<in> set ps. length p < 256 ^ 8"
  shows "prefix (messages_of (li_b s)) (received (io_user (li_b s)) @ ps) \<and>
     (li_to_b s = concat (map batch_bytes (io_accepted (li_a s))) \<longrightarrow>
        messages_of (li_b s) = received (io_user (li_b s)) @ ps \<and>
        rd_pendingTask (se_reader (io_session (li_b s))) = ReadTask_default \<and>
        rd_buffer (se_reader (io_session (li_b s))) = [])"
proof -
  have "read_inv frame_handlers (reader_of (li_b s))"
    using read_handlers.session_read_inv [OF framing.read_handlers_axioms] end_b.reachable_part [OF assms(3)] assms(1,2)
    by metis
  from frames_read [OF this assms(7-9) delivered_frames [OF assms(3-6)]] show ?thesis
    using assms(5,6) by auto
qed

text \<open>C2: All messages can get through: from every state of two linked sessions in which the sender has met
  neither an error nor a deadline, whatever is on its way and whatever either session is doing
  besides, the stream can complete the writes and the network deliver the bytes so that the other
  session has received all messages.\<close>

theorem messages_get_through:
  assumes "ep_handlers Q = frame_handlers" and "ep_bufs Q = (\<lambda>b. [b])"
    and "reachable link_init (link_step P Q) s" and "\<not> io_failed (li_a s)"
    and "\<not> wr_timeoutReached (se_writer (io_session (li_a s)))"
    and "concat (map batch_bytes (io_accepted (li_a s))) = before @ concat (map frame ps)"
    and "li_to_b s = before @ io_input (li_b s)"
    and "reads_frames (li_b s) (length ps)"
    and "ps \<noteq> []" and "\<forall>p \<in> set ps. length p < 256 ^ 8"
  shows "\<exists>es t. run (link_step P Q) s es t \<and> messages_of (li_b t) = received (io_user (li_b s)) @ ps \<and>
     rd_buffer (se_reader (io_session (li_b t))) = []"
  using assms by (rule frames_get_through)

text \<open>The same, of the bytes on the wire of one session and the input of another, without the
  network.\<close>

theorem sessions_exchange_messages:
  assumes "reachable io_init (io_step H bufs msg) a" and "\<not> io_failed a"
    and "concat (map batch_bytes (io_accepted a)) = concat (map frame ps)"
    and "ps \<noteq> []" and "\<forall>p \<in> set ps. length p < 256 ^ 8"
    and "reachable io_init (io_step frame_handlers (\<lambda>b. [b]) msg') b"
    and "reads_frames b (length ps)" and "prefix (io_input b) (io_wire a)"
  shows "prefix (messages_of b) (received (io_user b) @ ps) \<and>
     (io_input b = concat (map frame ps) \<longrightarrow> messages_of b = received (io_user b) @ ps \<and>
        rd_pendingTask (se_reader (io_session b)) = ReadTask_default \<and> rd_buffer (se_reader (io_session b)) = [])"
proof -
  have "write_inv (writer_of a)" using assms(1) by (rule session_writer.part_inv)
  with wire_in_order [of "writer_of a"] assms(2,3,8) have "prefix (io_input b) (concat (map frame ps))"
    by (auto simp: writer_of_def intro: prefix_order.trans)
  with frames_read [OF read_handlers.session_read_inv [OF framing.read_handlers_axioms assms(6)] assms(7,4,5)]
  show ?thesis by blast
qed

text \<open>One message, given to a session as a size and a payload; the other session reads one message and
  gets it in two pieces.\<close>

definition message_batch :: "nat batch" where
  "message_batch = [task [2, 0, 0, 0, 0, 0, 0, 0] 1, task [7, 9] 2]"

definition sender0 :: "(nat, unit, nat, nat, unit) io_system" where
  "sender0 = \<lparr>io_sys = ssystem0, io_entry = ReadTask_default, io_user = (), io_calls = [], io_input = [],
     io_deadlines = [], io_accepted = [], io_completed = [], io_wire = [], io_failed = False\<rparr>"

definition sender1 :: "(nat, unit, nat, nat, unit) io_system" where
  "sender1 = sender0\<lparr>io_sys := ssystem0\<lparr>ss_session := (ss_session ssystem0)\<lparr>se_writer :=
       \<lparr>wr_timeoutReached = False, wr_tasksQueue = [(message_batch, None)], wr_errorHandler = NullFn,
        wr_timeoutHandler = NoOpFn, wr_aliveCallback = NoOpFn, wr_posted = [],
        wr_writes = [([2, 0, 0, 0, 0, 0, 0, 0, 7, 9], Running)], wr_waits = [], wr_nextTimer = 0,
        wr_trace = [WriteStarted [2, 0, 0, 0, 0, 0, 0, 0, 7, 9]]\<rparr>\<rparr>\<rparr>,
     io_accepted := [message_batch]\<rparr>"

definition receiver1 :: example_io where
  "receiver1 = iosystem0\<lparr>io_sys := (io_sys iosystem0)\<lparr>ss_session := new0\<lparr>se_reader :=
       \<lparr>rd_buffer = [], rd_pendingTask = read_header, rd_errorHandler = NullFn, rd_aliveCallback = NoOpFn,
        rd_user = vars0, rd_posted = 0, rd_reads = [(8, Running)], rd_trace = []\<rparr>\<rparr>\<rparr>,
     io_entry := read_header\<rparr>"

definition sender_end :: "(unit, unit) endpoint" where
  "sender_end = \<lparr>ep_handlers = (\<lambda>h d n u. (ReadTask_default, u)), ep_bufs = (\<lambda>b. [b]), ep_msg = (\<lambda>ec. ''error'')\<rparr>"

definition receiver_end :: "(frame_handler, frame_vars) endpoint" where
  "receiver_end = \<lparr>ep_handlers = frame_handlers, ep_bufs = (\<lambda>b. [b]), ep_msg = (\<lambda>ec. ''error'')\<rparr>"

type_synonym example_link = "((nat, unit, nat, nat, unit) io_system, example_io) link"

definition link0 :: example_link where
  "link0 = \<lparr>li_a = sender0, li_b = iosystem0, li_to_a = [], li_to_b = []\<rparr>"

definition link1 :: example_link where
  "link1 = \<lparr>li_a = sender1, li_b = receiver1, li_to_a = [], li_to_b = []\<rparr>"

lemma link0_init: "link_init link0"
proof -
  have "session_init ssystem0" by (rule ssystem0_init)
  then have "io_init sender0"
    by (simp add: io_init_def sender0_def ssystem0_def new_Session_def setOptions_def new_AsyncReader_def Let_def)
  with iosystem0_init show ?thesis by (simp add: link_init_def link0_def)
qed

lemmas link_run_defs =
  link_step_simps sender0_def sender1_def receiver1_def message_batch_def ssystem0_def iosystem0_def new0_def
  suggested0_def vars0_def new_Session_def setOptions_def new_AsyncWriter_def scheduleWrite_s_def write_run_defs

lemma run_link1: "run (link_step sender_end receiver_end) link0
    [Inl (SessionWrite message_batch None), Inl (RunWrite 0), Inr (SessionRead read_header), Inr RunRead] link1"
  by (simp add: link0_def link1_def sender_end_def receiver_end_def link_run_defs io_run_defs)

lemma reachable_link1: "reachable link_init (link_step sender_end receiver_end) link1"
  by (rule run_reachable [OF reachable_init [of link_init, OF link0_init] run_link1])

lemma framed_message: "frame [7, 9] = [2, 0, 0, 0, 0, 0, 0, 0, 7, 9]"
  by code_simp

theorem messages_get_through_witness:
  "\<exists>es t. run (link_step sender_end receiver_end) link1 es t \<and> messages_of (li_b t) = [[7, 9]]"
proof -
  have accepted: "concat (map batch_bytes (io_accepted (li_a link1))) = [] @ concat (map frame [[7, 9]])"
    by (simp add: link1_def sender1_def message_batch_def batch_bytes_def task_def WriteTask_def framed_message)
  have reads: "reads_frames (li_b link1) (length [[7, 9] :: byte list])"
    by (simp add: reads_frames_def link1_def receiver1_def iosystem0_def vars0_def)
  obtain es t where "run (link_step sender_end receiver_end) link1 es t"
    "messages_of (li_b t) = received (io_user (li_b link1)) @ [[7, 9]]"
    using messages_get_through [OF _ _ reachable_link1 _ _ accepted _ reads]
    by (auto simp: receiver_end_def link1_def sender1_def sender0_def receiver1_def iosystem0_def)
  then show ?thesis
    by (intro exI [of _ es] exI [of _ t]) (simp add: link1_def receiver1_def iosystem0_def vars0_def)
qed

definition link2 :: example_link where
  "link2 = \<lparr>li_a = sender1\<lparr>io_sys := (io_sys sender1)\<lparr>ss_session := (io_session sender1)\<lparr>se_writer :=
        (se_writer (io_session sender1))\<lparr>wr_writes := [([2, 0, 0, 0, 0, 0, 0, 0, 7, 9], Ready NoError)]\<rparr>\<rparr>\<rparr>,
       io_wire := [2, 0, 0, 0, 0, 0, 0, 0, 7, 9]\<rparr>,
     li_b = receiver1\<lparr>io_sys := (io_sys receiver1)\<lparr>ss_session := (io_session receiver1)\<lparr>se_reader :=
       \<lparr>rd_buffer = [], rd_pendingTask = ReadTask_default, rd_errorHandler = NullFn, rd_aliveCallback = NoOpFn,
        rd_user = \<lparr>received = [[7, 9]], recvCounter = 1, toSend_size = 1\<rparr>, rd_posted = 0, rd_reads = [],
        rd_trace = [ReadHandled OnReadHeader [2, 0, 0, 0, 0, 0, 0, 0], ReadHandled OnReadPayload [7, 9]]\<rparr>\<rparr>\<rparr>,
       io_input := [2, 0, 0, 0, 0, 0, 0, 0, 7, 9]\<rparr>,
     li_to_a = [], li_to_b = [2, 0, 0, 0, 0, 0, 0, 0, 7, 9]\<rparr>"

lemma run_link2: "run (link_step sender_end receiver_end) link1
    [Inl (Transmit 0 NoError 10), Inr (Receive 0 NoError [2, 0, 0, 0, 0, 0, 0, 0, 7]), Inr (CompleteRead 0),
     Inr (Receive 0 NoError [9]), Inr (CompleteRead 0)] link2"
  by (simp add: link1_def link2_def sender_end_def receiver_end_def link_run_defs io_run_defs)

lemma reachable_link2: "reachable link_init (link_step sender_end receiver_end) link2"
  by (rule run_reachable [OF reachable_link1 run_link2])

theorem linked_sessions_exchange_messages_witness:
  "messages_of (li_b link2) = [[7, 9]] \<and> rd_buffer (se_reader (io_session (li_b link2))) = []"
proof -
  have accepted: "concat (map batch_bytes (io_accepted (li_a link2))) = [] @ concat (map frame [[7, 9]])"
    by (simp add: link2_def sender1_def message_batch_def batch_bytes_def task_def WriteTask_def framed_message)
  have reads: "reads_frames (li_b link2) (length [[7, 9] :: byte list])"
    by (simp add: reads_frames_def link2_def receiver1_def iosystem0_def vars0_def ReadTask_default_def)
  show ?thesis
    using linked_sessions_exchange_messages [OF _ _ reachable_link2 _ accepted _ reads] accepted
    by (simp add: receiver_end_def link2_def sender1_def sender0_def receiver1_def iosystem0_def vars0_def framed_message)
qed

theorem sessions_exchange_messages_witness:
  "messages_of (li_b link2) = [[7, 9]]"
proof -
  have a: "reachable io_init (io_step (ep_handlers sender_end) (ep_bufs sender_end) (ep_msg sender_end)) (li_a link2)"
    by (rule end_a.reachable_part [OF reachable_link2])
  have b: "reachable io_init (io_step frame_handlers (\<lambda>b. [b]) (ep_msg receiver_end)) (li_b link2)"
    using end_b.reachable_part [OF reachable_link2] by (simp add: receiver_end_def)
  have accepted: "concat (map batch_bytes (io_accepted (li_a link2))) = concat (map frame [[7, 9]])"
    by (simp add: link2_def sender1_def message_batch_def batch_bytes_def task_def WriteTask_def framed_message)
  have reads: "reads_frames (li_b link2) (length [[7, 9] :: byte list])"
    by (simp add: reads_frames_def link2_def receiver1_def iosystem0_def vars0_def ReadTask_default_def)
  show ?thesis
    using sessions_exchange_messages [OF a _ accepted _ _ b reads]
    by (simp add: link2_def sender1_def sender0_def receiver1_def iosystem0_def vars0_def framed_message)
qed

section \<open>Credentials from client to server\<close>

text \<open>The request of a client's handshake says who the client is, as far as a header can.\<close>

lemma handshake_authentication:
  assumes "auth_http B" and "bare_requests B upgrade"
    and "reachable client_init (client_step B upgrade suggested u) c"
    and "h \<in> set (op_keys (cl_handshakes (cs_client c)))"
  shows "request_authentication B (hs_request h) = Some (carried (cl_authentication (cs_client c)))"
proof -
  have "requests_ok B upgrade (cs_client c)"
    using connecting.reachable_inv [OF assms(3)] by (simp add: client_inv_def)
  with assms(4) have "decorator B (cl_authentication (cs_client c)) (upgrade (cl_host (cs_client c)) (cl_path (cs_client c)))
       = Some (hs_request h)" by (auto simp: requests_ok_def)
  from decorated_request_authentication [OF assms(1) this] assms(2) show ?thesis by (simp add: bare_requests_def)
qed

text \<open>C7: The credentials that a client is given decide about its session. When the request of its handshake,
  which the websocket library builds without an authorization header of its own, has been read for a
  connection of an existing server, the server's user is asked about the credentials that the
  client's header carries (\<open>carried\<close>: the client's own credentials if they are anonymous or if neither
  user name nor password contains a colon, otherwise those cut at the colons), never about others for
  that connection, and if a session comes of it at any later time, then because the answer was yes,
  and with the context of that answer.\<close>

theorem credentials_decide_session:
  assumes "auth_http B" and "bare_requests B upgrade"
    and "reachable client_init (client_step B upgrade suggested u) c"
    and "h \<in> set (op_keys (cl_handshakes (cs_client c)))"
    and "reachable server_init (server_step E) s" and "env_boost E = B"
    and "sv_exists (vs_server s)" and "i < length (sv_reads (vs_server s))"
    and "sv_reads (vs_server s) ! i = ((fam, k), Running)"
    and "env_parse E (sv_acceptBuffer (vs_server s) @ bs) = Some (hs_request h, rest)"
  shows "\<exists>t. server_step E s (RequestBytes i bs) t \<and>
     AuthenticateCalled k (carried (cl_authentication (cs_client c))) \<in> set (sv_trace (vs_server t)) \<and>
     (\<forall>es v. run (server_step E) t es v \<longrightarrow>
        (\<forall>auth. AuthenticateCalled k auth \<in> set (sv_trace (vs_server v)) \<longrightarrow>
           auth = carried (cl_authentication (cs_client c))) \<and>
        (\<forall>cb x. ServerSession cb k x \<in> set (sv_trace (vs_server v)) \<longrightarrow>
           env_authenticate E k (carried (cl_authentication (cs_client c))) = (True, getUserContext x)))"
proof -
  have "request_authentication (env_boost E) (hs_request h) = Some (carried (cl_authentication (cs_client c)))"
    using handshake_authentication [OF assms(1-4)] assms(6) by simp
  from request_answered [OF assms(7-10) this] obtain t where t: "server_step E s (RequestBytes i bs) t"
    "AuthenticateCalled k (carried (cl_authentication (cs_client c))) \<in> set (sv_trace (vs_server t))" by blast
  note answer = answer_stands [OF reachable_step [OF assms(5) t(1)] t(2)]
  show ?thesis using t answer by blast
qed

text \<open>A server whose parser gives the request of the client of \<open>Client_Properties\<close>.\<close>

definition env_decorated :: "((http_field \<times> string) list, nat, unit) server_env" where
  "env_decorated = env0\<lparr>env_parse := (\<lambda>b. if length b < 2 then None else Some (decorated, drop 2 b))\<rparr>"

lemma carried_jure: "carried (Authentication_basic ''jure'' ''jure123'') = jure"
  using carried_basic_iff [of "''jure''" "''jure123''"] by (simp add: jure_def)

theorem credentials_decide_session_witness:
  "\<exists>t. server_step env_decorated vsystem1 (RequestBytes 0 [1, 1]) t \<and>
     AuthenticateCalled 0 jure \<in> set (sv_trace (vs_server t)) \<and>
     (\<forall>es v cb x. run (server_step env_decorated) t es v \<longrightarrow> ServerSession cb 0 x \<in> set (sv_trace (vs_server v)) \<longrightarrow>
        getUserContext x = Some 5)"
proof -
  let ?h = "\<lparr>hs_stream = 0, hs_host = ''localhost'', hs_target = ''/'', hs_request = decorated\<rparr>"
  have h: "?h \<in> set (op_keys (cl_handshakes (cs_client csystem1)))" by (simp add: csystem1_def client1_def)
  have bare: "bare_requests rfc_boost (\<lambda>host path. [(OtherField ''Host'', host)])"
    by (simp add: bare_requests_def rfc_boost_def)
  from credentials_decide_session [OF rfc.auth_http_axioms bare reachable_csystem1 h reachable_vsystem1,
      of env_decorated 0 V4 0 "[1, 1]" "[]"]
  obtain t where "server_step env_decorated vsystem1 (RequestBytes 0 [1, 1]) t" "AuthenticateCalled 0 jure \<in> set (sv_trace (vs_server t))"
    "\<forall>es v. run (server_step env_decorated) t es v \<longrightarrow> (\<forall>cb x. ServerSession cb 0 x \<in> set (sv_trace (vs_server v)) \<longrightarrow>
       env_authenticate env_decorated 0 jure = (True, getUserContext x))"
    by (auto simp: csystem1_def client1_def vsystem1_def server1_def env_decorated_def env0_def carried_jure)
  moreover have "env_authenticate env_decorated 0 jure = (True, Some 5)" by (simp add: env_decorated_def env0_def)
  ultimately show ?thesis by (metis Pair_inject)
qed

section \<open>From connecting to exchanging messages\<close>

text \<open>The sessions that a client and a server hand to their users are the two ends of a link: what the
  user of the client's session writes, the user of the server's session reads, as it was sent; and the
  server's session knows whom it talks to, for it carries the context that the user gave when asked
  about the connection.\<close>

theorem established_sessions_exchange_messages:
  assumes "reachable client_init (client_step B upgrade suggested u) c" and "NewSession cb k x \<in> set (cl_trace (cs_client c))"
    and "reachable server_init (server_step E) v" and "ServerSession cb' j y \<in> set (sv_trace (vs_server v))"
    and "ep_handlers Q = frame_handlers" and "ep_bufs Q = (\<lambda>b. [b])"
    and "run (link_step P Q) (fresh_link x now y now') es s" and "\<not> io_failed (li_a s)"
    and "concat (map batch_bytes (io_accepted (li_a s))) = before @ concat (map frame ps)"
    and "li_to_b s = before @ io_input (li_b s)"
    and "reads_frames (li_b s) (length ps)"
    and "ps \<noteq> []" and "\<forall>p \<in> set ps. length p < 256 ^ 8"
  shows "(\<exists>auth. AuthenticateCalled j auth \<in> set (sv_trace (vs_server v)) \<and> env_authenticate E j auth = (True, getUserContext y)) \<and>
     prefix (messages_of (li_b s)) (received (io_user (li_b s)) @ ps) \<and>
     (li_to_b s = concat (map batch_bytes (io_accepted (li_a s))) \<longrightarrow>
        messages_of (li_b s) = received (io_user (li_b s)) @ ps)"
proof -
  obtain address port where x: "x = new_Session suggested u None client_role address port"
    using handed_over_fresh [OF assms(1,2)] by blast
  obtain auth ctx address' port' where asked: "AuthenticateCalled j auth \<in> set (sv_trace (vs_server v))"
      "env_authenticate E j auth = (True, ctx)" "getUserContext y = ctx"
    and y: "y = new_Session (env_suggested E) (env_user E) ctx server_role address' port'"
    using session_decided [OF assms(3,4)] by blast
  have "reachable link_init (link_step P Q) s"
    using run_reachable [OF reachable_init [of link_init, OF fresh_link_init [OF x y]] assms(7)] .
  note link = this assms(8-13)
  have "read_inv frame_handlers (reader_of (li_b s))"
    using read_handlers.session_read_inv [OF framing.read_handlers_axioms] end_b.reachable_part [OF link(1)] assms(5,6)
    by metis
  from frames_read [OF this link(5-7) delivered_frames [OF link(1-4)]] asked link(3,4) show ?thesis
    by auto
qed

text \<open>A server for sessions that read frames, from its start to the session of jure.\<close>

definition env_frames :: "((http_field \<times> string) list, nat, frame_vars) server_env" where
  "env_frames = \<lparr>env_boost = rfc_boost, env_parse = parse0,
     env_authenticate = (\<lambda>k auth. if auth = jure then (True, Some 5) else (False, None)),
     env_suggested = suggested0, env_user = vars0\<rparr>"

definition framed_session :: "(nat, frame_handler, nat, nat, frame_vars) session" where
  "framed_session = new_Session suggested0 vars0 (Some 5) server_role ''::1'' 50000"

lemma framed_server_run:
  "\<exists>v. run (server_step env_frames) framed_start [StartServer 7420, FinishAccept 0 NoError, AcceptCompleted 0,
      RequestBytes 0 [1, 1], FinishUpgrade 0 NoError, UpgradeCompleted 0 True (Inr (''::1'', 50000))] v \<and>
     sv_trace (vs_server v) = [AuthenticateCalled 0 jure, ServerSession 1 0 framed_session]"
proof -
  have "server_step env_frames framed_start (StartServer 7420)
      (framed_start\<lparr>vs_server := snd (start net0 7420 (vs_server framed_start)), vs_starts := 1\<rparr>)"
    using start_server [of framed_start net0 7420 env_frames] by (simp add: framed_start_def new_Server_def)
  moreover have "\<exists>v. run (server_step env_frames)
      (framed_start\<lparr>vs_server := snd (start net0 7420 (vs_server framed_start)), vs_starts := 1\<rparr>)
      [FinishAccept 0 NoError, AcceptCompleted 0, RequestBytes 0 [1, 1], FinishUpgrade 0 NoError,
       UpgradeCompleted 0 True (Inr (''::1'', 50000))] v \<and>
     sv_trace (vs_server v) = [AuthenticateCalled 0 jure, ServerSession 1 0 framed_session]"
    by (simp add: framed_start_def env_frames_def framed_session_def net0_def server_run_defs request_of_jure)
  ultimately show ?thesis unfolding run.simps by blast
qed

text \<open>A message goes through a fresh link.\<close>

lemma established_run:
  assumes "x = new_Session suggested () ctx role address port" and "y = new_Session suggested' vars0 ctx' role' address' port'"
  shows "\<exists>s. run (link_step sender_end receiver_end)
       (fresh_link (x :: (nat, unit, nat, nat, unit) session) 0 (y :: (nat, frame_handler, nat, nat, frame_vars) session) 0)
      [Inl (SessionWrite message_batch None), Inl (RunWrite 0), Inr (SessionRead read_header), Inr RunRead,
       Inl (Transmit 0 NoError 10), Inr (Receive 0 NoError [2, 0, 0, 0, 0, 0, 0, 0, 7]), Inr (CompleteRead 0),
       Inr (Receive 0 NoError [9]), Inr (CompleteRead 0)] s \<and>
     \<not> io_failed (li_a s) \<and> concat (map batch_bytes (io_accepted (li_a s))) = [] @ concat (map frame [[7, 9]]) \<and>
     li_to_b s = [] @ io_input (li_b s) \<and> li_to_b s = concat (map batch_bytes (io_accepted (li_a s))) \<and>
     reads_frames (li_b s) (length [[7, 9] :: byte list]) \<and> received (io_user (li_b s)) = []"
proof -
  have accepted: "batch_bytes message_batch = [2, 0, 0, 0, 0, 0, 0, 0, 7, 9]"
    by (simp add: message_batch_def batch_bytes_def task_def WriteTask_def)
  show ?thesis
    by (simp add: assms fresh_link_def fresh_io_def sender_end_def receiver_end_def link_run_defs io_run_defs
        accepted framed_message reads_frames_def)
qed

theorem established_sessions_exchange_messages_witness:
  "\<exists>s. messages_of (li_b s) = [[7, 9]] \<and> getUserContext framed_session = Some 5 \<and>
     (\<exists>es. run (link_step sender_end receiver_end) (fresh_link client_session 0 framed_session 0) es s)"
proof -
  obtain v where v: "run (server_step env_frames) framed_start [StartServer 7420, FinishAccept 0 NoError, AcceptCompleted 0,
      RequestBytes 0 [1, 1], FinishUpgrade 0 NoError, UpgradeCompleted 0 True (Inr (''::1'', 50000))] v"
    and trace: "sv_trace (vs_server v) = [AuthenticateCalled 0 jure, ServerSession 1 0 framed_session]"
    using framed_server_run by blast
  have server: "reachable server_init (server_step env_frames) v"
    by (rule run_reachable [OF reachable_init [of server_init, OF framed_start_init] v])
  have session: "ServerSession 1 0 framed_session \<in> set (sv_trace (vs_server v))" by (simp add: trace)
  have client: "NewSession 1 0 client_session \<in> set (cl_trace (cs_client csystem2))"
    by (simp add: csystem2_def client_session_def)
  obtain es s where s: "run (link_step sender_end receiver_end) (fresh_link client_session 0 framed_session 0) es s"
    "\<not> io_failed (li_a s)" "concat (map batch_bytes (io_accepted (li_a s))) = [] @ concat (map frame [[7, 9]])"
    "li_to_b s = [] @ io_input (li_b s)" "li_to_b s = concat (map batch_bytes (io_accepted (li_a s)))"
    "reads_frames (li_b s) (length [[7, 9] :: byte list])" "received (io_user (li_b s)) = []"
    using established_run [OF client_session_def framed_session_def] by blast
  note exchanged = established_sessions_exchange_messages [OF reachable_csystem2 client server session _ _ s(1,2,3,4,6)]
  have "messages_of (li_b s) = [[7, 9]]"
    using exchanged s(5,7) by (simp add: receiver_end_def)
  moreover have "getUserContext framed_session = Some 5"
    using exchanged trace by (auto simp: receiver_end_def env_frames_def)
  ultimately show ?thesis using s(1) by blast
qed

section \<open>Many clients and one server\<close>

text \<open>C8: Clients and a server joined by a network that cuts no request agree about who is who: a client
  has a session only on a connection that the server has accepted, exactly one, and about which the
  server's user was asked about what this client's header carries of its credentials (\<open>carried\<close>, the
  credentials themselves if they are anonymous or contain no colon) and said yes; and every session of
  the server belongs to a connection of a client, carries the context that the user gave for that
  client's credentials, and no connection of a client is accepted twice. So no client is ever served
  with the credentials of another one, however many connect at the same time, and fail, at any moment.
  The upgrade requests the websocket library builds have no authorization header of their own.\<close>

theorem network_authenticates:
  assumes "auth_http (env_boost (ne_server N))" and "request_wire N"
    and "bare_requests (env_boost (ne_server N)) (ne_upgrade N)"
    and "reachable network_init (network_step N) s"
  shows "(\<forall>cb c x. NewSession cb c x \<in> set (cl_trace (cs_client (nw_clients s j))) \<longrightarrow>
        (\<exists>!k. k < length (nw_accepted s) \<and> nw_accepted s ! k = (j, c)) \<and>
        (\<exists>k < length (nw_accepted s). nw_accepted s ! k = (j, c) \<and>
           AuthenticateCalled k (carried (cl_authentication (cs_client (nw_clients s j)))) \<in> set (sv_trace (vs_server (nw_server s))) \<and>
           fst (env_authenticate (ne_server N) k (carried (cl_authentication (cs_client (nw_clients s j))))))) \<and>
     (\<forall>cb k y. ServerSession cb k y \<in> set (sv_trace (vs_server (nw_server s))) \<longrightarrow>
        k < length (nw_accepted s) \<and>
        (\<forall>c. nw_accepted s ! k = (j, c) \<longrightarrow>
           env_authenticate (ne_server N) k (carried (cl_authentication (cs_client (nw_clients s j)))) = (True, getUserContext y))) \<and>
     distinct (nw_accepted s)"
proof (intro conjI allI impI)
  have inv: "network_inv N s" by (rule request_wire.network_reachable [OF assms(2,4)])
  note asked = asked_about_client [OF assms(1) inv assms(3)]
  show once: "distinct (nw_accepted s)" using inv by (simp add: network_inv_def links_ok_def)
  fix cb c x
  assume "NewSession cb c x \<in> set (cl_trace (cs_client (nw_clients s j)))"
  from client_let_in [OF inv this] obtain k auth where k: "k < length (nw_accepted s)" "nw_accepted s ! k = (j, c)"
    and auth: "AuthenticateCalled k auth \<in> set (sv_trace (vs_server (nw_server s)))" "fst (env_authenticate (ne_server N) k auth)"
    by blast
  from asked [OF auth(1) k(2)] auth k
  show "\<exists>k < length (nw_accepted s). nw_accepted s ! k = (j, c) \<and>
      AuthenticateCalled k (carried (cl_authentication (cs_client (nw_clients s j)))) \<in> set (sv_trace (vs_server (nw_server s))) \<and>
      fst (env_authenticate (ne_server N) k (carried (cl_authentication (cs_client (nw_clients s j)))))"
    by blast
  show "\<exists>!k. k < length (nw_accepted s) \<and> nw_accepted s ! k = (j, c)"
    using k once nth_eq_iff_index_eq by metis
next
  have inv: "network_inv N s" by (rule request_wire.network_reachable [OF assms(2,4)])
  fix cb k y
  assume "ServerSession cb k y \<in> set (sv_trace (vs_server (nw_server s)))"
  from session_let_in_client [OF inv this] obtain auth where k: "k < length (nw_accepted s)"
    and auth: "AuthenticateCalled k auth \<in> set (sv_trace (vs_server (nw_server s)))"
      "env_authenticate (ne_server N) k auth = (True, getUserContext y)" by blast
  show "k < length (nw_accepted s)" by (rule k)
  show "env_authenticate (ne_server N) k (carried (cl_authentication (cs_client (nw_clients s j)))) = (True, getUserContext y)"
    if "nw_accepted s ! k = (j, c)" for c
    using asked_about_client [OF assms(1) inv assms(3) auth(1) that] auth(2) by simp
qed

theorem network_authenticates_witness:
  "\<exists>s :: example_network. reachable network_init (network_step example_net) s \<and>
     (\<exists>!k. k < length (nw_accepted s) \<and> nw_accepted s ! k = (0, 0)) \<and>
     env_authenticate env_wire 0 jure = (True, getUserContext wire_session)"
proof -
  obtain s :: example_network where s: "reachable network_init (network_step example_net) s"
    "cl_authentication (cs_client (nw_clients s 0)) = jure"
    "NewSession 1 0 client_session \<in> set (cl_trace (cs_client (nw_clients s 0)))" "nw_accepted s = [(0, 0)]"
    "ServerSession 1 0 wire_session \<in> set (sv_trace (vs_server (nw_server s)))"
    using example_agreed by blast
  have jure: "carried jure = jure" using carried_jure by (simp add: jure_def)
  note agreed = network_authenticates [OF example_boost example_wire.request_wire_axioms example_bare s(1), of 0]
  have "\<exists>!k. k < length (nw_accepted s) \<and> nw_accepted s ! k = (0, 0)"
    using conjunct1 [OF agreed] s(3) by blast
  moreover have "env_authenticate env_wire 0 jure = (True, getUserContext wire_session)"
    using conjunct1 [OF conjunct2 [OF agreed]] s(2,4,5) jure by (fastforce simp: example_net_def)
  ultimately show ?thesis using s(1) by blast
qed

section \<open>Clients get in\<close>

text \<open>C9: An existing client whose connect is running can get in: from every reachable state of the network in which the
  server exists and listens, whatever it is reading and however many connections are waiting, there is
  a way to go on in which this client has its session and the server has one for the same connection,
  with the context that the user gives for what the client's header carries of its credentials. No
  client, whatever its credentials, and no failure before can have made the server deaf. The user says
  yes to the client whenever asked, and the upgrade requests the websocket library builds have no
  authorization header of their own.\<close>

theorem connecting_client_gets_in:
  assumes "auth_http (env_boost (ne_server N))" and "request_wire N"
    and "bare_requests (env_boost (ne_server N)) (ne_upgrade N)"
    and "reachable network_init (network_step N) s"
    and "sv_exists (vs_server (nw_server s))" and "sv_isOpen (vs_server (nw_server s)) (ne_family N)"
    and "cl_exists (cs_client (nw_clients s j))"
    and "i < length (cl_connects (cs_client (nw_clients s j)))"
    and "cl_connects (cs_client (nw_clients s j)) ! i = (c, Running)"
    and "\<forall>k. fst (env_authenticate (ne_server N) k (carried (cl_authentication (cs_client (nw_clients s j)))))"
  shows "\<exists>es t. run (network_step N) s es t \<and>
     (\<exists>cb x. NewSession cb c x \<in> set (cl_trace (cs_client (nw_clients t j)))) \<and>
     (\<exists>k cb y. k < length (nw_accepted t) \<and> nw_accepted t ! k = (j, c) \<and>
        ServerSession cb k y \<in> set (sv_trace (vs_server (nw_server t))) \<and>
        getUserContext y = snd (env_authenticate (ne_server N) k (carried (cl_authentication (cs_client (nw_clients s j))))))"
  using welcome_client_gets_in [OF assms] .

text \<open>The server is reading the request of a client that has sent nothing; another client connects.\<close>

theorem connecting_client_gets_in_witness:
  "\<exists>es t. run (network_step example_net) network_busy es t \<and>
     (\<exists>cb x. NewSession cb 0 x \<in> set (cl_trace (cs_client (nw_clients t 1))))"
  using connecting_client_gets_in [OF example_boost example_wire.request_wire_axioms example_bare reachable_network_busy,
      of 1 0 0] busy_state by blast

section \<open>From connecting to the messages\<close>

text \<open>The two users of a fresh link begin: the one writes a batch, the other reads frames.\<close>

lemma fresh_link_begins:
  assumes "x = new_Session suggested u ctx role address port" and "y = new_Session suggested' u' ctx' role' address' port'"
    and "b \<noteq> []" and "\<forall>x \<in> set b. WriteTask_asserts x"
    and "recvCounter u' + n = toSend_size u'"
  shows "\<exists>l. run (link_step P Q) (fresh_link x now y now')
       [Inl (SessionWrite b None), Inl (RunWrite 0), Inr (SessionRead read_header), Inr RunRead] l \<and>
     \<not> io_failed (li_a l) \<and> \<not> wr_timeoutReached (se_writer (io_session (li_a l))) \<and> io_accepted (li_a l) = [b] \<and>
     li_to_b l = [] \<and> io_input (li_b l) = [] \<and> io_user (li_b l) = u' \<and> reads_frames (li_b l) n"
  using assms(3-5)
  by (simp add: assms(1,2) fresh_link_def fresh_io_def link_run_defs io_run_defs reads_frames_def WriteTask_asserts_def)

text \<open>C3: The whole way, from connecting to the messages: from every reachable state of the network in which
  the server exists and listens, an existing client whose connect is running, and to whose credentials, as its
  header carries them, the user says yes whenever asked, can be brought to a session on the connection on
  which the server has one too, with the context of that answer; and when the user of the client's
  session then writes framed messages, as one batch of tasks with buffers and handlers, and the user of
  the server's session, who expects as many, reads frames, then the two ends of the connection can be
  brought to where the server's user has received exactly these messages, in order. The upgrade requests
  the websocket library builds have no authorization header of their own.\<close>

theorem network_sessions_exchange_messages:
  assumes "auth_http (env_boost (ne_server N))" and "request_wire N"
    and "bare_requests (env_boost (ne_server N)) (ne_upgrade N)"
    and "reachable network_init (network_step N) s"
    and "sv_exists (vs_server (nw_server s))" and "sv_isOpen (vs_server (nw_server s)) (ne_family N)"
    and "cl_exists (cs_client (nw_clients s j))"
    and "i < length (cl_connects (cs_client (nw_clients s j)))"
    and "cl_connects (cs_client (nw_clients s j)) ! i = (c, Running)"
    and "\<forall>k. fst (env_authenticate (ne_server N) k (carried (cl_authentication (cs_client (nw_clients s j)))))"
    and "ep_handlers Q = frame_handlers" and "ep_bufs Q = (\<lambda>b. [b])"
    and "b \<noteq> []" and "\<forall>x \<in> set b. WriteTask_asserts x"
    and "batch_bytes b = concat (map frame ps)" and "ps \<noteq> []" and "\<forall>p \<in> set ps. length p < 256 ^ 8"
    and "recvCounter (env_user (ne_server N)) + length ps = toSend_size (env_user (ne_server N))"
  shows "\<exists>es t cb x k cb' y. run (network_step N) s es t \<and>
     NewSession cb c x \<in> set (cl_trace (cs_client (nw_clients t j))) \<and>
     k < length (nw_accepted t) \<and> nw_accepted t ! k = (j, c) \<and>
     ServerSession cb' k y \<in> set (sv_trace (vs_server (nw_server t))) \<and>
     getUserContext y = snd (env_authenticate (ne_server N) k (carried (cl_authentication (cs_client (nw_clients s j))))) \<and>
     (\<exists>fs l. run (link_step P Q) (fresh_link x now y now')
        (Inl (SessionWrite b None) # Inl (RunWrite 0) # Inr (SessionRead read_header) # Inr RunRead # fs) l \<and>
        messages_of (li_b l) = received (env_user (ne_server N)) @ ps)"
proof -
  from welcome_client_gets_in [OF assms(1-10)] obtain es t cb x k cb' y where t: "run (network_step N) s es t"
    and x: "NewSession cb c x \<in> set (cl_trace (cs_client (nw_clients t j)))"
    and k: "k < length (nw_accepted t)" "nw_accepted t ! k = (j, c)"
    and y: "ServerSession cb' k y \<in> set (sv_trace (vs_server (nw_server t)))"
    and ctx: "getUserContext y = snd (env_authenticate (ne_server N) k (carried (cl_authentication (cs_client (nw_clients s j)))))"
    by blast
  have reach: "reachable network_init (network_step N) t" using assms(4) t by (rule run_reachable)
  obtain address port where fx: "x = new_Session (env_suggested (ne_server N)) (ne_user N) None client_role address port"
    using handed_over_fresh [OF net_client.reachable_part [OF reach] x] by blast
  obtain ctx' address' port' where fy: "y = new_Session (env_suggested (ne_server N)) (env_user (ne_server N)) ctx' server_role address' port'"
    using session_decided [OF net_server.reachable_part [OF reach] y] by blast
  from fresh_link_begins [OF fx fy assms(13,14,18), of P Q now now'] obtain l where
    l: "run (link_step P Q) (fresh_link x now y now')
       [Inl (SessionWrite b None), Inl (RunWrite 0), Inr (SessionRead read_header), Inr RunRead] l"
    and ready: "\<not> io_failed (li_a l)" "\<not> wr_timeoutReached (se_writer (io_session (li_a l)))"
      "io_accepted (li_a l) = [b]" "li_to_b l = []" "io_input (li_b l) = []" "io_user (li_b l) = env_user (ne_server N)"
      "reads_frames (li_b l) (length ps)" by blast
  have link: "reachable link_init (link_step P Q) l"
    using run_reachable [OF reachable_init [of link_init, OF fresh_link_init [OF fx fy]] l] .
  obtain fs m where m: "run (link_step P Q) l fs m" "messages_of (li_b m) = received (io_user (li_b l)) @ ps"
    using frames_get_through [OF assms(11,12) link ready(1,2), of "[]" ps] assms(15-17) ready(3-7) by auto
  have "run (link_step P Q) (fresh_link x now y now')
      ([Inl (SessionWrite b None), Inl (RunWrite 0), Inr (SessionRead read_header), Inr RunRead] @ fs) m"
    using l m(1) unfolding run_append by blast
  then have "\<exists>fs l. run (link_step P Q) (fresh_link x now y now')
        (Inl (SessionWrite b None) # Inl (RunWrite 0) # Inr (SessionRead read_header) # Inr RunRead # fs) l \<and>
        messages_of (li_b l) = received (env_user (ne_server N)) @ ps"
    using m(2) ready(6) by (intro exI [of _ fs] exI [of _ m]) (simp del: run.simps)
  with t x k y ctx show ?thesis by blast
qed

text \<open>The client that connects while another one is silent, and one message.\<close>

theorem network_sessions_exchange_messages_witness:
  "\<exists>es t cb x k cb' y fs l. run (network_step example_net) network_busy es t \<and>
     NewSession cb 0 x \<in> set (cl_trace (cs_client (nw_clients t 1))) \<and>
     ServerSession cb' k y \<in> set (sv_trace (vs_server (nw_server t))) \<and>
     run (link_step sender_end receiver_end) (fresh_link x 0 y 0)
       (Inl (SessionWrite message_batch None) # Inl (RunWrite 0) # Inr (SessionRead read_header) # Inr RunRead # fs) l \<and>
     messages_of (li_b l) = [[7, 9]]"
proof -
  have ends: "ep_handlers receiver_end = frame_handlers" "ep_bufs receiver_end = (\<lambda>b. [b])"
    by (simp_all add: receiver_end_def)
  have batch: "message_batch \<noteq> []" "\<forall>x \<in> set message_batch. WriteTask_asserts x"
    "batch_bytes message_batch = concat (map frame [[7, 9]])"
    by (simp_all add: message_batch_def batch_bytes_def task_def WriteTask_def framed_message WriteTask_asserts_def)
  have user: "env_user (ne_server example_net) = vars0" by (simp add: example_net_def env_wire_def)
  have small: "[[7, 9]] \<noteq> ([] :: byte list list)" "\<forall>p \<in> set [[7, 9] :: byte list]. length p < 256 ^ 8"
    "recvCounter (env_user (ne_server example_net)) + length [[7, 9] :: byte list] = toSend_size (env_user (ne_server example_net))"
    by (simp_all add: user vars0_def)
  have "received (env_user (ne_server example_net)) = []" by (simp add: user vars0_def)
  with network_sessions_exchange_messages [OF example_boost example_wire.request_wire_axioms example_bare reachable_network_busy
      busy_state ends batch small, of sender_end 0 0]
  show ?thesis by (simp del: run.simps) blast
qed

end
